(* ===== verification/Prelude.thy ===== *)
theory Prelude
  imports Main "HOL-Library.Word"
begin

text \<open>
  What every component of the development shares: machine integers, the value of a Rust
  computation that may panic, the question-mark operator of Rust on results, the collections
  of rewrite rules (\<open>stm_ops\<close> for the equations of operations, \<open>stm_wf\<close> for the
  preservation of well-formedness), and facts on strictly sorted association lists and on
  function updates that the proofs of several components use.
\<close>

named_theorems stm_ops "equations that compute the operations of the library"
named_theorems stm_wf "preservation of the well-formedness of worlds and logs"

type_synonym usize = "64 word"

subsection \<open>Panics\<close>

text \<open>
  A Rust function that may panic either returns or unwinds with a message.
\<close>

datatype 'a may_panic = Return 'a | Panic string

fun panics :: "'a may_panic \<Rightarrow> bool" where
  "panics (Return _) = False"
| "panics (Panic _) = True"

lemma not_panics_iff: "\<not> panics r \<longleftrightarrow> (\<exists>x. r = Return x)"
  by (cases r) auto

subsection \<open>Strictly sorted association lists\<close>

lemma sorted_wrt_less_map_fst_distinct:
  fixes xs :: "('k::linorder \<times> 'v) list"
  shows "sorted_wrt (<) (map fst xs) \<Longrightarrow> distinct (map fst xs)"
  by (induction xs) auto

lemma map_of_None_below:
  fixes xs :: "('k::linorder \<times> 'v) list"
  assumes "sorted_wrt (<) (map fst xs)" and "\<forall>y \<in> fst ` set xs. k < y"
  shows "map_of xs k = None"
  using assms(2) by (auto simp: map_of_eq_None_iff)

lemma map_of_sorted_Cons_tail:
  fixes xs :: "('k::linorder \<times> 'v) list"
  assumes "sorted_wrt (<) (map fst ((k, v) # xs))"
  shows "map_of xs k = None"
  using assms by (auto simp: map_of_eq_None_iff)

subsection \<open>Folding point updates over a list\<close>

text \<open>
  Writing a list of (key, value) pairs with distinct keys into a function, one after the other.
\<close>

definition upd_all :: "('k \<times> 'v) list \<Rightarrow> ('k \<Rightarrow> 'v) \<Rightarrow> 'k \<Rightarrow> 'v" where
  "upd_all kvs f = fold (\<lambda>(k, v) g. g(k := v)) kvs f"

lemma upd_all_simps [simp]:
  "upd_all [] f = f"
  "upd_all ((k, v) # kvs) f = upd_all kvs (f(k := v))"
  by (simp_all add: upd_all_def)

lemma upd_all_append: "upd_all (xs @ ys) f = upd_all ys (upd_all xs f)"
  by (simp add: upd_all_def)

lemma upd_all_apply:
  assumes "distinct (map fst kvs)"
  shows "upd_all kvs f k = (case map_of kvs k of Some v \<Rightarrow> v | None \<Rightarrow> f k)"
  using assms
proof (induction kvs arbitrary: f)
  case Nil
  then show ?case by simp
next
  case (Cons kv kvs)
  obtain j w where kv: "kv = (j, w)" by (cases kv)
  with Cons.prems have fresh: "map_of kvs j = None" and dist: "distinct (map fst kvs)"
    by (auto simp: map_of_eq_None_iff)
  have "upd_all (kv # kvs) f k =
      (case map_of kvs k of Some v \<Rightarrow> v | None \<Rightarrow> (f(j := w)) k)"
    by (simp only: kv upd_all_simps) (rule Cons.IH [OF dist])
  then show ?case using fresh kv by (cases "k = j") (simp_all split: option.split)
qed

end
