(* ===== verification/BTree.thy ===== *)
theory BTree
  imports Prelude
begin

text \<open>
  The map behind a transaction log, \<^verbatim>\<open>std::collections::BTreeMap\<close>, with the operations the source
  calls: \<^verbatim>\<open>new\<close>, \<^verbatim>\<open>entry\<close> (as a lookup followed by an insertion), \<^verbatim>\<open>or_insert\<close>, \<^verbatim>\<open>clear\<close> and the
  iteration in key order. A map is the strictly ascending list of its entries, so iterating
  over it is reading the list. What the clients rely on is the locale \<open>ordered_map\<close>; the
  list is one interpretation of it.
\<close>

type_synonym ('k, 'v) btree_map = "('k \<times> 'v) list"

subsection \<open>The interface\<close>

locale ordered_map =
  fixes new :: "'m"
    and get :: "'m \<Rightarrow> 'k::linorder \<Rightarrow> 'v option"
    and insert_kv :: "'k \<Rightarrow> 'v \<Rightarrow> 'm \<Rightarrow> 'm"
    and iter :: "'m \<Rightarrow> ('k \<times> 'v) list"
    and invar :: "'m \<Rightarrow> bool"
  assumes invar_new: "invar new"
    and invar_insert: "invar m \<Longrightarrow> invar (insert_kv k v m)"
    and get_new: "get new k = None"
    and get_insert: "invar m \<Longrightarrow> get (insert_kv k v m) = (get m)(k \<mapsto> v)"
    and iter_sorted: "invar m \<Longrightarrow> sorted_wrt (<) (map fst (iter m))"
    and iter_get: "invar m \<Longrightarrow> map_of (iter m) = get m"
begin

definition or_insert :: "'k \<Rightarrow> 'v \<Rightarrow> 'm \<Rightarrow> 'm" where
  "or_insert k v m = (case get m k of None \<Rightarrow> insert_kv k v m | Some _ \<Rightarrow> m)"

lemma invar_or_insert: "invar m \<Longrightarrow> invar (or_insert k v m)"
  by (simp add: or_insert_def invar_insert split: option.split)

lemma get_or_insert:
  "invar m \<Longrightarrow> get (or_insert k v m) j = (if j = k \<and> get m k = None then Some v else get m j)"
  by (auto simp: or_insert_def get_insert split: option.split)

lemma iter_distinct: "invar m \<Longrightarrow> distinct (map fst (iter m))"
  by (rule sorted_wrt_less_map_fst_distinct) (rule iter_sorted)

lemma iter_mem: "invar m \<Longrightarrow> (k, v) \<in> set (iter m) \<longleftrightarrow> get m k = Some v"
  using iter_get [of m] iter_distinct [of m] by (metis map_of_eq_Some_iff)

text \<open>
  Adding a list of optional new entries, each only where the key is vacant: the loop of
  \<^verbatim>\<open>Transaction::combine\<close>.
\<close>

definition add_vacant :: "('v \<Rightarrow> 'v option) \<Rightarrow> ('k \<times> 'v) list \<Rightarrow> 'm \<Rightarrow> 'm" where
  "add_vacant h kvs m =
     fold (\<lambda>(k, v) m. case h v of None \<Rightarrow> m | Some v' \<Rightarrow> or_insert k v' m) kvs m"

lemma invar_add_vacant: "invar m \<Longrightarrow> invar (add_vacant h kvs m)"
  unfolding add_vacant_def
  by (induction kvs arbitrary: m) (auto simp: invar_or_insert split: option.split)

lemma get_add_vacant:
  assumes "invar m" and "distinct (map fst kvs)"
  shows "get (add_vacant h kvs m) j =
    (case get m j of Some v \<Rightarrow> Some v | None \<Rightarrow> Option.bind (map_of kvs j) h)"
  using assms
proof (induction kvs arbitrary: m)
  case Nil
  then show ?case by (simp add: add_vacant_def split: option.split)
next
  case (Cons kv kvs)
  obtain k v where kv: "kv = (k, v)" by (cases kv)
  define m' where "m' = (case h v of None \<Rightarrow> m | Some v' \<Rightarrow> or_insert k v' m)"
  have step: "add_vacant h (kv # kvs) m = add_vacant h kvs m'"
    by (simp add: add_vacant_def kv m'_def)
  have inv': "invar m'"
    using Cons.prems(1) by (simp add: m'_def invar_or_insert split: option.split)
  have get': "get m' j = (if j = k \<and> get m k = None then h v else get m j)"
    using Cons.prems(1) by (auto simp: m'_def get_or_insert split: option.split)
  have fresh: "map_of kvs k = None"
    using Cons.prems(2) kv by (simp add: map_of_eq_None_iff)
  from Cons.IH [OF inv'] Cons.prems(2) have
    "get (add_vacant h (kv # kvs) m) j =
      (case get m' j of Some v \<Rightarrow> Some v | None \<Rightarrow> Option.bind (map_of kvs j) h)"
    by (simp add: step)
  then show ?case
    using fresh by (auto simp: get' kv split: option.split)
qed

end

subsection \<open>The sorted association list\<close>

fun btm_insert :: "'k::linorder \<Rightarrow> 'v \<Rightarrow> ('k, 'v) btree_map \<Rightarrow> ('k, 'v) btree_map" where
  "btm_insert k v [] = [(k, v)]"
| "btm_insert k v ((k', v') # m) =
     (if k < k' then (k, v) # (k', v') # m
      else if k = k' then (k, v) # m
      else (k', v') # btm_insert k v m)"

definition btm_get :: "('k::linorder, 'v) btree_map \<Rightarrow> 'k \<Rightarrow> 'v option" where
  "btm_get m k = map_of m k"

definition btm_iter :: "('k::linorder, 'v) btree_map \<Rightarrow> ('k \<times> 'v) list" where
  "btm_iter m = m"

definition btm_ok :: "('k::linorder, 'v) btree_map \<Rightarrow> bool" where
  "btm_ok m \<longleftrightarrow> sorted_wrt (<) (map fst m)"

lemma btm_insert_keys: "fst ` set (btm_insert k v m) = insert k (fst ` set m)"
  by (induction k v m rule: btm_insert.induct) auto

lemma btm_ok_insert: "btm_ok m \<Longrightarrow> btm_ok (btm_insert k v m)"
  unfolding btm_ok_def
proof (induction k v m rule: btm_insert.induct)
  case (2 k v k' v' m)
  have "\<forall>x \<in> set (map fst (btm_insert k v m)). k' < x" if "k' < k"
    using 2 that btm_insert_keys [of k v m] by (auto simp del: image_iff)
  with 2 show ?case by (auto simp: not_less_iff_gr_or_eq intro: less_trans)
qed simp

lemma map_of_btm_insert: "map_of (btm_insert k v m) = (map_of m)(k \<mapsto> v)"
  by (induction k v m rule: btm_insert.induct) (auto simp: fun_upd_twist)

interpretation btm: ordered_map "[]" btm_get btm_insert btm_iter btm_ok
  by unfold_locales
    (simp_all add: btm_ok_insert btm_get_def fun_eq_iff map_of_btm_insert btm_iter_def,
      simp_all add: btm_ok_def)

definition btm_or_insert :: "'k::linorder \<Rightarrow> 'v \<Rightarrow> ('k, 'v) btree_map \<Rightarrow> ('k, 'v) btree_map" where
  "btm_or_insert k v m = (case btm_get m k of None \<Rightarrow> btm_insert k v m | Some _ \<Rightarrow> m)"

lemma btm_or_insert_eq: "btm.or_insert = btm_or_insert"
  by (intro ext) (simp add: btm.or_insert_def btm_or_insert_def)

lemma btm_ok_Nil [simp]: "btm_ok []"
  by (simp add: btm_ok_def)

lemma btm_ok_Cons: "btm_ok ((k, v) # m) \<longleftrightarrow> (\<forall>j \<in> fst ` set m. k < j) \<and> btm_ok m"
  by (simp add: btm_ok_def)

lemma btm_get_Nil [simp]: "btm_get [] k = None"
  by (simp add: btm_get_def)

lemma btm_get_Cons: "btm_get ((j, v) # m) k = (if k = j then Some v else btm_get m k)"
  by (simp add: btm_get_def)

end
