(* ===== verification/Result.thy ===== *)
theory Result
  imports Prelude
begin

text \<open>
  \<^verbatim>\<open>result.rs\<close> and the free functions of \<^verbatim>\<open>lib.rs\<close> that build results: the two errors of an STM
  computation, \<^verbatim>\<open>StmResult\<close> as a sum (the error on the left), \<^verbatim>\<open>retry\<close>, \<^verbatim>\<open>guard\<close>,
  \<^verbatim>\<open>unwrap_or_retry\<close>, and Rust's question-mark operator as a bind.
\<close>

datatype StmError = Failure | Retry

type_synonym 'a StmResult = "StmError + 'a"

definition retry :: "'a StmResult" where
  "retry = Inl Retry"

definition unwrap_or_retry :: "'a option \<Rightarrow> 'a StmResult" where
  "unwrap_or_retry opt = (case opt of Some x \<Rightarrow> Inr x | None \<Rightarrow> retry)"

definition guard :: "bool \<Rightarrow> unit StmResult" where
  "guard cond = (if cond then Inr () else retry)"

text \<open>The operator \<^verbatim>\<open>?\<close> followed by the rest of the function body.\<close>

fun bind_result :: "'a StmResult \<Rightarrow> ('a \<Rightarrow> 'b StmResult) \<Rightarrow> 'b StmResult" where
  "bind_result (Inl e) k = Inl e"
| "bind_result (Inr x) k = k x"

text \<open>\<^verbatim>\<open>Result::map\<close>.\<close>

definition map_result :: "('a \<Rightarrow> 'b) \<Rightarrow> 'a StmResult \<Rightarrow> 'b StmResult" where
  "map_result f r = bind_result r (\<lambda>x. Inr (f x))"

lemma map_result_simps [simp]:
  "map_result f (Inl e) = Inl e"
  "map_result f (Inr x) = Inr (f x)"
  by (simp_all add: map_result_def)

lemma bind_result_assoc:
  "bind_result (bind_result r f) g = bind_result r (\<lambda>x. bind_result (f x) g)"
  by (cases r) simp_all

lemma bind_result_eq_Inr [simp]:
  "bind_result r k = Inr y \<longleftrightarrow> (\<exists>x. r = Inr x \<and> k x = Inr y)"
  by (cases r) simp_all

lemma guard_bind: "bind_result (guard c) (\<lambda>_. k) = (if c then k else retry)"
  by (simp add: guard_def retry_def)

end
