(* ===== verification/Any_Arc.thy ===== *)
theory Any_Arc
  imports Result
begin

text \<open>
  Values of \<^verbatim>\<open>Arc<dyn Any + Send + Sync>\<close>. A dynamically typed value carries its Rust type, which
  \<^verbatim>\<open>type_id\<close> reads and a downcast compares. An \<^verbatim>\<open>Arc\<close> is the address of an immutable box; the
  boxes live in an arena with an allocation frontier, every address below it being allocated.
  \<^verbatim>\<open>Arc::ptr_eq\<close> is equality of addresses. The arena never reuses an address: two boxes are
  only ever compared while both are held, and a held box is not freed (proved in \<open>Boxes\<close>).
\<close>

type_synonym arc = nat

datatype tyid =
    TyUnit | TyBool | TyInt | TyString
  | TyVec tyid | TyOption tyid | TyArc tyid | TyWeak tyid | TyUser string

datatype val =
    VUnit | VBool bool | VInt int | VString string
  | VVec tyid "val list" | VOption tyid "val option"
  | VArc tyid arc | VWeak tyid "arc option" | VUser string "val list"

fun type_id :: "val \<Rightarrow> tyid" where
  "type_id VUnit = TyUnit"
| "type_id (VBool _) = TyBool"
| "type_id (VInt _) = TyInt"
| "type_id (VString _) = TyString"
| "type_id (VVec t _) = TyVec t"
| "type_id (VOption t _) = TyOption t"
| "type_id (VArc t _) = TyArc t"
| "type_id (VWeak t _) = TyWeak t"
| "type_id (VUser n _) = TyUser n"

text \<open>\<^verbatim>\<open>downcast_ref::<T>()\<close> on \<^verbatim>\<open>dyn Any\<close>, followed by the clone of the value.\<close>

definition downcast_ref :: "tyid \<Rightarrow> val \<Rightarrow> val option" where
  "downcast_ref T a = (if type_id a = T then Some a else None)"

subsection \<open>The arena of boxes\<close>

record arena =
  boxes :: "arc \<Rightarrow> val"
  next_arc :: arc

definition Arc_new :: "val \<Rightarrow> arena \<Rightarrow> arc \<times> arena" where
  "Arc_new v h = (next_arc h, h\<lparr>boxes := (boxes h)(next_arc h := v), next_arc := Suc (next_arc h)\<rparr>)"

definition deref :: "arena \<Rightarrow> arc \<Rightarrow> val" where
  "deref h a = boxes h a"

definition empty_arena :: arena where
  "empty_arena = \<lparr>boxes = (\<lambda>_. VUnit), next_arc = 0\<rparr>"

definition allocated :: "arena \<Rightarrow> arc \<Rightarrow> bool" where
  "allocated h a \<longleftrightarrow> a < next_arc h"

text \<open>Later arenas keep every allocated box and its contents.\<close>

definition extends :: "arena \<Rightarrow> arena \<Rightarrow> bool" where
  "extends h h' \<longleftrightarrow> next_arc h \<le> next_arc h' \<and> (\<forall>a. allocated h a \<longrightarrow> deref h' a = deref h a)"

lemma fst_Arc_new [simp]: "fst (Arc_new v h) = next_arc h"
  by (simp add: Arc_new_def)

lemma next_arc_Arc_new [simp]: "next_arc (snd (Arc_new v h)) = Suc (next_arc h)"
  by (simp add: Arc_new_def)

lemma deref_Arc_new: "deref (snd (Arc_new v h)) a = (if a = next_arc h then v else deref h a)"
  by (simp add: Arc_new_def deref_def)

lemma deref_Arc_new_same [simp]: "deref (snd (Arc_new v h)) (next_arc h) = v"
  by (simp add: deref_Arc_new)

lemma deref_Arc_new_old: "allocated h a \<Longrightarrow> deref (snd (Arc_new v h)) a = deref h a"
  by (simp add: deref_Arc_new allocated_def)

lemma allocated_Arc_new [simp]:
  "allocated (snd (Arc_new v h)) a \<longleftrightarrow> a = next_arc h \<or> allocated h a"
  by (auto simp: allocated_def)

lemma not_allocated_next [simp]: "\<not> allocated h (next_arc h)"
  by (simp add: allocated_def)

lemma extends_refl [simp, intro]: "extends h h"
  by (simp add: extends_def)

lemma extends_trans [trans]: "extends h h' \<Longrightarrow> extends h' h'' \<Longrightarrow> extends h h''"
  unfolding extends_def allocated_def by auto

lemma extends_Arc_new [simp, intro]: "extends h (snd (Arc_new v h))"
  by (simp add: extends_def deref_Arc_new_old)

lemma extends_allocated: "extends h h' \<Longrightarrow> allocated h a \<Longrightarrow> allocated h' a"
  by (simp add: extends_def allocated_def)

lemma extends_deref: "extends h h' \<Longrightarrow> allocated h a \<Longrightarrow> deref h' a = deref h a"
  by (simp add: extends_def)

subsection \<open>Addresses of control blocks\<close>

text \<open>
  \<^verbatim>\<open>VarControlBlock\<close> is ordered and compared by its address
  (\<^verbatim>\<open>impl PartialEq/Ord for VarControlBlock\<close>), which makes it the key of a transaction log.
\<close>

datatype vcb_ref = VCB (get_address: usize)

instantiation vcb_ref :: linorder
begin

definition less_eq_vcb_ref :: "vcb_ref \<Rightarrow> vcb_ref \<Rightarrow> bool" where
  "less_eq_vcb_ref x y \<longleftrightarrow> get_address x \<le> get_address y"

definition less_vcb_ref :: "vcb_ref \<Rightarrow> vcb_ref \<Rightarrow> bool" where
  "less_vcb_ref x y \<longleftrightarrow> get_address x < get_address y"

instance
  by standard (auto simp: less_eq_vcb_ref_def less_vcb_ref_def vcb_ref.expand)

end

datatype ordering = Less | Equal | Greater

definition VarControlBlock_cmp :: "vcb_ref \<Rightarrow> vcb_ref \<Rightarrow> ordering" where
  "VarControlBlock_cmp self other =
     (if get_address self < get_address other then Less
      else if get_address self = get_address other then Equal
      else Greater)"

definition VarControlBlock_partial_cmp :: "vcb_ref \<Rightarrow> vcb_ref \<Rightarrow> ordering option" where
  "VarControlBlock_partial_cmp self other = Some (VarControlBlock_cmp self other)"

definition VarControlBlock_eq :: "vcb_ref \<Rightarrow> vcb_ref \<Rightarrow> bool" where
  "VarControlBlock_eq self other \<longleftrightarrow> get_address self = get_address other"

lemma VarControlBlock_cmp_iff:
  "VarControlBlock_cmp x y = Less \<longleftrightarrow> x < y"
  "VarControlBlock_cmp x y = Equal \<longleftrightarrow> x = y"
  "VarControlBlock_cmp x y = Greater \<longleftrightarrow> y < x"
  "VarControlBlock_eq x y \<longleftrightarrow> x = y"
  by (auto simp: VarControlBlock_cmp_def VarControlBlock_eq_def less_vcb_ref_def vcb_ref.expand)

end
