(* ===== verification/Log_Var.thy ===== *)
theory Log_Var
  imports Any_Arc
begin

text \<open>
  \<^verbatim>\<open>transaction/log_var.rs\<close>: the five states of a log entry and their transitions. What an entry
  promises the transaction is the locale \<open>log_entry\<close>: it remembers the value the variable had
  when it was first read (\<open>orig\<close>), the value to be written (\<open>pending\<close>), and whether the
  commit has to check the original (\<open>checked\<close>). The five states are the legal combinations.
\<close>

datatype LogVar =
    Read arc
  | Write arc
  | ReadWrite arc arc
  | ReadObsolete arc
  | ReadObsoleteWrite arc arc

fun LogVar_read :: "LogVar \<Rightarrow> arc \<times> LogVar" where
  "LogVar_read (Read v) = (v, Read v)"
| "LogVar_read (Write v) = (v, Write v)"
| "LogVar_read (ReadWrite r v) = (v, ReadWrite r v)"
| "LogVar_read (ReadObsoleteWrite w v) = (v, ReadWrite w v)"
| "LogVar_read (ReadObsolete v) = (v, Read v)"

fun LogVar_write :: "LogVar \<Rightarrow> arc \<Rightarrow> LogVar" where
  "LogVar_write (Write _) w = Write w"
| "LogVar_write (ReadObsolete r) w = ReadObsoleteWrite r w"
| "LogVar_write (ReadObsoleteWrite r _) w = ReadObsoleteWrite r w"
| "LogVar_write (Read r) w = ReadWrite r w"
| "LogVar_write (ReadWrite r _) w = ReadWrite r w"

fun into_read_value :: "LogVar \<Rightarrow> arc option" where
  "into_read_value (Read v) = Some v"
| "into_read_value (ReadWrite v _) = Some v"
| "into_read_value (ReadObsolete v) = Some v"
| "into_read_value (ReadObsoleteWrite v _) = Some v"
| "into_read_value (Write _) = None"

definition obsolete :: "LogVar \<Rightarrow> LogVar option" where
  "obsolete self = map_option ReadObsolete (into_read_value self)"

subsection \<open>The contract of a log entry\<close>

text \<open>
  A sequence of accesses to one variable inside one transaction.
\<close>

datatype access = AccRead | AccWrite arc

fun last_write :: "arc option \<Rightarrow> access list \<Rightarrow> arc option" where
  "last_write p [] = p"
| "last_write p (AccRead # xs) = last_write p xs"
| "last_write p (AccWrite w # xs) = last_write (Some w) xs"

locale log_entry =
  fixes rd :: "'e \<Rightarrow> arc \<times> 'e"
    and wr :: "'e \<Rightarrow> arc \<Rightarrow> 'e"
    and orig :: "'e \<Rightarrow> arc option"
    and pending :: "'e \<Rightarrow> arc option"
    and checked :: "'e \<Rightarrow> bool"
  assumes some_value: "orig e = None \<Longrightarrow> pending e \<noteq> None"
    and checked_orig: "checked e \<Longrightarrow> orig e \<noteq> None"
    and read_value: "fst (rd e) = (case pending e of Some w \<Rightarrow> w | None \<Rightarrow> the (orig e))"
    and read_orig: "orig (snd (rd e)) = orig e"
    and read_pending: "pending (snd (rd e)) = pending e"
    and read_checked: "checked (snd (rd e)) \<longleftrightarrow> orig e \<noteq> None"
    and write_orig: "orig (wr e w) = orig e"
    and write_pending: "pending (wr e w) = Some w"
    and write_checked: "checked (wr e w) = checked e"
begin

fun run :: "'e \<Rightarrow> access list \<Rightarrow> 'e" where
  "run e [] = e"
| "run e (AccRead # xs) = run (snd (rd e)) xs"
| "run e (AccWrite w # xs) = run (wr e w) xs"

lemma run_orig: "orig (run e xs) = orig e"
  by (induction e xs rule: run.induct) (simp_all add: read_orig write_orig)

lemma run_pending: "pending (run e xs) = last_write (pending e) xs"
  by (induction e xs rule: run.induct) (simp_all add: read_pending write_pending)

lemma run_checked:
  "checked (run e xs) \<longleftrightarrow> checked e \<or> (AccRead \<in> set xs \<and> orig e \<noteq> None)"
proof (induction e xs rule: run.induct)
  case (2 e xs)
  then show ?case using checked_orig [of e] by (auto simp: read_checked read_orig)
qed (simp_all add: write_checked write_orig)

lemma run_read:
  "fst (rd (run e xs)) =
    (case last_write (pending e) xs of Some w \<Rightarrow> w | None \<Rightarrow> the (orig e))"
  by (simp add: read_value run_pending run_orig split: option.split)

end

fun pending_value :: "LogVar \<Rightarrow> arc option" where
  "pending_value (Read _) = None"
| "pending_value (Write w) = Some w"
| "pending_value (ReadWrite _ w) = Some w"
| "pending_value (ReadObsolete _) = None"
| "pending_value (ReadObsoleteWrite _ w) = Some w"

fun is_checked :: "LogVar \<Rightarrow> bool" where
  "is_checked (Read _) = True"
| "is_checked (Write _) = False"
| "is_checked (ReadWrite _ _) = True"
| "is_checked (ReadObsolete _) = False"
| "is_checked (ReadObsoleteWrite _ _) = False"

interpretation lv: log_entry LogVar_read LogVar_write into_read_value pending_value is_checked
proof unfold_locales
  fix e :: LogVar and w
  show "into_read_value e = None \<Longrightarrow> pending_value e \<noteq> None"
    and "is_checked e \<Longrightarrow> into_read_value e \<noteq> None"
    and "fst (LogVar_read e) =
      (case pending_value e of Some w \<Rightarrow> w | None \<Rightarrow> the (into_read_value e))"
    and "into_read_value (snd (LogVar_read e)) = into_read_value e"
    and "pending_value (snd (LogVar_read e)) = pending_value e"
    and "is_checked (snd (LogVar_read e)) \<longleftrightarrow> into_read_value e \<noteq> None"
    and "into_read_value (LogVar_write e w) = into_read_value e"
    and "pending_value (LogVar_write e w) = Some w"
    and "is_checked (LogVar_write e w) = is_checked e"
    by (cases e; simp)+
qed

text \<open>A log entry after a sequence of accesses, over the code's two operations.\<close>

fun LogVar_run :: "LogVar \<Rightarrow> access list \<Rightarrow> LogVar" where
  "LogVar_run e [] = e"
| "LogVar_run e (AccRead # xs) = LogVar_run (snd (LogVar_read e)) xs"
| "LogVar_run e (AccWrite w # xs) = LogVar_run (LogVar_write e w) xs"

lemma lv_run_eq: "lv.run e xs = LogVar_run e xs"
  by (induction e xs rule: LogVar_run.induct) simp_all

lemma LogVar_eqI:
  assumes "into_read_value e = into_read_value e'" and "pending_value e = pending_value e'"
    and "is_checked e = is_checked e'"
  shows "e = e'"
  using assms by (cases e; cases e') simp_all

lemma obsolete_simps [simp]:
  "obsolete (Read v) = Some (ReadObsolete v)"
  "obsolete (Write v) = None"
  "obsolete (ReadWrite v w) = Some (ReadObsolete v)"
  "obsolete (ReadObsolete v) = Some (ReadObsolete v)"
  "obsolete (ReadObsoleteWrite v w) = Some (ReadObsolete v)"
  by (simp_all add: obsolete_def)

lemma obsolete_Some:
  "obsolete e = Some e' \<longleftrightarrow> (\<exists>v. into_read_value e = Some v \<and> e' = ReadObsolete v)"
  by (auto simp: obsolete_def)

text \<open>
  C26. A log entry remembers the history of its variable: after any sequence of reads and writes
  the entry keeps the original value it started with, its pending value is the last one written,
  a further read returns that pending value (or else the original), and the commit will check the
  original exactly when the entry was already checked or was read while it had an original.
\<close>

theorem LogVar_tracks_accesses:
  "into_read_value (LogVar_run e xs) = into_read_value e \<and>
   pending_value (LogVar_run e xs) = last_write (pending_value e) xs \<and>
   fst (LogVar_read (LogVar_run e xs)) =
     (case last_write (pending_value e) xs of Some w \<Rightarrow> w | None \<Rightarrow> the (into_read_value e)) \<and>
   (is_checked (LogVar_run e xs) \<longleftrightarrow>
     is_checked e \<or> AccRead \<in> set xs \<and> into_read_value e \<noteq> None)"
  using lv.run_orig [of e xs] lv.run_pending [of e xs] lv.run_read [of e xs]
    lv.run_checked [of e xs]
  by (simp only: lv_run_eq simp_thms)

text \<open>
  Making an entry obsolete keeps what a blocked transaction has to wait for and nothing
  else: an entry that never read the variable disappears, any other becomes an unchecked,
  unwritten entry with the same original.
\<close>

theorem obsolete_keeps_only_the_read:
  "(obsolete e = None \<longleftrightarrow> (\<exists>w. e = Write w)) \<and>
   (\<forall>e'. obsolete e = Some e' \<longleftrightarrow>
      into_read_value e \<noteq> None \<and> into_read_value e' = into_read_value e \<and>
      pending_value e' = None \<and> \<not> is_checked e')"
proof
  show "obsolete e = None \<longleftrightarrow> (\<exists>w. e = Write w)"
    by (cases e) simp_all
  show "\<forall>e'. obsolete e = Some e' \<longleftrightarrow>
      into_read_value e \<noteq> None \<and> into_read_value e' = into_read_value e \<and>
      pending_value e' = None \<and> \<not> is_checked e'"
  proof
    fix e'
    show "obsolete e = Some e' \<longleftrightarrow>
      into_read_value e \<noteq> None \<and> into_read_value e' = into_read_value e \<and>
      pending_value e' = None \<and> \<not> is_checked e'"
      by (cases e; cases e') auto
  qed
qed

end
