(* ===== verification/Control_Block.thy ===== *)
theory Control_Block
  imports Prelude
begin

text \<open>
  \<^verbatim>\<open>transaction/control_block.rs\<close>: the block on which a retrying transaction sleeps. The functions
  are given twice: as atomic operations for sequential reasoning (\<open>ControlBlock_new\<close>,
  \<open>ControlBlock_set_changed\<close>) and, since \<^verbatim>\<open>wait\<close> and \<^verbatim>\<open>set_changed\<close> run in different threads, as
  a step relation in which every atomic access and every \<^verbatim>\<open>park\<close> or \<^verbatim>\<open>unpark\<close> is a step of its
  own. \<^verbatim>\<open>std::thread\<close> gives each thread one token: \<^verbatim>\<open>unpark\<close> makes it available, \<^verbatim>\<open>park\<close> blocks until
  it is available and consumes it, and \<^verbatim>\<open>park\<close> may also return spuriously. The concurrent model of
  the library has the same steps among its own.
\<close>

type_synonym tid = nat

record ControlBlock =
  thread :: tid
  blocked :: bool

definition ControlBlock_new :: "tid \<Rightarrow> ControlBlock" where
  "ControlBlock_new current = \<lparr>thread = current, blocked = True\<rparr>"

text \<open>The whole of \<^verbatim>\<open>set_changed\<close>: the swap, then the unpark if the flag was still set.\<close>

definition ControlBlock_set_changed ::
    "ControlBlock \<Rightarrow> (tid \<Rightarrow> bool) \<Rightarrow> ControlBlock \<times> (tid \<Rightarrow> bool)" where
  "ControlBlock_set_changed self tokens =
     (self\<lparr>blocked := False\<rparr>,
      if blocked self then tokens(thread self := True) else tokens)"

lemma set_changed_idem:
  "ControlBlock_set_changed (fst (ControlBlock_set_changed c t)) t' =
   (fst (ControlBlock_set_changed c t), t')"
  by (simp add: ControlBlock_set_changed_def)

subsection \<open>One waiter and any number of wakers, interleaved\<close>

text \<open>
  The waiter is before its load of \<open>blocked\<close>, parked, or has returned. A waker has not called
  \<^verbatim>\<open>set_changed\<close>, is between the swap and the unpark, has returned after unparking, or has returned
  without unparking because the flag was already cleared.
\<close>

datatype waiter_pc = WLoad | WPark | WDone

datatype waker_pc = KIdle | KUnpark | KWoke | KSkipped

record cb_sys =
  block :: ControlBlock
  token :: bool
  wpc :: waiter_pc
  kpc :: "nat \<Rightarrow> waker_pc"

text \<open>The token may be left over from an earlier use of the thread.\<close>

definition cb_init :: "tid \<Rightarrow> bool \<Rightarrow> cb_sys" where
  "cb_init t stale =
     \<lparr>block = ControlBlock_new t, token = stale, wpc = WLoad, kpc = (\<lambda>_. KIdle)\<rparr>"

inductive wait_step :: "cb_sys \<Rightarrow> cb_sys \<Rightarrow> bool" where
  load_blocked: "wpc s = WLoad \<Longrightarrow> blocked (block s) \<Longrightarrow> wait_step s (s\<lparr>wpc := WPark\<rparr>)"
| load_changed: "wpc s = WLoad \<Longrightarrow> \<not> blocked (block s) \<Longrightarrow> wait_step s (s\<lparr>wpc := WDone\<rparr>)"
| park_token: "wpc s = WPark \<Longrightarrow> token s \<Longrightarrow> wait_step s (s\<lparr>token := False, wpc := WLoad\<rparr>)"

inductive set_changed_step :: "nat \<Rightarrow> cb_sys \<Rightarrow> cb_sys \<Rightarrow> bool" where
  swap_first: "kpc s k = KIdle \<Longrightarrow> blocked (block s) \<Longrightarrow>
    set_changed_step k s
      (s\<lparr>block := (block s)\<lparr>blocked := False\<rparr>, kpc := (kpc s)(k := KUnpark)\<rparr>)"
| swap_again: "kpc s k = KIdle \<Longrightarrow> \<not> blocked (block s) \<Longrightarrow>
    set_changed_step k s
      (s\<lparr>block := (block s)\<lparr>blocked := False\<rparr>, kpc := (kpc s)(k := KSkipped)\<rparr>)"
| unpark: "kpc s k = KUnpark \<Longrightarrow>
    set_changed_step k s (s\<lparr>token := True, kpc := (kpc s)(k := KWoke)\<rparr>)"

inductive cb_step :: "cb_sys \<Rightarrow> cb_sys \<Rightarrow> bool" where
  waiter: "wait_step s t \<Longrightarrow> cb_step s t"
| waker: "set_changed_step k s t \<Longrightarrow> cb_step s t"
| spurious: "wpc s = WPark \<Longrightarrow> cb_step s (s\<lparr>wpc := WLoad\<rparr>)"
| other_unpark: "cb_step s (s\<lparr>token := True\<rparr>)"

inductive cb_reachable :: "cb_sys \<Rightarrow> bool" where
  cb_start: "cb_reachable (cb_init t stale)"
| cb_next: "cb_reachable s \<Longrightarrow> cb_step s s' \<Longrightarrow> cb_reachable s'"

inductive_cases cb_stepE: "cb_step s t"
inductive_cases wait_stepE: "wait_step s t"
inductive_cases set_changed_stepE: "set_changed_step k s t"

lemmas cb_step_elims = cb_stepE wait_stepE set_changed_stepE

text \<open>
  The invariant. The flag is cleared by exactly the wakers past their swap; one of them, and only
  one, saw it set; a waiter parked under a cleared flag without a token will get one from it; and
  a waiter that has returned saw the flag cleared.
\<close>

definition saw_blocked :: "waker_pc \<Rightarrow> bool" where
  "saw_blocked p \<longleftrightarrow> p = KUnpark \<or> p = KWoke"

lemma saw_blocked_simps [simp]:
  "\<not> saw_blocked KIdle" "saw_blocked KUnpark" "saw_blocked KWoke" "\<not> saw_blocked KSkipped"
  by (simp_all add: saw_blocked_def)

definition cb_inv :: "cb_sys \<Rightarrow> bool" where
  "cb_inv s \<longleftrightarrow>
     (if blocked (block s)
      then (\<forall>k. kpc s k = KIdle) \<and> wpc s \<noteq> WDone
      else (\<exists>k. saw_blocked (kpc s k) \<and> (\<forall>j. j \<noteq> k \<longrightarrow> \<not> saw_blocked (kpc s j)) \<and>
             (wpc s = WPark \<and> \<not> token s \<longrightarrow> kpc s k = KUnpark)))"

lemma cb_inv_init: "cb_inv (cb_init t stale)"
  by (simp add: cb_inv_def cb_init_def ControlBlock_new_def)

lemma cb_invI_changed:
  assumes "\<not> blocked (block s)" and "saw_blocked (kpc s k)"
    and "\<And>j. j \<noteq> k \<Longrightarrow> \<not> saw_blocked (kpc s j)"
    and "wpc s = WPark \<Longrightarrow> \<not> token s \<Longrightarrow> kpc s k = KUnpark"
  shows "cb_inv s"
  using assms unfolding cb_inv_def by auto

lemma cb_invE_changed:
  assumes "cb_inv s" and "\<not> blocked (block s)"
  obtains k where "saw_blocked (kpc s k)" and "\<And>j. j \<noteq> k \<Longrightarrow> \<not> saw_blocked (kpc s j)"
    and "wpc s = WPark \<Longrightarrow> \<not> token s \<Longrightarrow> kpc s k = KUnpark"
  using assms unfolding cb_inv_def by auto

lemma cb_inv_blocked:
  "blocked (block s) \<Longrightarrow> cb_inv s \<longleftrightarrow> (\<forall>k. kpc s k = KIdle) \<and> wpc s \<noteq> WDone"
  by (simp add: cb_inv_def)

lemma cb_inv_set_changed: "set_changed_step k s t \<Longrightarrow> cb_inv s \<Longrightarrow> cb_inv t"
proof (induction rule: set_changed_step.induct)
  case (swap_first s k)
  then have idle: "kpc s j = KIdle" for j by (simp add: cb_inv_blocked)
  show ?case
    by (rule cb_invI_changed [where k = k]) (simp_all add: idle split: if_splits)
next
  case (swap_again s k)
  from cb_invE_changed [OF swap_again.prems swap_again.hyps(2)] obtain k0
    where k0: "saw_blocked (kpc s k0)" "\<And>j. j \<noteq> k0 \<Longrightarrow> \<not> saw_blocked (kpc s j)"
      "wpc s = WPark \<Longrightarrow> \<not> token s \<Longrightarrow> kpc s k0 = KUnpark" by blast
  have "k0 \<noteq> k" using k0(1) swap_again.hyps(1) by auto
  then show ?case
    by (intro cb_invI_changed [where k = k0]) (use k0 in \<open>auto split: if_splits\<close>)
next
  case (unpark s k)
  have nb: "\<not> blocked (block s)"
    using unpark by (metis cb_inv_blocked waker_pc.distinct(1))
  from cb_invE_changed [OF unpark.prems nb] obtain k0
    where k0: "\<And>j. j \<noteq> k0 \<Longrightarrow> \<not> saw_blocked (kpc s j)" by blast
  have "k = k0" using k0 [of k] unpark.hyps by auto
  then show ?case
    by (intro cb_invI_changed [where k = k]) (use k0 nb in \<open>auto split: if_splits\<close>)
qed

lemma cb_inv_local:
  assumes "cb_inv s" and "block t = block s" and "kpc t = kpc s"
    and "wpc t = WDone \<Longrightarrow> \<not> blocked (block s)"
    and "\<not> blocked (block s) \<Longrightarrow> wpc t = WPark \<Longrightarrow> \<not> token t \<Longrightarrow> wpc s = WPark \<and> \<not> token s"
  shows "cb_inv t"
proof (cases "blocked (block s)")
  case True
  with assms show ?thesis by (auto simp: cb_inv_blocked)
next
  case False
  from cb_invE_changed [OF assms(1) this] obtain k
    where k: "saw_blocked (kpc s k)" "\<And>j. j \<noteq> k \<Longrightarrow> \<not> saw_blocked (kpc s j)"
      "wpc s = WPark \<Longrightarrow> \<not> token s \<Longrightarrow> kpc s k = KUnpark" by blast
  show ?thesis
    by (rule cb_invI_changed [where k = k]) (use k assms(2,3,5) False in auto)
qed

lemma cb_inv_wait: "wait_step s t \<Longrightarrow> cb_inv s \<Longrightarrow> cb_inv t"
proof (induction rule: wait_step.induct)
  case (load_blocked s)
  then show ?case by (simp add: cb_inv_blocked)
next
  case (load_changed s)
  then show ?case by - (rule cb_inv_local, simp_all)
next
  case (park_token s)
  then show ?case by - (rule cb_inv_local, auto simp: cb_inv_blocked)
qed

lemma cb_inv_step: "cb_step s t \<Longrightarrow> cb_inv s \<Longrightarrow> cb_inv t"
proof (induction rule: cb_step.induct)
  case (spurious s)
  then show ?case by - (rule cb_inv_local, simp_all)
next
  case (other_unpark s)
  then show ?case
    by - (rule cb_inv_local, auto simp: cb_inv_blocked)
qed (auto intro: cb_inv_wait cb_inv_set_changed)

lemma cb_reachable_inv: "cb_reachable s \<Longrightarrow> cb_inv s"
  by (induction rule: cb_reachable.induct) (auto intro: cb_inv_init cb_inv_step)

subsection \<open>Properties of the protocol\<close>

lemma cb_reachable_changed:
  assumes "cb_reachable s" and "kpc s k \<noteq> KIdle"
  shows "\<not> blocked (block s)"
  using cb_reachable_inv [OF assms(1)] assms(2) by (auto simp: cb_inv_blocked)

text \<open>A run used by the witnesses: the waiter parks, a waker swaps the flag and unparks it.\<close>

definition cb_parked :: cb_sys where
  "cb_parked = (cb_init 7 False)\<lparr>wpc := WPark\<rparr>"

definition cb_swapped :: cb_sys where
  "cb_swapped = cb_parked
     \<lparr>block := (block cb_parked)\<lparr>blocked := False\<rparr>, kpc := (kpc cb_parked)(3 := KUnpark)\<rparr>"

definition cb_woken :: cb_sys where
  "cb_woken = cb_swapped\<lparr>token := True, kpc := (kpc cb_swapped)(3 := KWoke)\<rparr>"

definition cb_returned :: cb_sys where
  "cb_returned = cb_woken\<lparr>token := False, wpc := WLoad\<rparr>\<lparr>wpc := WDone\<rparr>"

lemmas cb_run_defs = cb_parked_def cb_swapped_def cb_woken_def cb_returned_def cb_init_def
  ControlBlock_new_def

lemma cb_parked_reachable: "cb_reachable cb_parked"
  unfolding cb_parked_def
  by (rule cb_next [OF cb_start], rule waiter, rule load_blocked) (simp_all add: cb_run_defs)

lemma cb_swapped_reachable: "cb_reachable cb_swapped"
  unfolding cb_swapped_def
  by (rule cb_next [OF cb_parked_reachable], rule waker, rule swap_first)
    (simp_all add: cb_run_defs)

lemma cb_woken_reachable: "cb_reachable cb_woken"
  unfolding cb_woken_def
  by (rule cb_next [OF cb_swapped_reachable], rule waker, rule unpark)
    (simp_all add: cb_run_defs)

lemma cb_returned_reachable: "cb_reachable cb_returned"
proof -
  have "cb_reachable (cb_woken\<lparr>token := False, wpc := WLoad\<rparr>)"
    by (rule cb_next [OF cb_woken_reachable], rule waiter, rule park_token)
      (simp_all add: cb_run_defs)
  then show ?thesis
    unfolding cb_returned_def
    by (rule cb_next, intro waiter load_changed) (simp_all add: cb_run_defs)
qed

text \<open>
  \<^verbatim>\<open>wait\<close> returns only after a change: in every interleaving of one waiter with any number of
  callers of \<^verbatim>\<open>set_changed\<close>, stale tokens and spurious wake-ups included, the waiter has left its
  loop only if some caller has already cleared the flag.
\<close>

theorem wait_returns_only_after_set_changed:
  assumes "cb_reachable s" and "wpc s = WDone"
  shows "\<exists>k. kpc s k \<noteq> KIdle"
proof -
  from cb_reachable_inv [OF assms(1)] assms(2) have "\<not> blocked (block s)"
    by (auto simp: cb_inv_blocked)
  with cb_reachable_inv [OF assms(1)] show ?thesis
    by (metis cb_invE_changed saw_blocked_simps(1))
qed

theorem wait_returns_only_after_set_changed_witness:
  "\<exists>k. kpc cb_returned k \<noteq> KIdle"
  by (rule wait_returns_only_after_set_changed [OF cb_returned_reachable])
    (simp add: cb_run_defs)

text \<open>
  A control block wakes its thread once: however many threads call \<^verbatim>\<open>set_changed\<close>, at most one
  of them sees the flag set and unparks, and as soon as one caller is past its swap there is
  exactly one.
\<close>

theorem set_changed_unparks_once:
  assumes "cb_reachable s" and "kpc s k \<noteq> KIdle"
  shows "\<exists>!j. kpc s j = KUnpark \<or> kpc s j = KWoke"
proof -
  from cb_invE_changed [OF cb_reachable_inv [OF assms(1)] cb_reachable_changed [OF assms]]
  show ?thesis unfolding saw_blocked_def by metis
qed

theorem set_changed_unparks_once_witness:
  "\<exists>!j. kpc cb_woken j = KUnpark \<or> kpc cb_woken j = KWoke"
  by (rule set_changed_unparks_once [OF cb_woken_reachable, of 3]) (simp add: cb_run_defs)

text \<open>
  What is left to happen once the flag is cleared: the pending unpark, then at most two steps of
  the waiter.
\<close>

inductive wakeup_step :: "cb_sys \<Rightarrow> cb_sys \<Rightarrow> bool" where
  by_waiter: "wait_step s t \<Longrightarrow> wakeup_step s t"
| by_unpark: "set_changed_step k s t \<Longrightarrow> kpc s k = KUnpark \<Longrightarrow> wakeup_step s t"

fun waiter_rank :: "waiter_pc \<Rightarrow> nat" where
  "waiter_rank WPark = 2"
| "waiter_rank WLoad = 1"
| "waiter_rank WDone = 0"

definition wakeup_measure :: "cb_sys \<Rightarrow> nat" where
  "wakeup_measure s = waiter_rank (wpc s) + (if \<exists>k. kpc s k = KUnpark then 1 else 0)"

lemma wakeup_enabled:
  assumes "cb_inv s" and "\<not> blocked (block s)" and "wpc s \<noteq> WDone"
  shows "\<exists>t. wakeup_step s t"
proof (cases "wpc s")
  case WLoad
  with assms(2) show ?thesis by (blast intro: by_waiter load_changed)
next
  case WPark
  show ?thesis
  proof (cases "token s")
    case True
    with WPark show ?thesis by (blast intro: by_waiter park_token)
  next
    case False
    with cb_invE_changed [OF assms(1,2)] WPark obtain k where "kpc s k = KUnpark" by metis
    then show ?thesis by (blast intro: by_unpark unpark)
  qed
qed (use assms(3) in simp)

lemma wakeup_decreases:
  assumes "wakeup_step s t" and "cb_inv s" and "\<not> blocked (block s)"
  shows "wakeup_measure t < wakeup_measure s"
  using assms(1)
proof cases
  case by_waiter
  then show ?thesis using assms(3) by cases (auto simp: wakeup_measure_def)
next
  case (by_unpark k)
  from cb_invE_changed [OF assms(2,3)] obtain k0
    where k0: "\<And>j. j \<noteq> k0 \<Longrightarrow> \<not> saw_blocked (kpc s j)" by blast
  have "\<not> (\<exists>j. kpc t j = KUnpark)"
    using by_unpark(1)
  proof cases
    case unpark
    have "j = k" if "kpc s j = KUnpark" for j
      using k0 [of j] k0 [of k] that by_unpark(2) by auto
    with unpark(1) show ?thesis by auto
  qed (use by_unpark(2) in simp_all)
  moreover have "wpc t = wpc s"
    using by_unpark(1) by cases auto
  ultimately show ?thesis using by_unpark(2) by (auto simp: wakeup_measure_def)
qed

text \<open>
  C23. No wake-up is lost inside a control block: once one caller of \<^verbatim>\<open>set_changed\<close> is past its swap,
  the waiter has returned or the next step towards its return is enabled, and every such step
  decreases a measure that is at most three, so the waiter returns whatever it was doing and
  whatever token it held when the flag was cleared.
\<close>

theorem set_changed_wakes_waiter:
  assumes "cb_reachable s" and "kpc s k \<noteq> KIdle"
  shows "(wpc s = WDone \<or> (\<exists>t. wakeup_step s t)) \<and>
    (\<forall>t. wakeup_step s t \<longrightarrow> wakeup_measure t < wakeup_measure s) \<and> wakeup_measure s \<le> 3"
proof -
  note inv = cb_reachable_inv [OF assms(1)] and changed = cb_reachable_changed [OF assms]
  have "wakeup_measure s \<le> 3" by (cases "wpc s") (simp_all add: wakeup_measure_def)
  with wakeup_enabled [OF inv changed] wakeup_decreases [OF _ inv changed] show ?thesis by blast
qed

theorem set_changed_wakes_waiter_witness:
  "(\<exists>t. wakeup_step cb_swapped t) \<and> wakeup_measure cb_swapped \<le> 3"
  using set_changed_wakes_waiter [OF cb_swapped_reachable, of 3] by (simp add: cb_run_defs)

end
