(* ===== verification/Var_Block.thy ===== *)
theory Var_Block
  imports Log_Var Control_Block
begin

text \<open>
  \<^verbatim>\<open>VarControlBlock\<close> of \<^verbatim>\<open>tvar.rs\<close> and the memory all threads share: the arena of value boxes, the
  control blocks of the variables by address, and the control blocks of waiting transactions
  with their strong counts, the \<^verbatim>\<open>park\<close> tokens and the thread-local \<^verbatim>\<open>TRANSACTION_RUNNING\<close> flags.
  The operations here are atomic. In the source most are one critical section of a mutex or one
  atomic access; \<open>set_changed\<close>, \<open>wake_one\<close>, \<open>VarControlBlock_wake_all\<close> and \<open>VarControlBlock_set_dead\<close>
  are sequences of these, for threads that are alone, which the concurrent model takes apart.
\<close>

type_synonym cb_ref = nat

record VarControlBlock =
  waiting_threads :: "cb_ref list"
  dead_threads :: usize
  var_value :: arc

record world =
  heap :: arena
  vcbs :: "vcb_ref \<Rightarrow> VarControlBlock"
  vcb_live :: "vcb_ref list"
  cbs :: "cb_ref \<Rightarrow> ControlBlock"
  cb_strong :: "cb_ref \<Rightarrow> nat"
  next_cb :: cb_ref
  tokens :: "tid \<Rightarrow> bool"
  running :: "tid \<Rightarrow> bool"

definition empty_world :: world where
  "empty_world =
     \<lparr>heap = empty_arena,
      vcbs = (\<lambda>_. \<lparr>waiting_threads = [], dead_threads = 0, var_value = 0\<rparr>),
      vcb_live = [], cbs = (\<lambda>_. ControlBlock_new 0), cb_strong = (\<lambda>_. 0), next_cb = 0,
      tokens = (\<lambda>_. False), running = (\<lambda>_. False)\<rparr>"

definition update_vcb :: "vcb_ref \<Rightarrow> (VarControlBlock \<Rightarrow> VarControlBlock) \<Rightarrow> world \<Rightarrow> world" where
  "update_vcb x f w = w\<lparr>vcbs := (vcbs w)(x := f (vcbs w x))\<rparr>"

abbreviation value_arc :: "world \<Rightarrow> vcb_ref \<Rightarrow> arc" where
  "value_arc w x \<equiv> var_value (vcbs w x)"

abbreviation waiters :: "world \<Rightarrow> vcb_ref \<Rightarrow> cb_ref list" where
  "waiters w x \<equiv> waiting_threads (vcbs w x)"

text \<open>\<^verbatim>\<open>Arc::new\<close> of a value, in the shared arena.\<close>

definition alloc_arc :: "val \<Rightarrow> world \<Rightarrow> arc \<times> world" where
  "alloc_arc v w = (let (a, h) = Arc_new v (heap w) in (a, w\<lparr>heap := h\<rparr>))"

lemma alloc_arc_simps [simp]:
  "fst (alloc_arc v w) = next_arc (heap w)"
  "heap (snd (alloc_arc v w)) = snd (Arc_new v (heap w))"
  "vcbs (snd (alloc_arc v w)) = vcbs w"
  "vcb_live (snd (alloc_arc v w)) = vcb_live w"
  "cbs (snd (alloc_arc v w)) = cbs w"
  "cb_strong (snd (alloc_arc v w)) = cb_strong w"
  "next_cb (snd (alloc_arc v w)) = next_cb w"
  "tokens (snd (alloc_arc v w)) = tokens w"
  "running (snd (alloc_arc v w)) = running w"
  by (simp_all add: alloc_arc_def split: prod.split) (auto simp: Arc_new_def)

subsection \<open>Control blocks of waiting transactions\<close>

text \<open>\<^verbatim>\<open>Arc::new(ControlBlock::new())\<close> by the thread \<open>t\<close>, and the end of that \<^verbatim>\<open>Arc\<close>'s scope.\<close>

definition cb_alloc :: "tid \<Rightarrow> world \<Rightarrow> cb_ref \<times> world" where
  "cb_alloc t w =
     (next_cb w,
      w\<lparr>cbs := (cbs w)(next_cb w := ControlBlock_new t),
        cb_strong := (cb_strong w)(next_cb w := 1),
        next_cb := Suc (next_cb w)\<rparr>)"

definition cb_drop :: "cb_ref \<Rightarrow> world \<Rightarrow> world" where
  "cb_drop c w = w\<lparr>cb_strong := (cb_strong w)(c := cb_strong w c - 1)\<rparr>"

text \<open>\<^verbatim>\<open>Weak::upgrade\<close> succeeds while a strong reference exists, and then makes another one.\<close>

definition cb_alive :: "world \<Rightarrow> cb_ref \<Rightarrow> bool" where
  "cb_alive w c \<longleftrightarrow> 0 < cb_strong w c"

definition cb_hold :: "cb_ref \<Rightarrow> world \<Rightarrow> world" where
  "cb_hold c w = w\<lparr>cb_strong := (cb_strong w)(c := Suc (cb_strong w c))\<rparr>"

text \<open>The two steps of \<^verbatim>\<open>set_changed\<close>, and the return from \<^verbatim>\<open>park\<close> with the token of thread \<open>t\<close>.\<close>

definition cb_swap :: "cb_ref \<Rightarrow> world \<Rightarrow> bool \<times> world" where
  "cb_swap c w = (blocked (cbs w c), w\<lparr>cbs := (cbs w)(c := (cbs w c)\<lparr>blocked := False\<rparr>)\<rparr>)"

definition cb_unpark :: "cb_ref \<Rightarrow> world \<Rightarrow> world" where
  "cb_unpark c w = w\<lparr>tokens := (tokens w)(thread (cbs w c) := True)\<rparr>"

definition cb_park :: "tid \<Rightarrow> world \<Rightarrow> world" where
  "cb_park t w = w\<lparr>tokens := (tokens w)(t := False)\<rparr>"

definition set_changed :: "cb_ref \<Rightarrow> world \<Rightarrow> world" where
  "set_changed c w =
     (let (b, ts) = ControlBlock_set_changed (cbs w c) (tokens w)
      in w\<lparr>cbs := (cbs w)(c := b), tokens := ts\<rparr>)"

subsection \<open>The operations of a variable's control block\<close>

text \<open>
  \<^verbatim>\<open>VarControlBlock::new\<close>. The address is the allocator's choice; that it is not the address of
  another live block is the allocator's contract.
\<close>

definition VarControlBlock_new :: "vcb_ref \<Rightarrow> val \<Rightarrow> world \<Rightarrow> vcb_ref \<times> world" where
  "VarControlBlock_new addr v w =
     (let (a, w1) = alloc_arc v w
      in (addr, w1\<lparr>vcbs := (vcbs w1)(addr :=
                    \<lparr>waiting_threads = [], dead_threads = 0, var_value = a\<rparr>),
                  vcb_live := addr # vcb_live w1\<rparr>))"

definition wake_one :: "cb_ref \<Rightarrow> world \<Rightarrow> world" where
  "wake_one c w = (if cb_alive w c then set_changed c w else w)"

definition VarControlBlock_wake_all :: "vcb_ref \<Rightarrow> world \<Rightarrow> world" where
  "VarControlBlock_wake_all self w =
     (let threads = waiters w self;
          w1 = update_vcb self (\<lambda>v. v\<lparr>waiting_threads := []\<rparr>) w
      in fold wake_one threads w1)"

definition VarControlBlock_wait :: "vcb_ref \<Rightarrow> cb_ref \<Rightarrow> world \<Rightarrow> world" where
  "VarControlBlock_wait self c w =
     update_vcb self (\<lambda>v. v\<lparr>waiting_threads := waiting_threads v @ [c]\<rparr>) w"

text \<open>
  \<^verbatim>\<open>set_dead\<close> increments the atomic counter, and then, in a critical section of its own, cleans up.
\<close>

definition set_dead_count :: "vcb_ref \<Rightarrow> world \<Rightarrow> usize \<times> world" where
  "set_dead_count self w =
     (dead_threads (vcbs w self), update_vcb self (\<lambda>v. v\<lparr>dead_threads := dead_threads v + 1\<rparr>) w)"

definition set_dead_cleanup :: "vcb_ref \<Rightarrow> world \<Rightarrow> world" where
  "set_dead_cleanup self w =
     update_vcb self (\<lambda>v. v\<lparr>dead_threads := 0,
                            waiting_threads := filter (cb_alive w) (waiting_threads v)\<rparr>) w"

definition VarControlBlock_set_dead :: "vcb_ref \<Rightarrow> world \<Rightarrow> world" where
  "VarControlBlock_set_dead self w =
     (let (deads, w1) = set_dead_count self w
      in if 64 \<le> deads then set_dead_cleanup self w1 else w1)"

subsection \<open>What the operations change\<close>

lemma cb_step_simps [simp]:
  "heap (cb_hold c w) = heap w" "vcbs (cb_hold c w) = vcbs w" "vcb_live (cb_hold c w) = vcb_live w"
  "cbs (cb_hold c w) = cbs w" "next_cb (cb_hold c w) = next_cb w" "tokens (cb_hold c w) = tokens w"
  "running (cb_hold c w) = running w"
  "cb_strong (cb_hold c w) = (cb_strong w)(c := Suc (cb_strong w c))"
  "heap (cb_unpark c w) = heap w" "vcbs (cb_unpark c w) = vcbs w"
  "vcb_live (cb_unpark c w) = vcb_live w" "cbs (cb_unpark c w) = cbs w"
  "next_cb (cb_unpark c w) = next_cb w" "cb_strong (cb_unpark c w) = cb_strong w"
  "running (cb_unpark c w) = running w"
  "tokens (cb_unpark c w) = (tokens w)(thread (cbs w c) := True)"
  "heap (cb_park t w) = heap w" "vcbs (cb_park t w) = vcbs w" "vcb_live (cb_park t w) = vcb_live w"
  "cbs (cb_park t w) = cbs w" "next_cb (cb_park t w) = next_cb w"
  "cb_strong (cb_park t w) = cb_strong w" "running (cb_park t w) = running w"
  "tokens (cb_park t w) = (tokens w)(t := False)"
  by (simp_all add: cb_hold_def cb_unpark_def cb_park_def)

lemma cb_swap_simps [simp]:
  "fst (cb_swap c w) = blocked (cbs w c)"
  "heap (snd (cb_swap c w)) = heap w" "vcbs (snd (cb_swap c w)) = vcbs w"
  "vcb_live (snd (cb_swap c w)) = vcb_live w"
  "cbs (snd (cb_swap c w)) = (cbs w)(c := (cbs w c)\<lparr>blocked := False\<rparr>)"
  "next_cb (snd (cb_swap c w)) = next_cb w" "cb_strong (snd (cb_swap c w)) = cb_strong w"
  "tokens (snd (cb_swap c w)) = tokens w" "running (snd (cb_swap c w)) = running w"
  by (simp_all add: cb_swap_def)

lemma cb_alive_steps [simp]:
  "cb_alive (cb_hold c w) d \<longleftrightarrow> d = c \<or> cb_alive w d"
  "cb_alive (snd (cb_swap c w)) = cb_alive w"
  "cb_alive (cb_unpark c w) = cb_alive w"
  "cb_alive (cb_park t w) = cb_alive w"
  by (auto simp: cb_alive_def fun_eq_iff)

lemma update_vcb_simps [simp]:
  "heap (update_vcb x f w) = heap w"
  "vcbs (update_vcb x f w) y = (if y = x then f (vcbs w x) else vcbs w y)"
  "vcb_live (update_vcb x f w) = vcb_live w"
  "cbs (update_vcb x f w) = cbs w"
  "cb_strong (update_vcb x f w) = cb_strong w"
  "next_cb (update_vcb x f w) = next_cb w"
  "tokens (update_vcb x f w) = tokens w"
  "running (update_vcb x f w) = running w"
  by (simp_all add: update_vcb_def)

lemma cb_alive_update_vcb [simp]: "cb_alive (update_vcb x f w) = cb_alive w"
  by (simp add: cb_alive_def fun_eq_iff)

lemma set_changed_simps [simp]:
  "heap (set_changed c w) = heap w"
  "vcbs (set_changed c w) = vcbs w"
  "vcb_live (set_changed c w) = vcb_live w"
  "cbs (set_changed c w) d = (if d = c then (cbs w c)\<lparr>blocked := False\<rparr> else cbs w d)"
  "cb_strong (set_changed c w) = cb_strong w"
  "next_cb (set_changed c w) = next_cb w"
  "tokens (set_changed c w) t \<longleftrightarrow> tokens w t \<or> (blocked (cbs w c) \<and> thread (cbs w c) = t)"
  "running (set_changed c w) = running w"
  by (auto simp: set_changed_def ControlBlock_set_changed_def)

text \<open>The whole turn of the loop in \<^verbatim>\<open>wake_all\<close> for a live control block: upgrade, notify, drop.\<close>

lemma wake_one_steps:
  "cb_alive w c \<Longrightarrow> wake_one c w = cb_drop c
    (if blocked (cbs w c) then cb_unpark c (snd (cb_swap c (cb_hold c w)))
     else snd (cb_swap c (cb_hold c w)))"
  by (simp add: wake_one_def set_changed_def ControlBlock_set_changed_def cb_swap_def cb_unpark_def
      cb_hold_def cb_drop_def)

lemma wake_one_simps [simp]:
  "heap (wake_one c w) = heap w"
  "vcbs (wake_one c w) = vcbs w"
  "vcb_live (wake_one c w) = vcb_live w"
  "cb_strong (wake_one c w) = cb_strong w"
  "next_cb (wake_one c w) = next_cb w"
  "running (wake_one c w) = running w"
  "cb_alive (wake_one c w) = cb_alive w"
  by (auto simp: wake_one_def cb_alive_def fun_eq_iff)

lemma fold_wake_one_simps [simp]:
  "heap (fold wake_one cs w) = heap w"
  "vcbs (fold wake_one cs w) = vcbs w"
  "vcb_live (fold wake_one cs w) = vcb_live w"
  "cb_strong (fold wake_one cs w) = cb_strong w"
  "next_cb (fold wake_one cs w) = next_cb w"
  "running (fold wake_one cs w) = running w"
  "cb_alive (fold wake_one cs w) = cb_alive w"
  by (induction cs arbitrary: w) simp_all

lemma cbs_wake_one:
  "cbs (wake_one c w) d = (if d = c \<and> cb_alive w d then (cbs w d)\<lparr>blocked := False\<rparr> else cbs w d)"
  by (cases "d = c"; cases "cb_alive w c") (simp_all add: wake_one_def)

lemma blocked_wake_one [simp]:
  "blocked (cbs (wake_one c w) d) \<longleftrightarrow> blocked (cbs w d) \<and> \<not> (d = c \<and> cb_alive w d)"
  "thread (cbs (wake_one c w) d) = thread (cbs w d)"
  by (cases "d = c"; simp add: cbs_wake_one)+

lemma tokens_wake_one:
  "tokens (wake_one c w) t \<longleftrightarrow>
    tokens w t \<or> (cb_alive w c \<and> blocked (cbs w c) \<and> thread (cbs w c) = t)"
  by (simp add: wake_one_def)

lemma fold_wake_one_cbs:
  "cbs (fold wake_one cs w) d =
    (if d \<in> set cs \<and> cb_alive w d then (cbs w d)\<lparr>blocked := False\<rparr> else cbs w d)"
proof (induction cs arbitrary: w)
  case (Cons c cs)
  show ?case using Cons.IH [of "wake_one c w"] by (cases "d = c") (simp_all add: cbs_wake_one)
qed simp

lemma fold_wake_one_tokens:
  "tokens (fold wake_one cs w) t \<longleftrightarrow>
    tokens w t \<or>
    (\<exists>c \<in> set cs. cb_alive w c \<and> blocked (cbs w c) \<and> thread (cbs w c) = t)"
proof (induction cs arbitrary: w)
  case (Cons c cs)
  have "tokens (fold wake_one (c # cs) w) t \<longleftrightarrow>
      (tokens w t \<or> (cb_alive w c \<and> blocked (cbs w c) \<and> thread (cbs w c) = t)) \<or>
      (\<exists>d \<in> set cs. cb_alive w d \<and> (blocked (cbs w d) \<and> \<not> (d = c \<and> cb_alive w d)) \<and>
         thread (cbs w d) = t)"
    using Cons.IH [of "wake_one c w"] by (simp only: fold_Cons o_apply tokens_wake_one
      blocked_wake_one wake_one_simps)
  then show ?case by (simp only: list.set bex_simps) blast
qed simp

lemma wake_all_simps [simp]:
  "heap (VarControlBlock_wake_all x w) = heap w"
  "vcb_live (VarControlBlock_wake_all x w) = vcb_live w"
  "cb_strong (VarControlBlock_wake_all x w) = cb_strong w"
  "next_cb (VarControlBlock_wake_all x w) = next_cb w"
  "running (VarControlBlock_wake_all x w) = running w"
  "value_arc (VarControlBlock_wake_all x w) y = value_arc w y"
  "dead_threads (vcbs (VarControlBlock_wake_all x w) y) = dead_threads (vcbs w y)"
  "cb_alive (VarControlBlock_wake_all x w) = cb_alive w"
  by (simp_all add: VarControlBlock_wake_all_def)

lemma waiters_wake_all [simp]:
  "waiters (VarControlBlock_wake_all x w) y = (if y = x then [] else waiters w y)"
  by (simp add: VarControlBlock_wake_all_def)

lemma cbs_wake_all:
  "cbs (VarControlBlock_wake_all x w) c =
    (if c \<in> set (waiters w x) \<and> cb_alive w c then (cbs w c)\<lparr>blocked := False\<rparr> else cbs w c)"
  by (simp add: VarControlBlock_wake_all_def fold_wake_one_cbs)

lemma tokens_wake_all:
  "tokens (VarControlBlock_wake_all x w) t \<longleftrightarrow>
    tokens w t \<or>
    (\<exists>c \<in> set (waiters w x). cb_alive w c \<and> blocked (cbs w c) \<and> thread (cbs w c) = t)"
  by (simp add: VarControlBlock_wake_all_def fold_wake_one_tokens)

lemma VarControlBlock_wait_simps [simp]:
  "heap (VarControlBlock_wait x c w) = heap w"
  "vcb_live (VarControlBlock_wait x c w) = vcb_live w"
  "cbs (VarControlBlock_wait x c w) = cbs w"
  "cb_strong (VarControlBlock_wait x c w) = cb_strong w"
  "next_cb (VarControlBlock_wait x c w) = next_cb w"
  "tokens (VarControlBlock_wait x c w) = tokens w"
  "running (VarControlBlock_wait x c w) = running w"
  "value_arc (VarControlBlock_wait x c w) y = value_arc w y"
  "waiters (VarControlBlock_wait x c w) y = (if y = x then waiters w x @ [c] else waiters w y)"
  "dead_threads (vcbs (VarControlBlock_wait x c w) y) = dead_threads (vcbs w y)"
  "cb_alive (VarControlBlock_wait x c w) = cb_alive w"
  by (simp_all add: VarControlBlock_wait_def)

lemma set_dead_count_simps [simp]:
  "fst (set_dead_count x w) = dead_threads (vcbs w x)"
  "heap (snd (set_dead_count x w)) = heap w"
  "vcb_live (snd (set_dead_count x w)) = vcb_live w"
  "cbs (snd (set_dead_count x w)) = cbs w"
  "cb_strong (snd (set_dead_count x w)) = cb_strong w"
  "next_cb (snd (set_dead_count x w)) = next_cb w"
  "tokens (snd (set_dead_count x w)) = tokens w"
  "running (snd (set_dead_count x w)) = running w"
  "value_arc (snd (set_dead_count x w)) y = value_arc w y"
  "waiters (snd (set_dead_count x w)) y = waiters w y"
  "dead_threads (vcbs (snd (set_dead_count x w)) y) =
     (if y = x then dead_threads (vcbs w x) + 1 else dead_threads (vcbs w y))"
  "cb_alive (snd (set_dead_count x w)) = cb_alive w"
  by (simp_all add: set_dead_count_def)

lemma set_dead_cleanup_simps [simp]:
  "heap (set_dead_cleanup x w) = heap w"
  "vcb_live (set_dead_cleanup x w) = vcb_live w"
  "cbs (set_dead_cleanup x w) = cbs w"
  "cb_strong (set_dead_cleanup x w) = cb_strong w"
  "next_cb (set_dead_cleanup x w) = next_cb w"
  "tokens (set_dead_cleanup x w) = tokens w"
  "running (set_dead_cleanup x w) = running w"
  "value_arc (set_dead_cleanup x w) y = value_arc w y"
  "waiters (set_dead_cleanup x w) y =
     (if y = x then filter (cb_alive w) (waiters w x) else waiters w y)"
  "dead_threads (vcbs (set_dead_cleanup x w) y) = (if y = x then 0 else dead_threads (vcbs w y))"
  "cb_alive (set_dead_cleanup x w) = cb_alive w"
  by (simp_all add: set_dead_cleanup_def)

lemma set_dead_eq:
  "VarControlBlock_set_dead x w =
    (if 64 \<le> dead_threads (vcbs w x) then set_dead_cleanup x (snd (set_dead_count x w))
     else snd (set_dead_count x w))"
  by (simp add: VarControlBlock_set_dead_def split_def Let_def)

lemma set_dead_simps [simp]:
  "heap (VarControlBlock_set_dead x w) = heap w"
  "vcb_live (VarControlBlock_set_dead x w) = vcb_live w"
  "cbs (VarControlBlock_set_dead x w) = cbs w"
  "cb_strong (VarControlBlock_set_dead x w) = cb_strong w"
  "next_cb (VarControlBlock_set_dead x w) = next_cb w"
  "tokens (VarControlBlock_set_dead x w) = tokens w"
  "running (VarControlBlock_set_dead x w) = running w"
  "value_arc (VarControlBlock_set_dead x w) y = value_arc w y"
  "cb_alive (VarControlBlock_set_dead x w) = cb_alive w"
  by (simp_all add: set_dead_eq)

lemma waiters_set_dead:
  "waiters (VarControlBlock_set_dead x w) y =
    (if y = x \<and> 64 \<le> dead_threads (vcbs w x) then filter (cb_alive w) (waiters w x)
     else waiters w y)"
  by (simp add: set_dead_eq)

lemma dead_threads_set_dead:
  "dead_threads (vcbs (VarControlBlock_set_dead x w) y) =
    (if y = x then (if 64 \<le> dead_threads (vcbs w x) then 0 else dead_threads (vcbs w x) + 1)
     else dead_threads (vcbs w y))"
  by (simp add: set_dead_eq)

lemma cb_alloc_simps [simp]:
  "fst (cb_alloc t w) = next_cb w"
  "heap (snd (cb_alloc t w)) = heap w"
  "vcbs (snd (cb_alloc t w)) = vcbs w"
  "vcb_live (snd (cb_alloc t w)) = vcb_live w"
  "cbs (snd (cb_alloc t w)) = (cbs w)(next_cb w := ControlBlock_new t)"
  "cb_strong (snd (cb_alloc t w)) = (cb_strong w)(next_cb w := 1)"
  "next_cb (snd (cb_alloc t w)) = Suc (next_cb w)"
  "tokens (snd (cb_alloc t w)) = tokens w"
  "running (snd (cb_alloc t w)) = running w"
  by (simp_all add: cb_alloc_def)

lemma cb_drop_simps [simp]:
  "heap (cb_drop c w) = heap w"
  "vcbs (cb_drop c w) = vcbs w"
  "vcb_live (cb_drop c w) = vcb_live w"
  "cbs (cb_drop c w) = cbs w"
  "cb_strong (cb_drop c w) = (cb_strong w)(c := cb_strong w c - 1)"
  "next_cb (cb_drop c w) = next_cb w"
  "tokens (cb_drop c w) = tokens w"
  "running (cb_drop c w) = running w"
  by (simp_all add: cb_drop_def)

text \<open>
  C30. \<^verbatim>\<open>wake_all\<close> empties the waiting list of its variable, clears the flag of exactly those
  registered control blocks whose transaction is still there, makes the \<^verbatim>\<open>park\<close> token available to
  exactly the threads of those that were still blocked, and leaves every value, every other
  waiting list and every dead counter as it was.
\<close>

theorem wake_all_wakes_exactly_the_waiters:
  defines "woken w x \<equiv> {c \<in> set (waiters w x). cb_alive w c}"
  shows "(\<forall>c. blocked (cbs (VarControlBlock_wake_all x w) c) \<longleftrightarrow>
       blocked (cbs w c) \<and> c \<notin> woken w x) \<and>
    (\<forall>t. tokens (VarControlBlock_wake_all x w) t \<longleftrightarrow>
       tokens w t \<or> t \<in> thread ` cbs w ` {c \<in> woken w x. blocked (cbs w c)}) \<and>
    (\<forall>y. value_arc (VarControlBlock_wake_all x w) y = value_arc w y \<and>
       dead_threads (vcbs (VarControlBlock_wake_all x w) y) = dead_threads (vcbs w y) \<and>
       waiters (VarControlBlock_wake_all x w) y = (if y = x then [] else waiters w y))"
  unfolding woken_def
  by (intro conjI allI) (auto simp: cbs_wake_all tokens_wake_all split: if_splits)

end
