(* ===== verification/TVar.thy ===== *)
theory TVar
  imports Var_Block
begin

text \<open>
  The non-transactional half of \<^verbatim>\<open>TVar<T>\<close> in \<^verbatim>\<open>tvar.rs\<close>. A handle is the shared pointer to the control
  block and the type marker; the marker is the Rust type \<open>T\<close>, which a downcast consults.
  Cloning a handle copies both fields.
\<close>

record TVar =
  control_block :: vcb_ref
  marker :: tyid

definition TVar_new :: "vcb_ref \<Rightarrow> val \<Rightarrow> world \<Rightarrow> TVar \<times> world" where
  "TVar_new addr v w =
     (let (c, w') = VarControlBlock_new addr v w
      in (\<lparr>control_block = c, marker = type_id v\<rparr>, w'))"

definition read_ref_atomic :: "TVar \<Rightarrow> world \<Rightarrow> arc" where
  "read_ref_atomic self w = value_arc w (control_block self)"

definition read_atomic :: "TVar \<Rightarrow> world \<Rightarrow> val may_panic" where
  "read_atomic self w =
     (let v = read_ref_atomic self w
      in case downcast_ref (marker self) (deref (heap w) v) of
           Some x \<Rightarrow> Return x
         | None \<Rightarrow> Panic ''wrong type in Var<T>'')"

definition write_atomic :: "TVar \<Rightarrow> val \<Rightarrow> world \<Rightarrow> world" where
  "write_atomic self v w =
     (let (boxed, w1) = alloc_arc v w
      in update_vcb (control_block self) (\<lambda>b. b\<lparr>var_value := boxed\<rparr>) w1)"

definition ref_eq :: "TVar \<Rightarrow> TVar \<Rightarrow> bool" where
  "ref_eq this other \<longleftrightarrow> control_block this = control_block other"

subsection \<open>Typed worlds\<close>

text \<open>
  The invariant that makes downcasts succeed: every live variable holds an allocated box whose
  contents have the type the variable was created with (\<open>\<Gamma>\<close>), and a handle is typed when its
  marker is that type.
\<close>

type_synonym tyenv = "vcb_ref \<Rightarrow> tyid"

definition arc_typed :: "world \<Rightarrow> tyid \<Rightarrow> arc \<Rightarrow> bool" where
  "arc_typed w T a \<longleftrightarrow> allocated (heap w) a \<and> type_id (deref (heap w) a) = T"

definition world_ok :: "tyenv \<Rightarrow> world \<Rightarrow> bool" where
  "world_ok \<Gamma> w \<longleftrightarrow> (\<forall>x \<in> set (vcb_live w). arc_typed w (\<Gamma> x) (value_arc w x))"

definition handle_ok :: "tyenv \<Rightarrow> world \<Rightarrow> TVar \<Rightarrow> bool" where
  "handle_ok \<Gamma> w v \<longleftrightarrow> control_block v \<in> set (vcb_live w) \<and> marker v = \<Gamma> (control_block v)"

lemma world_okD: "world_ok \<Gamma> w \<Longrightarrow> x \<in> set (vcb_live w) \<Longrightarrow> arc_typed w (\<Gamma> x) (value_arc w x)"
  by (simp add: world_ok_def)

lemma arc_typed_mono:
  "arc_typed w T a \<Longrightarrow> extends (heap w) (heap w') \<Longrightarrow> arc_typed w' T a"
  by (simp add: arc_typed_def extends_allocated extends_deref)

lemma arc_typed_alloc [stm_wf]: "arc_typed (snd (alloc_arc v w)) (type_id v) (next_arc (heap w))"
  by (simp add: arc_typed_def)

lemma extends_alloc_arc [stm_wf]: "extends (heap w) (heap (snd (alloc_arc v w)))"
  by simp

text \<open>A change that keeps the live variables and only installs typed boxes keeps the invariant.\<close>

lemma world_ok_mono:
  assumes "world_ok \<Gamma> w" and "extends (heap w) (heap w')"
    and "vcb_live w' = vcb_live w"
    and "\<And>x. x \<in> set (vcb_live w) \<Longrightarrow> value_arc w' x \<noteq> value_arc w x \<Longrightarrow>
      arc_typed w' (\<Gamma> x) (value_arc w' x)"
  shows "world_ok \<Gamma> w'"
  unfolding world_ok_def
proof
  fix x assume "x \<in> set (vcb_live w')"
  then have x: "x \<in> set (vcb_live w)" by (simp add: assms(3))
  show "arc_typed w' (\<Gamma> x) (value_arc w' x)"
  proof (cases "value_arc w' x = value_arc w x")
    case True
    with x show ?thesis using world_okD [OF assms(1)] arc_typed_mono [OF _ assms(2)] by simp
  next
    case False
    with x show ?thesis by (rule assms(4))
  qed
qed

lemma handle_ok_mono: "handle_ok \<Gamma> w v \<Longrightarrow> vcb_live w' = vcb_live w \<Longrightarrow> handle_ok \<Gamma> w' v"
  by (simp add: handle_ok_def)

lemma read_atomic_typed:
  assumes "world_ok \<Gamma> w" and "handle_ok \<Gamma> w v"
  shows "read_atomic v w = Return (deref (heap w) (value_arc w (control_block v)))"
  using world_okD [OF assms(1), of "control_block v"] assms(2)
  by (simp add: read_atomic_def read_ref_atomic_def downcast_ref_def handle_ok_def arc_typed_def)

lemma write_atomic_simps [simp]:
  "heap (write_atomic v x w) = snd (Arc_new x (heap w))"
  "value_arc (write_atomic v x w) y =
     (if y = control_block v then next_arc (heap w) else value_arc w y)"
  "waiters (write_atomic v x w) y = waiters w y"
  "dead_threads (vcbs (write_atomic v x w) y) = dead_threads (vcbs w y)"
  "vcb_live (write_atomic v x w) = vcb_live w"
  "cbs (write_atomic v x w) = cbs w"
  "cb_strong (write_atomic v x w) = cb_strong w"
  "next_cb (write_atomic v x w) = next_cb w"
  "tokens (write_atomic v x w) = tokens w"
  "running (write_atomic v x w) = running w"
  by (simp_all add: write_atomic_def Let_def split_def)

lemma world_ok_write_atomic [stm_wf]:
  assumes "world_ok \<Gamma> w" and "handle_ok \<Gamma> w v" and "type_id x = marker v"
  shows "world_ok \<Gamma> (write_atomic v x w)"
  using assms(1)
proof (rule world_ok_mono)
  fix y assume "value_arc (write_atomic v x w) y \<noteq> value_arc w y"
  then have "y = control_block v" by (simp split: if_splits)
  with assms(2,3) show "arc_typed (write_atomic v x w) (\<Gamma> y) (value_arc (write_atomic v x w) y)"
    by (simp add: arc_typed_def handle_ok_def)
qed simp_all

lemma TVar_new_simps [simp]:
  "control_block (fst (TVar_new a v w)) = a"
  "marker (fst (TVar_new a v w)) = type_id v"
  "heap (snd (TVar_new a v w)) = snd (Arc_new v (heap w))"
  "vcb_live (snd (TVar_new a v w)) = a # vcb_live w"
  "value_arc (snd (TVar_new a v w)) y = (if y = a then next_arc (heap w) else value_arc w y)"
  "waiters (snd (TVar_new a v w)) y = (if y = a then [] else waiters w y)"
  "cbs (snd (TVar_new a v w)) = cbs w"
  "cb_strong (snd (TVar_new a v w)) = cb_strong w"
  "tokens (snd (TVar_new a v w)) = tokens w"
  by (simp_all add: TVar_new_def VarControlBlock_new_def Let_def split_def)

lemma world_ok_TVar_new [stm_wf]:
  assumes "world_ok \<Gamma> w" and "a \<notin> set (vcb_live w)"
  shows "world_ok (\<Gamma>(a := type_id v)) (snd (TVar_new a v w))"
  unfolding world_ok_def
proof
  fix x assume "x \<in> set (vcb_live (snd (TVar_new a v w)))"
  then consider "x = a" | "x \<noteq> a" "x \<in> set (vcb_live w)" by auto
  then show "arc_typed (snd (TVar_new a v w)) ((\<Gamma>(a := type_id v)) x)
      (value_arc (snd (TVar_new a v w)) x)"
  proof cases
    case 1
    then show ?thesis by (simp add: arc_typed_def)
  next
    case 2
    then show ?thesis
      using world_okD [OF assms(1), of x] by (simp add: arc_typed_def deref_Arc_new_old)
  qed
qed

text \<open>
  C40. The atomic accessors of a well-typed world: a new variable reads back the value it was
  created with and leaves the others alone, reading after \<^verbatim>\<open>write_atomic\<close> gives the written value,
  reading any other variable is unaffected, no accessor panics, and both constructors keep the
  world well typed.
\<close>

theorem tvar_atomic_access:
  assumes "world_ok \<Gamma> w" and "handle_ok \<Gamma> w v" and "handle_ok \<Gamma> w u"
    and "type_id x = marker v" and "a \<notin> set (vcb_live w)"
  shows "world_ok \<Gamma> (write_atomic v x w) \<and>
    read_atomic v (write_atomic v x w) = Return x \<and>
    (\<not> ref_eq u v \<longrightarrow> read_atomic u (write_atomic v x w) = read_atomic u w) \<and>
    world_ok (\<Gamma>(a := type_id y)) (snd (TVar_new a y w)) \<and>
    read_atomic (fst (TVar_new a y w)) (snd (TVar_new a y w)) = Return y \<and>
    read_atomic u (snd (TVar_new a y w)) = read_atomic u w \<and>
    \<not> panics (read_atomic u w)"
proof -
  let ?w = "write_atomic v x w" and ?n = "snd (TVar_new a y w)"
  have W: "world_ok \<Gamma> ?w" by (rule world_ok_write_atomic [OF assms(1,2,4)])
  have N: "world_ok (\<Gamma>(a := type_id y)) ?n" by (rule world_ok_TVar_new [OF assms(1,5)])
  have hv: "handle_ok \<Gamma> ?w v" and hu: "handle_ok \<Gamma> ?w u"
    using assms(2,3) by (auto intro: handle_ok_mono)
  have ua: "control_block u \<noteq> a" using assms(3,5) by (auto simp: handle_ok_def)
  have hun: "handle_ok (\<Gamma>(a := type_id y)) ?n u"
    using assms(3) ua by (simp add: handle_ok_def)
  have hn: "handle_ok (\<Gamma>(a := type_id y)) ?n (fst (TVar_new a y w))"
    by (simp add: handle_ok_def)
  have al: "allocated (heap w) (value_arc w (control_block u))"
    using world_okD [OF assms(1)] assms(3) by (simp add: handle_ok_def arc_typed_def)
  show ?thesis
    using W N ua al
    by (simp add: read_atomic_typed [OF W hv] read_atomic_typed [OF W hu]
        read_atomic_typed [OF N hun] read_atomic_typed [OF N hn]
        read_atomic_typed [OF assms(1,3)] ref_eq_def deref_Arc_new_old)
qed

text \<open>A small world for the witnesses: two integer variables holding 42 and 0.\<close>

definition demo_x :: TVar where
  "demo_x = \<lparr>control_block = VCB 16, marker = TyInt\<rparr>"

definition demo_y :: TVar where
  "demo_y = \<lparr>control_block = VCB 64, marker = TyInt\<rparr>"

definition demo_world :: world where
  "demo_world = snd (TVar_new (VCB 64) (VInt 0) (snd (TVar_new (VCB 16) (VInt 42) empty_world)))"

definition demo_types :: tyenv where
  "demo_types = (\<lambda>_. TyInt)"

lemma demo_world_simps [simp]:
  "vcb_live demo_world = [VCB 64, VCB 16]"
  "value_arc demo_world (VCB 16) = 0"
  "value_arc demo_world (VCB 64) = 1"
  "deref (heap demo_world) 0 = VInt 42"
  "deref (heap demo_world) (Suc 0) = VInt 0"
  "next_arc (heap demo_world) = 2"
  by (simp_all add: demo_world_def empty_world_def empty_arena_def deref_Arc_new)

lemma demo_world_ok: "world_ok demo_types demo_world"
  by (simp add: world_ok_def demo_types_def arc_typed_def allocated_def)

lemma demo_handles_ok:
  "handle_ok demo_types demo_world demo_x" "handle_ok demo_types demo_world demo_y"
  by (simp_all add: handle_ok_def demo_x_def demo_y_def demo_types_def)

theorem tvar_atomic_access_witness:
  "world_ok demo_types (write_atomic demo_x (VInt 7) demo_world) \<and>
    read_atomic demo_x (write_atomic demo_x (VInt 7) demo_world) = Return (VInt 7) \<and>
    read_atomic demo_y (write_atomic demo_x (VInt 7) demo_world) = read_atomic demo_y demo_world \<and>
    read_atomic (fst (TVar_new (VCB 8) VUnit demo_world)) (snd (TVar_new (VCB 8) VUnit demo_world))
      = Return VUnit"
  using tvar_atomic_access [OF demo_world_ok demo_handles_ok, of "VInt 7" "VCB 8" VUnit]
  by (simp add: demo_x_def demo_y_def ref_eq_def)

end
