(* ===== verification/Transaction.thy ===== *)
theory Transaction
  imports BTree TVar
begin

text \<open>
  \<^verbatim>\<open>Transaction\<close> of \<^verbatim>\<open>transaction/mod.rs\<close>: the log and the operations a closure calls on it
  (\<^verbatim>\<open>read\<close>, \<^verbatim>\<open>write\<close>, \<^verbatim>\<open>or\<close>), the merging of two logs (\<^verbatim>\<open>combine\<close>), the two-phase \<^verbatim>\<open>commit\<close> and
  \<^verbatim>\<open>wait_for_change\<close>. A Rust function that takes \<^verbatim>\<open>&mut Transaction\<close> is an action: it maps the
  shared world and the log to a result, which may be a panic, and the new world and log. The
  operations here run without interference of other threads, except that \<^verbatim>\<open>wait_for_change\<close> takes
  what the others do while it sleeps as an argument.
\<close>

record Transaction =
  vars :: "(vcb_ref, LogVar) btree_map"

type_synonym ctx = "world \<times> Transaction"
type_synonym 'a action = "ctx \<Rightarrow> 'a StmResult may_panic \<times> ctx"

definition Transaction_new :: Transaction where
  "Transaction_new = \<lparr>vars = []\<rparr>"

definition Transaction_clear :: "Transaction \<Rightarrow> Transaction" where
  "Transaction_clear self = self\<lparr>vars := []\<rparr>"

text \<open>Sequencing with \<^verbatim>\<open>?\<close>: errors and panics end the function.\<close>

definition bind_action :: "'a action \<Rightarrow> ('a \<Rightarrow> 'b action) \<Rightarrow> 'b action" where
  "bind_action m k c =
     (case m c of
        (Return (Inr x), c') \<Rightarrow> k x c'
      | (Return (Inl e), c') \<Rightarrow> (Return (Inl e), c')
      | (Panic s, c') \<Rightarrow> (Panic s, c'))"

definition return_action :: "'a StmResult \<Rightarrow> 'a action" where
  "return_action r = (\<lambda>c. (Return r, c))"

definition map_action :: "('a \<Rightarrow> 'b) \<Rightarrow> 'a action \<Rightarrow> 'b action" where
  "map_action f m = bind_action m (\<lambda>x. return_action (Inr (f x)))"

subsection \<open>Reading and writing through the log\<close>

definition Transaction_downcast :: "tyid \<Rightarrow> arena \<Rightarrow> arc \<Rightarrow> val may_panic" where
  "Transaction_downcast T h var =
     (case downcast_ref T (deref h var) of
        Some s \<Rightarrow> Return s
      | None \<Rightarrow> Panic ''TVar has wrong type'')"

definition Transaction_read :: "TVar \<Rightarrow> val action" where
  "Transaction_read var = (\<lambda>(w, self).
     let ctrl = control_block var;
         (val, entry) =
           (case btm_get (vars self) ctrl of
              Some entry \<Rightarrow> LogVar_read entry
            | None \<Rightarrow> (let v = read_ref_atomic var w in (v, Read v)));
         self' = self\<lparr>vars := btm_insert ctrl entry (vars self)\<rparr>
     in case Transaction_downcast (marker var) (heap w) val of
          Return s \<Rightarrow> (Return (Inr s), w, self')
        | Panic m \<Rightarrow> (Panic m, w, self'))"

definition Transaction_write :: "TVar \<Rightarrow> val \<Rightarrow> unit action" where
  "Transaction_write var v = (\<lambda>(w, self).
     let (boxed, w1) = alloc_arc v w;
         ctrl = control_block var;
         entry =
           (case btm_get (vars self) ctrl of
              Some entry \<Rightarrow> LogVar_write entry boxed
            | None \<Rightarrow> Write boxed)
     in (Return (Inr ()), w1, self\<lparr>vars := btm_insert ctrl entry (vars self)\<rparr>))"

subsection \<open>Alternatives\<close>

definition Transaction_combine :: "Transaction \<Rightarrow> Transaction \<Rightarrow> Transaction" where
  "Transaction_combine self other =
     self\<lparr>vars :=
       fold (\<lambda>(var, val) m.
               case obsolete val of None \<Rightarrow> m | Some v \<Rightarrow> btm_or_insert var v m)
            (btm_iter (vars other)) (vars self)\<rparr>"

definition Transaction_or :: "'a action \<Rightarrow> 'a action \<Rightarrow> 'a action" where
  "Transaction_or first second = (\<lambda>(w, self).
     let copy = \<lparr>vars = vars self\<rparr>
     in case first (w, self) of
          (Return (Inl Retry), w1, self1) \<Rightarrow>
            (case second (w1, copy) of
               (Return (Inl Failure), w2, self2) \<Rightarrow> (Return (Inl Failure), w2, self2)
             | (Return s, w2, self2) \<Rightarrow> (Return s, w2, Transaction_combine self2 self1)
             | (Panic m, c2) \<Rightarrow> (Panic m, c2))
        | x \<Rightarrow> x)"

definition optionally :: "'a action \<Rightarrow> 'a option action" where
  "optionally f = Transaction_or (map_action Some f) (return_action (Inr None))"

subsection \<open>Commit\<close>

text \<open>
  The first phase: the locks taken for reading, the values to write with the locks taken for
  writing, and the variables to wake; nothing if a checked original has changed.
\<close>

fun commit_lock ::
    "world \<Rightarrow> (vcb_ref \<times> LogVar) list \<Rightarrow> vcb_ref list \<Rightarrow> (arc \<times> vcb_ref) list \<Rightarrow> vcb_ref list \<Rightarrow>
     (vcb_ref list \<times> (arc \<times> vcb_ref) list \<times> vcb_ref list) option" where
  "commit_lock w [] read_vec write_vec written = Some (read_vec, write_vec, written)"
| "commit_lock w ((var, Write v) # log) read_vec write_vec written =
     commit_lock w log read_vec (write_vec @ [(v, var)]) (written @ [var])"
| "commit_lock w ((var, ReadObsoleteWrite _ v) # log) read_vec write_vec written =
     commit_lock w log read_vec (write_vec @ [(v, var)]) (written @ [var])"
| "commit_lock w ((var, ReadWrite original v) # log) read_vec write_vec written =
     (if value_arc w var \<noteq> original then None
      else commit_lock w log read_vec (write_vec @ [(v, var)]) (written @ [var]))"
| "commit_lock w ((var, ReadObsolete _) # log) read_vec write_vec written =
     commit_lock w log read_vec write_vec written"
| "commit_lock w ((var, Read original) # log) read_vec write_vec written =
     (if value_arc w var \<noteq> original then None
      else commit_lock w log (read_vec @ [var]) write_vec written)"

definition write_back :: "arc \<times> vcb_ref \<Rightarrow> world \<Rightarrow> world" where
  "write_back vl w = update_vcb (snd vl) (\<lambda>b. b\<lparr>var_value := fst vl\<rparr>) w"

definition Transaction_commit :: "ctx \<Rightarrow> bool \<times> ctx" where
  "Transaction_commit = (\<lambda>(w, self).
     case commit_lock w (btm_iter (vars self)) [] [] [] of
       None \<Rightarrow> (False, w, self)
     | Some (read_vec, write_vec, written) \<Rightarrow>
         (True, fold VarControlBlock_wake_all written (fold write_back write_vec w), self))"

subsection \<open>Waiting for a change\<close>

text \<open>
  The lazy iterator chain of \<^verbatim>\<open>wait_for_change\<close>: entries without an original are skipped, each other
  variable is registered with and then compared, and the first changed one ends the iteration.
  The result is whether all were unchanged, the registered variables and the new world.
\<close>

fun wait_register ::
    "cb_ref \<Rightarrow> (vcb_ref \<times> LogVar) list \<Rightarrow> vcb_ref list \<Rightarrow> world \<Rightarrow> bool \<times> vcb_ref list \<times> world" where
  "wait_register ctrl [] reads w = (True, reads, w)"
| "wait_register ctrl ((a, b) # log) reads w =
     (case into_read_value b of
        None \<Rightarrow> wait_register ctrl log reads w
      | Some v \<Rightarrow>
          (let w1 = VarControlBlock_wait a ctrl w
           in if v = value_arc w1 a
              then wait_register ctrl log (reads @ [a]) w1
              else (False, reads @ [a], w1)))"

text \<open>
  \<open>others\<close> is the effect of the other threads on the world while this one is parked; the
  thread sleeps for good, and the result is \<open>None\<close>, when they leave its flag set.
\<close>

definition Transaction_wait_for_change ::
    "tid \<Rightarrow> (world \<Rightarrow> world) \<Rightarrow> ctx \<Rightarrow> ctx option" where
  "Transaction_wait_for_change t others = (\<lambda>(w, self).
     let (ctrl, w0) = cb_alloc t w;
         (blocking, reads, w1) = wait_register ctrl (btm_iter (vars self)) [] w0;
         self' = self\<lparr>vars := []\<rparr>;
         finish = (\<lambda>w2. cb_drop ctrl (fold VarControlBlock_set_dead reads w2))
     in if blocking
        then (let w2 = others w1
              in if blocked (cbs w2 ctrl) then None else Some (finish w2, self'))
        else Some (finish w1, self'))"

subsection \<open>What commit computes\<close>

definition log_checks :: "world \<Rightarrow> (vcb_ref \<times> LogVar) list \<Rightarrow> bool" where
  "log_checks w log \<longleftrightarrow>
     (\<forall>(x, e) \<in> set log. is_checked e \<longrightarrow> into_read_value e = Some (value_arc w x))"

definition log_reads :: "(vcb_ref \<times> LogVar) list \<Rightarrow> vcb_ref list" where
  "log_reads log = map fst (filter (\<lambda>(x, e). is_checked e \<and> pending_value e = None) log)"

fun log_writes :: "(vcb_ref \<times> LogVar) list \<Rightarrow> (vcb_ref \<times> arc) list" where
  "log_writes [] = []"
| "log_writes ((x, e) # log) =
     (case pending_value e of None \<Rightarrow> log_writes log | Some v \<Rightarrow> (x, v) # log_writes log)"

lemma log_checks_simps [simp]:
  "log_checks w []"
  "log_checks w ((x, e) # log) \<longleftrightarrow>
    (is_checked e \<longrightarrow> into_read_value e = Some (value_arc w x)) \<and> log_checks w log"
  by (simp_all add: log_checks_def)

lemma log_reads_simps [simp]:
  "log_reads [] = []"
  "log_reads ((x, e) # log) =
    (if is_checked e \<and> pending_value e = None then x # log_reads log else log_reads log)"
  by (simp_all add: log_reads_def)

lemma commit_lock_eq:
  "commit_lock w log rs ws xs =
    (if log_checks w log
     then Some (rs @ log_reads log, ws @ map (\<lambda>(x, v). (v, x)) (log_writes log),
                xs @ map fst (log_writes log))
     else None)"
  by (induction w log rs ws xs rule: commit_lock.induct) auto

lemma map_of_log_writes:
  assumes "distinct (map fst log)"
  shows "map_of (log_writes log) x = Option.bind (map_of log x) pending_value"
  using assms
proof (induction log)
  case (Cons xe log)
  obtain y e where xe: "xe = (y, e)" by (cases xe)
  have "map_of log y = None" using Cons.prems xe by (simp add: map_of_eq_None_iff)
  with Cons xe show ?case by (auto split: option.split)
qed simp

lemma mem_log_writes:
  "(x, v) \<in> set (log_writes log) \<longleftrightarrow> (\<exists>e. (x, e) \<in> set log \<and> pending_value e = Some v)"
  by (induction log rule: log_writes.induct) (auto split: option.split)

lemma set_log_writes: "set (map fst (log_writes log)) =
    {x. \<exists>e. (x, e) \<in> set log \<and> pending_value e \<noteq> None}"
  by (auto simp: mem_log_writes image_iff) (metis mem_log_writes fst_conv)+

lemma distinct_log_writes: "distinct (map fst log) \<Longrightarrow> distinct (map fst (log_writes log))"
proof (induction log)
  case (Cons xe log)
  obtain y e where xe: "xe = (y, e)" by (cases xe)
  have "y \<notin> set (map fst (log_writes log))"
    using Cons.prems xe unfolding set_log_writes by force
  with Cons xe show ?case by (auto split: option.split)
qed simp

lemma fold_write_back_simps [simp]:
  "heap (fold write_back ws w) = heap w"
  "vcb_live (fold write_back ws w) = vcb_live w"
  "cbs (fold write_back ws w) = cbs w"
  "cb_strong (fold write_back ws w) = cb_strong w"
  "next_cb (fold write_back ws w) = next_cb w"
  "tokens (fold write_back ws w) = tokens w"
  "running (fold write_back ws w) = running w"
  "waiters (fold write_back ws w) x = waiters w x"
  "dead_threads (vcbs (fold write_back ws w) x) = dead_threads (vcbs w x)"
  "cb_alive (fold write_back ws w) = cb_alive w"
  by (induction ws arbitrary: w) (simp_all add: write_back_def)

lemma value_arc_fold_write_back:
  "value_arc (fold write_back (map (\<lambda>(x, v). (v, x)) xvs) w) = upd_all xvs (value_arc w)"
proof (induction xvs arbitrary: w)
  case (Cons xv xvs)
  obtain x v where xv: "xv = (x, v)" by (cases xv)
  have "value_arc (write_back (v, x) w) = (value_arc w)(x := v)"
    by (simp add: fun_eq_iff write_back_def)
  with Cons.IH [of "write_back (v, x) w"] show ?case by (simp add: xv)
qed simp

lemma fold_wake_all_simps [simp]:
  "heap (fold VarControlBlock_wake_all xs w) = heap w"
  "vcb_live (fold VarControlBlock_wake_all xs w) = vcb_live w"
  "cb_strong (fold VarControlBlock_wake_all xs w) = cb_strong w"
  "next_cb (fold VarControlBlock_wake_all xs w) = next_cb w"
  "running (fold VarControlBlock_wake_all xs w) = running w"
  "value_arc (fold VarControlBlock_wake_all xs w) x = value_arc w x"
  "dead_threads (vcbs (fold VarControlBlock_wake_all xs w) x) = dead_threads (vcbs w x)"
  "cb_alive (fold VarControlBlock_wake_all xs w) = cb_alive w"
  by (induction xs arbitrary: w) simp_all

lemma waiters_fold_wake_all:
  "waiters (fold VarControlBlock_wake_all xs w) y = (if y \<in> set xs then [] else waiters w y)"
  by (induction xs arbitrary: w) auto

lemma blocked_fold_wake_all:
  "blocked (cbs (fold VarControlBlock_wake_all xs w) c) \<longleftrightarrow>
    blocked (cbs w c) \<and> \<not> (cb_alive w c \<and> (\<exists>x \<in> set xs. c \<in> set (waiters w x)))"
proof (induction xs arbitrary: w)
  case (Cons x xs)
  show ?case using Cons.IH [of "VarControlBlock_wake_all x w"] by (auto simp: cbs_wake_all)
qed simp

subsection \<open>Commit as one atomic step\<close>

lemma commit_fails:
  "\<not> log_checks w (vars self) \<Longrightarrow> Transaction_commit (w, self) = (False, w, self)"
  by (simp add: Transaction_commit_def commit_lock_eq btm_iter_def)

lemma commit_succeeds:
  "log_checks w (vars self) \<Longrightarrow> Transaction_commit (w, self) =
    (True, fold VarControlBlock_wake_all (map fst (log_writes (vars self)))
             (fold write_back (map (\<lambda>(x, v). (v, x)) (log_writes (vars self))) w), self)"
  by (simp add: Transaction_commit_def commit_lock_eq btm_iter_def)

lemma commit_result: "fst (Transaction_commit (w, self)) \<longleftrightarrow> log_checks w (vars self)"
  by (cases "log_checks w (vars self)") (simp_all add: commit_fails commit_succeeds)

lemma commit_value:
  assumes "log_checks w (vars self)" and "btm_ok (vars self)"
  shows "value_arc (fst (snd (Transaction_commit (w, self)))) x =
    (case Option.bind (btm_get (vars self) x) pending_value of
       Some v \<Rightarrow> v | None \<Rightarrow> value_arc w x)"
proof -
  have d: "distinct (map fst (vars self))"
    using btm.iter_distinct [OF assms(2)] by (simp add: btm_iter_def)
  have "value_arc (fst (snd (Transaction_commit (w, self)))) x =
      upd_all (log_writes (vars self)) (value_arc w) x"
    by (simp add: commit_succeeds [OF assms(1)] value_arc_fold_write_back [THEN fun_cong])
  also have "\<dots> = (case map_of (log_writes (vars self)) x of Some v \<Rightarrow> v | None \<Rightarrow> value_arc w x)"
    by (rule upd_all_apply) (rule distinct_log_writes [OF d])
  finally show ?thesis by (simp add: map_of_log_writes [OF d] btm_get_def)
qed

lemma log_checks_btm:
  assumes "btm_ok m"
  shows "log_checks w m \<longleftrightarrow>
    (\<forall>x e. btm_get m x = Some e \<and> is_checked e \<longrightarrow> into_read_value e = Some (value_arc w x))"
  using btm.iter_mem [OF assms] by (force simp: log_checks_def btm_iter_def)

text \<open>
  C10. \<^verbatim>\<open>commit\<close> is all or nothing and validates the reads: it succeeds exactly when every variable
  the log read on a live path still holds the very box that was read; a failed commit changes
  nothing at all; a successful one installs the pending box of every written variable, keeps the
  box of every other variable, wakes exactly the transactions registered with a written variable,
  and keeps the log.
\<close>

theorem commit_is_atomic_and_validated:
  fixes w :: world and self :: Transaction
  assumes "btm_ok (vars self)"
  defines "w' \<equiv> fst (snd (Transaction_commit (w, self)))"
    and "written \<equiv> {x. Option.bind (btm_get (vars self) x) pending_value \<noteq> None}"
  shows "(fst (Transaction_commit (w, self)) \<longleftrightarrow>
      (\<forall>x e. btm_get (vars self) x = Some e \<and> is_checked e \<longrightarrow>
         into_read_value e = Some (value_arc w x))) \<and>
    snd (snd (Transaction_commit (w, self))) = self \<and>
    (\<not> fst (Transaction_commit (w, self)) \<longrightarrow> w' = w) \<and>
    (fst (Transaction_commit (w, self)) \<longrightarrow>
      (\<forall>x. value_arc w' x =
         (case Option.bind (btm_get (vars self) x) pending_value of
            Some v \<Rightarrow> v | None \<Rightarrow> value_arc w x)) \<and>
      (\<forall>x. waiters w' x = (if x \<in> written then [] else waiters w x)) \<and>
      (\<forall>c. blocked (cbs w' c) \<longleftrightarrow>
         blocked (cbs w c) \<and> \<not> (cb_alive w c \<and> (\<exists>x \<in> written. c \<in> set (waiters w x)))))"
proof (cases "log_checks w (vars self)")
  case True
  have wr: "set (map fst (log_writes (vars self))) = written"
    unfolding set_log_writes written_def
    using btm.iter_mem [OF assms(1)] by (auto simp: btm_iter_def bind_eq_Some_conv)
  show ?thesis
    using True log_checks_btm [OF assms(1), of w] commit_value [OF True assms(1)] wr
    unfolding w'_def
    by (simp add: commit_succeeds [OF True] waiters_fold_wake_all blocked_fold_wake_all)
next
  case False
  then show ?thesis
    using log_checks_btm [OF assms(1), of w] by (auto simp: w'_def commit_fails)
qed

subsection \<open>What combine and the log accesses compute\<close>

lemma combine_vars:
  "vars (Transaction_combine self other) =
    btm.add_vacant obsolete (btm_iter (vars other)) (vars self)"
  unfolding Transaction_combine_def btm.add_vacant_def btm_or_insert_eq by simp

lemma btm_ok_combine [stm_wf]:
  "btm_ok (vars self) \<Longrightarrow> btm_ok (vars (Transaction_combine self other))"
  by (simp add: combine_vars btm.invar_add_vacant)

lemma get_combine:
  assumes "btm_ok (vars self)" and "btm_ok (vars other)"
  shows "btm_get (vars (Transaction_combine self other)) x =
    (case btm_get (vars self) x of
       Some e \<Rightarrow> Some e | None \<Rightarrow> Option.bind (btm_get (vars other) x) obsolete)"
  unfolding combine_vars
  by (simp add: btm.get_add_vacant [OF assms(1) btm.iter_distinct [OF assms(2)]]
      btm.iter_get [OF assms(2)] cong: option.case_cong)

lemma get_insert [simp]:
  "btm_ok m \<Longrightarrow> btm_get (btm_insert k v m) j = (if j = k then Some v else btm_get m j)"
  by (simp add: btm.get_insert)

declare btm_ok_insert [stm_wf]

text \<open>The entry a read or a write leaves in the log.\<close>

definition read_entry :: "world \<Rightarrow> vcb_ref \<Rightarrow> (vcb_ref, LogVar) btree_map \<Rightarrow> arc \<times> LogVar" where
  "read_entry w x m =
     (case btm_get m x of Some e \<Rightarrow> LogVar_read e | None \<Rightarrow> (value_arc w x, Read (value_arc w x)))"

definition write_entry :: "arc \<Rightarrow> vcb_ref \<Rightarrow> (vcb_ref, LogVar) btree_map \<Rightarrow> LogVar" where
  "write_entry a x m = (case btm_get m x of Some e \<Rightarrow> LogVar_write e a | None \<Rightarrow> Write a)"

lemma Transaction_read_eq:
  "Transaction_read v (w, self) =
    (case Transaction_downcast (marker v) (heap w)
            (fst (read_entry w (control_block v) (vars self))) of
       Return s \<Rightarrow> (Return (Inr s), w, self\<lparr>vars := btm_insert (control_block v)
           (snd (read_entry w (control_block v) (vars self))) (vars self)\<rparr>)
     | Panic m \<Rightarrow> (Panic m, w, self\<lparr>vars := btm_insert (control_block v)
           (snd (read_entry w (control_block v) (vars self))) (vars self)\<rparr>))"
  by (simp add: Transaction_read_def read_entry_def read_ref_atomic_def split_def Let_def
      split: option.split may_panic.split)

lemma Transaction_write_eq:
  "Transaction_write v x (w, self) =
    (Return (Inr ()), snd (alloc_arc x w), self\<lparr>vars := btm_insert (control_block v)
       (write_entry (next_arc (heap w)) (control_block v) (vars self)) (vars self)\<rparr>)"
  by (simp add: Transaction_write_def write_entry_def Let_def split_def cong: option.case_cong)

text \<open>The reads a transaction that retries with this log waits for: a variable and the box it has read.\<close>

definition waited_reads :: "Transaction \<Rightarrow> (vcb_ref \<times> arc) set" where
  "waited_reads tx = {(x, a). Option.bind (btm_get (vars tx) x) into_read_value = Some a}"

text \<open>
  C24. Merging the log of an abandoned first alternative into the log of the second: the second
  alternative's entries are kept as they are, each variable that is only in the log of the first one and
  read there becomes an unchecked entry with the box it read, and the
  variables only the first one wrote leave no trace. The comment of \<^verbatim>\<open>combine\<close> says that the combined log
  waits for all reads; it does not: the reads of the second alternative survive, and of those of
  the first one exactly the ones of variables for which the second has no entry at all. Where the
  second has one, even of a write without a read, the first one's read is lost.
\<close>

theorem combine_keeps_reads_drops_writes:
  assumes "btm_ok (vars self)" and "btm_ok (vars other)"
  shows "btm_ok (vars (Transaction_combine self other)) \<and>
    (\<forall>x. btm_get (vars (Transaction_combine self other)) x =
      (case btm_get (vars self) x of
         Some e \<Rightarrow> Some e
       | None \<Rightarrow> (case Option.bind (btm_get (vars other) x) into_read_value of
                    Some v \<Rightarrow> Some (ReadObsolete v)
                  | None \<Rightarrow> None))) \<and>
    waited_reads (Transaction_combine self other) =
      waited_reads self \<union> {(x, a) \<in> waited_reads other. btm_get (vars self) x = None} \<and>
    (waited_reads self \<union> waited_reads other) - waited_reads (Transaction_combine self other) =
      {(x, a) \<in> waited_reads other - waited_reads self. btm_get (vars self) x \<noteq> None}"
proof -
  have "Option.bind y obsolete =
      (case Option.bind y into_read_value of Some v \<Rightarrow> Some (ReadObsolete v) | None \<Rightarrow> None)"
    for y
    by (cases y) (simp_all add: obsolete_def split: option.split)
  moreover have reads: "waited_reads (Transaction_combine self other) =
      waited_reads self \<union> {(x, a) \<in> waited_reads other. btm_get (vars self) x = None}"
    by (auto simp: waited_reads_def get_combine [OF assms] obsolete_def bind_eq_Some_conv
        split: option.splits)
  moreover have "(waited_reads self \<union> waited_reads other) - waited_reads (Transaction_combine self other) =
      {(x, a) \<in> waited_reads other - waited_reads self. btm_get (vars self) x \<noteq> None}"
    unfolding reads by auto
  ultimately show ?thesis
    using btm_ok_combine [OF assms(1)] by (simp add: get_combine [OF assms] split: option.split)
qed

text \<open>A log of every kind of entry for the witnesses, over the small world of two variables.\<close>

definition demo_log :: Transaction where
  "demo_log = \<lparr>vars = [(VCB 16, ReadWrite 0 1), (VCB 64, Read 1)]\<rparr>"

definition demo_log2 :: Transaction where
  "demo_log2 = \<lparr>vars = [(VCB 8, Write 0), (VCB 16, ReadWrite 0 0), (VCB 32, ReadWrite 0 1)]\<rparr>"

lemma demo_logs_ok: "btm_ok (vars demo_log)" "btm_ok (vars demo_log2)"
  by (simp_all add: demo_log_def demo_log2_def btm_ok_def less_vcb_ref_def)

text \<open>A log with a read, and one with a blind write of the same variable.\<close>

definition read_log :: Transaction where
  "read_log = \<lparr>vars = [(VCB 16, Read 0)]\<rparr>"

definition blind_log :: Transaction where
  "blind_log = \<lparr>vars = [(VCB 16, Write 1)]\<rparr>"

lemma blind_logs_ok: "btm_ok (vars blind_log)" "btm_ok (vars read_log)"
  by (simp_all add: blind_log_def read_log_def btm_ok_def)

theorem commit_is_atomic_and_validated_witness:
  "fst (Transaction_commit (demo_world, demo_log)) \<and>
   value_arc (fst (snd (Transaction_commit (demo_world, demo_log)))) (VCB 16) = 1 \<and>
   \<not> fst (Transaction_commit (write_atomic demo_y (VInt 0) demo_world, demo_log))"
proof -
  note c = commit_is_atomic_and_validated [OF demo_logs_ok(1)]
  have "fst (Transaction_commit (demo_world, demo_log))"
    using c [of demo_world] by (auto simp: demo_log_def btm_get_def split: if_splits)
  moreover from this have
    "value_arc (fst (snd (Transaction_commit (demo_world, demo_log)))) (VCB 16) = 1"
    using c [of demo_world] by (simp add: demo_log_def btm_get_def)
  moreover have "\<not> fst (Transaction_commit (write_atomic demo_y (VInt 0) demo_world, demo_log))"
    using c [of "write_atomic demo_y (VInt 0) demo_world"]
    by (auto simp: demo_log_def btm_get_def demo_y_def split: if_splits
        intro!: exI [of _ "VCB 64"])
  ultimately show ?thesis by blast
qed

theorem combine_keeps_reads_drops_writes_witness:
  "btm_get (vars (Transaction_combine demo_log demo_log2)) (VCB 8) = None \<and>
   btm_get (vars (Transaction_combine demo_log demo_log2)) (VCB 32) = Some (ReadObsolete 0) \<and>
   btm_get (vars (Transaction_combine demo_log demo_log2)) (VCB 16) = Some (ReadWrite 0 1) \<and>
   waited_reads read_log = {(VCB 16, 0)} \<and> waited_reads (Transaction_combine blind_log read_log) = {}"
proof -
  have "waited_reads read_log = {(VCB 16, 0)}" and "waited_reads blind_log = {}"
    and "btm_get (vars blind_log) (VCB 16) \<noteq> None"
    by (auto simp: waited_reads_def read_log_def blind_log_def btm_get_def split: if_splits)
  moreover from this have "waited_reads (Transaction_combine blind_log read_log) = {}"
    using combine_keeps_reads_drops_writes [OF blind_logs_ok] by auto
  ultimately show ?thesis
    using combine_keeps_reads_drops_writes [OF demo_logs_ok]
    by (simp add: demo_log_def demo_log2_def btm_get_def)
qed

end
