(* ===== verification/Closure.thy ===== *)
theory Closure
  imports Transaction
begin

text \<open>
  What a transaction means. A closure passed to \<^verbatim>\<open>atomically\<close> is a program over the operations of
  \<^verbatim>\<open>Transaction\<close> (\<open>prog\<close>), which \<open>interp\<close> runs on a log as the library does. The reference
  semantics \<open>spec\<close> runs the same program directly on a store that maps each variable to its
  value: no log, no boxes, an abandoned alternative simply forgotten. The contract
  \<open>refines\<close> says that an action on the log does what a store transformer says; it is closed
  under the ways the source composes actions, so every closure refines its specification.
\<close>

subsection \<open>Stores and their transformers\<close>

type_synonym store = "vcb_ref \<Rightarrow> val"
type_synonym 'a transformer = "store \<Rightarrow> 'a StmResult \<times> store"

definition spec_return :: "'a StmResult \<Rightarrow> 'a transformer" where
  "spec_return r s = (r, s)"

definition spec_bind :: "'a transformer \<Rightarrow> ('a \<Rightarrow> 'b transformer) \<Rightarrow> 'b transformer" where
  "spec_bind S K s = (case S s of (Inr x, s') \<Rightarrow> K x s' | (Inl e, s') \<Rightarrow> (Inl e, s'))"

definition spec_read :: "vcb_ref \<Rightarrow> val transformer" where
  "spec_read x s = (Inr (s x), s)"

definition spec_write :: "vcb_ref \<Rightarrow> val \<Rightarrow> unit transformer" where
  "spec_write x v s = (Inr (), s(x := v))"

definition spec_or :: "'a transformer \<Rightarrow> 'a transformer \<Rightarrow> 'a transformer" where
  "spec_or S1 S2 s = (case S1 s of (Inl Retry, _) \<Rightarrow> S2 s | r \<Rightarrow> r)"

subsection \<open>Closures\<close>

datatype prog =
    Done "val StmResult"
  | ReadVar TVar "val \<Rightarrow> prog"
  | WriteVar TVar val prog
  | OrElse prog prog "val \<Rightarrow> prog"

primrec interp :: "prog \<Rightarrow> val action" where
  "interp (Done r) = return_action r"
| "interp (ReadVar v k) = bind_action (Transaction_read v) (\<lambda>x. interp (k x))"
| "interp (WriteVar v x p) = bind_action (Transaction_write v x) (\<lambda>_. interp p)"
| "interp (OrElse p q k) =
     bind_action (Transaction_or (interp p) (interp q)) (\<lambda>x. interp (k x))"

primrec spec :: "prog \<Rightarrow> val transformer" where
  "spec (Done r) = spec_return r"
| "spec (ReadVar v k) = spec_bind (spec_read (control_block v)) (\<lambda>x. spec (k x))"
| "spec (WriteVar v x p) = spec_bind (spec_write (control_block v) x) (\<lambda>_. spec p)"
| "spec (OrElse p q k) = spec_bind (spec_or (spec p) (spec q)) (\<lambda>x. spec (k x))"

subsection \<open>Typed closures and logs\<close>

definition var_ok :: "tyenv \<Rightarrow> vcb_ref set \<Rightarrow> TVar \<Rightarrow> bool" where
  "var_ok \<Gamma> L v \<longleftrightarrow> control_block v \<in> L \<and> marker v = \<Gamma> (control_block v)"

primrec prog_ok :: "tyenv \<Rightarrow> vcb_ref set \<Rightarrow> prog \<Rightarrow> bool" where
  "prog_ok \<Gamma> L (Done r) = True"
| "prog_ok \<Gamma> L (ReadVar v k) =
     (var_ok \<Gamma> L v \<and> (\<forall>x. type_id x = marker v \<longrightarrow> prog_ok \<Gamma> L (k x)))"
| "prog_ok \<Gamma> L (WriteVar v x p) = (var_ok \<Gamma> L v \<and> type_id x = marker v \<and> prog_ok \<Gamma> L p)"
| "prog_ok \<Gamma> L (OrElse p q k) = (prog_ok \<Gamma> L p \<and> prog_ok \<Gamma> L q \<and> (\<forall>x. prog_ok \<Gamma> L (k x)))"

definition entry_ok :: "world \<Rightarrow> tyid \<Rightarrow> LogVar \<Rightarrow> bool" where
  "entry_ok w T e \<longleftrightarrow>
     pred_option (arc_typed w T) (into_read_value e) \<and>
     pred_option (arc_typed w T) (pending_value e)"

definition log_ok :: "tyenv \<Rightarrow> vcb_ref set \<Rightarrow> world \<Rightarrow> (vcb_ref, LogVar) btree_map \<Rightarrow> bool" where
  "log_ok \<Gamma> L w m \<longleftrightarrow>
     btm_ok m \<and> (\<forall>x e. btm_get m x = Some e \<longrightarrow> x \<in> L \<and> entry_ok w (\<Gamma> x) e)"

text \<open>Every original in the log is the current box of its variable: nobody interfered.\<close>

definition log_current :: "world \<Rightarrow> (vcb_ref, LogVar) btree_map \<Rightarrow> bool" where
  "log_current w m \<longleftrightarrow>
     (\<forall>x e a. btm_get m x = Some e \<longrightarrow> into_read_value e = Some a \<longrightarrow> a = value_arc w x)"

definition ctx_ok :: "tyenv \<Rightarrow> vcb_ref set \<Rightarrow> ctx \<Rightarrow> bool" where
  "ctx_ok \<Gamma> L c \<longleftrightarrow>
     world_ok \<Gamma> (fst c) \<and> set (vcb_live (fst c)) = L \<and>
     log_ok \<Gamma> L (fst c) (vars (snd c)) \<and> log_current (fst c) (vars (snd c))"

text \<open>The box a transaction sees in a variable, and the store it sees.\<close>

definition seen_arc :: "world \<Rightarrow> (vcb_ref, LogVar) btree_map \<Rightarrow> vcb_ref \<Rightarrow> arc" where
  "seen_arc w m x =
     (case Option.bind (btm_get m x) pending_value of Some a \<Rightarrow> a | None \<Rightarrow> value_arc w x)"

definition view :: "world \<Rightarrow> (vcb_ref, LogVar) btree_map \<Rightarrow> store" where
  "view w m x = (if x \<in> set (vcb_live w) then deref (heap w) (seen_arc w m x) else VUnit)"

definition contents :: "world \<Rightarrow> store" where
  "contents w = view w []"

text \<open>Running a closure allocates boxes and touches nothing else of the world.\<close>

definition only_allocates :: "world \<Rightarrow> world \<Rightarrow> bool" where
  "only_allocates w w' \<longleftrightarrow> extends (heap w) (heap w') \<and> w' = w\<lparr>heap := heap w'\<rparr>"

lemma only_allocates_refl [simp, intro]: "only_allocates w w"
  by (simp add: only_allocates_def)

lemma only_allocates_trans [trans]:
  assumes "only_allocates w w'" and "only_allocates w' w''"
  shows "only_allocates w w''"
proof -
  obtain h where h: "w' = w\<lparr>heap := h\<rparr>" using assms(1) unfolding only_allocates_def by blast
  obtain k where k: "w'' = w'\<lparr>heap := k\<rparr>" using assms(2) unfolding only_allocates_def by blast
  have "extends (heap w) (heap w'')"
    using assms unfolding only_allocates_def by (blast intro: extends_trans)
  then show ?thesis by (simp add: only_allocates_def h k)
qed

lemma only_allocates_alloc [simp, intro]: "only_allocates w (snd (alloc_arc v w))"
  by (simp add: only_allocates_def alloc_arc_def split_def)

lemma only_allocatesD:
  assumes "only_allocates w w'"
  shows "extends (heap w) (heap w')" and "vcbs w' = vcbs w" and "vcb_live w' = vcb_live w"
    and "cbs w' = cbs w" and "tokens w' = tokens w" and "running w' = running w"
    and "cb_strong w' = cb_strong w" and "next_cb w' = next_cb w"
proof -
  show "extends (heap w) (heap w')" using assms by (simp add: only_allocates_def)
  obtain h where "w' = w\<lparr>heap := h\<rparr>" using assms by (auto simp: only_allocates_def)
  then show "vcbs w' = vcbs w" and "vcb_live w' = vcb_live w"
    and "cbs w' = cbs w" and "tokens w' = tokens w" and "running w' = running w"
    and "cb_strong w' = cb_strong w" and "next_cb w' = next_cb w"
    by simp_all
qed

lemma entry_ok_simps [simp]:
  "entry_ok w T (Read a) \<longleftrightarrow> arc_typed w T a"
  "entry_ok w T (Write b) \<longleftrightarrow> arc_typed w T b"
  "entry_ok w T (ReadWrite a b) \<longleftrightarrow> arc_typed w T a \<and> arc_typed w T b"
  "entry_ok w T (ReadObsolete a) \<longleftrightarrow> arc_typed w T a"
  "entry_ok w T (ReadObsoleteWrite a b) \<longleftrightarrow> arc_typed w T a \<and> arc_typed w T b"
  by (simp_all add: entry_ok_def)

lemma entry_ok_mono: "entry_ok w T e \<Longrightarrow> extends (heap w) (heap w') \<Longrightarrow> entry_ok w' T e"
  by (cases e) (auto intro: arc_typed_mono)

lemma entry_ok_read: "entry_ok w T e \<Longrightarrow> entry_ok w T (snd (LogVar_read e))"
  by (cases e) simp_all

lemma entry_ok_write: "entry_ok w T e \<Longrightarrow> arc_typed w T a \<Longrightarrow> entry_ok w T (LogVar_write e a)"
  by (cases e) simp_all

lemma entry_ok_obsolete: "entry_ok w T e \<Longrightarrow> obsolete e = Some e' \<Longrightarrow> entry_ok w T e'"
  by (cases e) auto

lemma log_ok_mono:
  "log_ok \<Gamma> L w m \<Longrightarrow> extends (heap w) (heap w') \<Longrightarrow> log_ok \<Gamma> L w' m"
  unfolding log_ok_def by (blast intro: entry_ok_mono)

lemma log_okD:
  assumes "log_ok \<Gamma> L w m"
  shows "btm_ok m" and "btm_get m x = Some e \<Longrightarrow> entry_ok w (\<Gamma> x) e"
    and "btm_get m x = Some e \<Longrightarrow> x \<in> L"
  using assms by (auto simp: log_ok_def)

lemma log_ok_insert [stm_wf]:
  "log_ok \<Gamma> L w m \<Longrightarrow> x \<in> L \<Longrightarrow> entry_ok w (\<Gamma> x) e \<Longrightarrow> log_ok \<Gamma> L w (btm_insert x e m)"
  by (auto simp: log_ok_def btm_ok_insert)

lemma log_ok_combine [stm_wf]:
  assumes "log_ok \<Gamma> L w (vars self)" and "log_ok \<Gamma> L w (vars other)"
  shows "log_ok \<Gamma> L w (vars (Transaction_combine self other))"
proof -
  note get = get_combine [OF log_okD(1) [OF assms(1)] log_okD(1) [OF assms(2)]]
  have "x \<in> L \<and> entry_ok w (\<Gamma> x) e"
    if "btm_get (vars (Transaction_combine self other)) x = Some e" for x e
    using that log_okD(2,3) [OF assms(1), of x] log_okD(2,3) [OF assms(2), of x]
    by (auto simp: get bind_eq_Some_conv intro: entry_ok_obsolete split: option.splits)
  then show ?thesis
    using btm_ok_combine [OF log_okD(1) [OF assms(1)]] by (simp add: log_ok_def)
qed

end
