(* ===== verification/Refinement.thy ===== *)
theory Refinement
  imports Closure
begin

text \<open>
  The contract \<open>refines\<close> between an action on the log and a transformer of stores, its closure
  under the operations of the library, and the theorem that every typed closure meets it.
\<close>

definition refines :: "tyenv \<Rightarrow> vcb_ref set \<Rightarrow> 'a action \<Rightarrow> 'a transformer \<Rightarrow> bool" where
  "refines \<Gamma> L A S \<longleftrightarrow>
     (\<forall>w tx. ctx_ok \<Gamma> L (w, tx) \<longrightarrow>
       (\<exists>r w' tx'. A (w, tx) = (Return r, w', tx') \<and> ctx_ok \<Gamma> L (w', tx') \<and>
          only_allocates w w' \<and> S (view w (vars tx)) = (r, view w' (vars tx'))))"

lemma refinesI:
  assumes "\<And>w tx. ctx_ok \<Gamma> L (w, tx) \<Longrightarrow>
    \<exists>r w' tx'. A (w, tx) = (Return r, w', tx') \<and> ctx_ok \<Gamma> L (w', tx') \<and>
      only_allocates w w' \<and> S (view w (vars tx)) = (r, view w' (vars tx'))"
  shows "refines \<Gamma> L A S"
  using assms unfolding refines_def by blast

lemma refinesE:
  assumes "refines \<Gamma> L A S" and "ctx_ok \<Gamma> L (w, tx)"
  obtains r w' tx' where "A (w, tx) = (Return r, w', tx')" and "ctx_ok \<Gamma> L (w', tx')"
    and "only_allocates w w'" and "S (view w (vars tx)) = (r, view w' (vars tx'))"
  using assms unfolding refines_def by blast

definition store_typed :: "tyenv \<Rightarrow> vcb_ref set \<Rightarrow> store \<Rightarrow> bool" where
  "store_typed \<Gamma> L s \<longleftrightarrow> (\<forall>x \<in> L. type_id (s x) = \<Gamma> x)"

lemma ctx_okD:
  assumes "ctx_ok \<Gamma> L (w, tx)"
  shows "world_ok \<Gamma> w" and "set (vcb_live w) = L" and "log_ok \<Gamma> L w (vars tx)"
    and "log_current w (vars tx)" and "btm_ok (vars tx)"
  using assms by (auto simp: ctx_ok_def log_ok_def)

lemma ctx_okI:
  assumes "world_ok \<Gamma> w" and "set (vcb_live w) = L" and "log_ok \<Gamma> L w (vars tx)"
    and "log_current w (vars tx)"
  shows "ctx_ok \<Gamma> L (w, tx)"
  using assms by (simp add: ctx_ok_def)

text \<open>The box a transaction sees in a live variable is allocated and has the variable's type.\<close>

lemma seen_arc_typed:
  assumes "ctx_ok \<Gamma> L (w, tx)" and "x \<in> L"
  shows "arc_typed w (\<Gamma> x) (seen_arc w (vars tx) x)"
proof (cases "Option.bind (btm_get (vars tx) x) pending_value")
  case None
  then show ?thesis
    using world_okD [OF ctx_okD(1) [OF assms(1)]] ctx_okD(2) [OF assms(1)] assms(2)
    by (simp add: seen_arc_def)
next
  case (Some a)
  then obtain e where "btm_get (vars tx) x = Some e" and "pending_value e = Some a"
    by (auto simp: bind_eq_Some_conv)
  with log_okD(2) [OF ctx_okD(3) [OF assms(1)]] Some show ?thesis
    by (fastforce simp: seen_arc_def entry_ok_def)
qed

lemma view_live:
  "ctx_ok \<Gamma> L (w, tx) \<Longrightarrow> x \<in> L \<Longrightarrow> view w (vars tx) x = deref (heap w) (seen_arc w (vars tx) x)"
  using ctx_okD(2) by (auto simp: view_def)

lemma view_typed: "ctx_ok \<Gamma> L (w, tx) \<Longrightarrow> store_typed \<Gamma> L (view w (vars tx))"
  using seen_arc_typed view_live unfolding store_typed_def arc_typed_def by metis

lemma seen_arc_only_allocates: "only_allocates w w' \<Longrightarrow> seen_arc w' m x = seen_arc w m x"
  by (simp add: seen_arc_def only_allocatesD cong: option.case_cong)

lemma ctx_ok_only_allocates:
  assumes "ctx_ok \<Gamma> L (w, tx)" and "only_allocates w w'"
  shows "ctx_ok \<Gamma> L (w', tx)"
proof (rule ctx_okI)
  show "world_ok \<Gamma> w'"
    by (rule world_ok_mono [OF ctx_okD(1) [OF assms(1)]])
      (simp_all add: only_allocatesD [OF assms(2)])
  show "log_ok \<Gamma> L w' (vars tx)"
    by (rule log_ok_mono [OF ctx_okD(3) [OF assms(1)]]) (rule only_allocatesD(1) [OF assms(2)])
  show "set (vcb_live w') = L" and "log_current w' (vars tx)"
    using ctx_okD(2,4) [OF assms(1)]
    by (simp_all add: log_current_def only_allocatesD [OF assms(2)])
qed

lemma view_only_allocates:
  assumes "ctx_ok \<Gamma> L (w, tx)" and "only_allocates w w'"
  shows "view w' (vars tx) = view w (vars tx)"
proof
  fix x
  show "view w' (vars tx) x = view w (vars tx) x"
  proof (cases "x \<in> L")
    case True
    with seen_arc_typed [OF assms(1) True] show ?thesis
      by (simp add: view_live [OF assms(1)] view_live [OF ctx_ok_only_allocates [OF assms]]
          seen_arc_only_allocates [OF assms(2)] arc_typed_def
          extends_deref [OF only_allocatesD(1) [OF assms(2)]])
  next
    case False
    then show ?thesis
      using ctx_okD(2) [OF assms(1)] by (simp add: view_def only_allocatesD [OF assms(2)])
  qed
qed

subsection \<open>Returning and sequencing\<close>

lemma refines_return: "refines \<Gamma> L (return_action r) (spec_return r)"
  by (rule refinesI) (auto simp: return_action_def spec_return_def)

lemma refines_bind:
  assumes "refines \<Gamma> L A S"
    and "\<And>s x s'. store_typed \<Gamma> L s \<Longrightarrow> S s = (Inr x, s') \<Longrightarrow> refines \<Gamma> L (K x) (T x)"
  shows "refines \<Gamma> L (bind_action A K) (spec_bind S T)"
proof (rule refinesI)
  fix w :: world and tx :: Transaction
  assume ok: "ctx_ok \<Gamma> L (w, tx)"
  from refinesE [OF assms(1) ok] obtain r w1 tx1
    where A: "A (w, tx) = (Return r, w1, tx1)" and ok1: "ctx_ok \<Gamma> L (w1, tx1)"
      and al: "only_allocates w w1" and S: "S (view w (vars tx)) = (r, view w1 (vars tx1))"
    by blast
  show "\<exists>r w' tx'. bind_action A K (w, tx) = (Return r, w', tx') \<and> ctx_ok \<Gamma> L (w', tx') \<and>
      only_allocates w w' \<and> spec_bind S T (view w (vars tx)) = (r, view w' (vars tx'))"
  proof (cases r)
    case (Inl e)
    with A ok1 al S show ?thesis by (simp add: bind_action_def spec_bind_def)
  next
    case (Inr x)
    from assms(2) [OF view_typed [OF ok]] S Inr have "refines \<Gamma> L (K x) (T x)" by blast
    from refinesE [OF this ok1] obtain r' w2 tx2
      where "K x (w1, tx1) = (Return r', w2, tx2)" and "ctx_ok \<Gamma> L (w2, tx2)"
        and "only_allocates w1 w2" and "T x (view w1 (vars tx1)) = (r', view w2 (vars tx2))"
      by blast
    with A S Inr show ?thesis
      by (auto simp: bind_action_def spec_bind_def intro: only_allocates_trans [OF al])
  qed
qed

subsection \<open>Reading and writing\<close>

lemma read_entry_current:
  assumes "ctx_ok \<Gamma> L (w, tx)"
  shows "fst (read_entry w x (vars tx)) = seen_arc w (vars tx) x"
    and "pending_value (snd (read_entry w x (vars tx))) =
      Option.bind (btm_get (vars tx) x) pending_value"
    and "into_read_value (snd (read_entry w x (vars tx))) = Some a \<Longrightarrow> a = value_arc w x"
proof -
  have cur: "into_read_value e = Some a \<Longrightarrow> a = value_arc w x"
    if "btm_get (vars tx) x = Some e" for e a
    using ctx_okD(4) [OF assms] that by (auto simp: log_current_def)
  show "fst (read_entry w x (vars tx)) = seen_arc w (vars tx) x"
  proof (cases "btm_get (vars tx) x")
    case (Some e)
    then show ?thesis using cur [OF Some] lv.some_value [of e]
      by (cases "into_read_value e")
        (auto simp: read_entry_def seen_arc_def lv.read_value split: option.split)
  qed (simp add: read_entry_def seen_arc_def)
  show "pending_value (snd (read_entry w x (vars tx))) =
      Option.bind (btm_get (vars tx) x) pending_value"
    by (simp add: read_entry_def lv.read_pending split: option.split)
  show "into_read_value (snd (read_entry w x (vars tx))) = Some a \<Longrightarrow> a = value_arc w x"
    using cur by (auto simp: read_entry_def lv.read_orig split: option.splits)
qed

lemma entry_ok_read_entry:
  assumes "ctx_ok \<Gamma> L (w, tx)" and "x \<in> L"
  shows "entry_ok w (\<Gamma> x) (snd (read_entry w x (vars tx)))"
proof (cases "btm_get (vars tx) x")
  case None
  then show ?thesis
    using world_okD [OF ctx_okD(1) [OF assms(1)], of x] ctx_okD(2) [OF assms(1)] assms(2)
    by (simp add: read_entry_def)
next
  case (Some e)
  with log_okD(2) [OF ctx_okD(3) [OF assms(1)]] show ?thesis
    by (simp add: read_entry_def entry_ok_read)
qed

lemma refines_read:
  assumes "var_ok \<Gamma> L v"
  shows "refines \<Gamma> L (Transaction_read v) (spec_read (control_block v))"
proof (rule refinesI)
  fix w :: world and tx :: Transaction
  let ?x = "control_block v"
  let ?e = "snd (read_entry w ?x (vars tx))"
  let ?tx = "tx\<lparr>vars := btm_insert ?x ?e (vars tx)\<rparr>"
  assume ok: "ctx_ok \<Gamma> L (w, tx)"
  have x: "?x \<in> L" and mk: "marker v = \<Gamma> ?x" using assms by (simp_all add: var_ok_def)
  have seen: "seen_arc w (vars ?tx) = seen_arc w (vars tx)"
    using ctx_okD(5) [OF ok] by (simp add: fun_eq_iff seen_arc_def read_entry_current(2) [OF ok])
  have "ctx_ok \<Gamma> L (w, ?tx)"
  proof (rule ctx_okI)
    show "log_ok \<Gamma> L w (vars ?tx)"
      using ctx_okD(3) [OF ok] x entry_ok_read_entry [OF ok x] by (simp add: log_ok_insert)
    show "log_current w (vars ?tx)"
      using ctx_okD(4,5) [OF ok] read_entry_current(3) [OF ok]
      by (auto simp: log_current_def)
  qed (use ctx_okD [OF ok] in auto)
  moreover have "Transaction_read v (w, tx) = (Return (Inr (view w (vars tx) ?x)), w, ?tx)"
    using seen_arc_typed [OF ok x] mk
    by (simp add: Transaction_read_eq read_entry_current(1) [OF ok] Transaction_downcast_def
        downcast_ref_def arc_typed_def view_live [OF ok x])
  moreover have "spec_read ?x (view w (vars tx)) = (Inr (view w (vars tx) ?x), view w (vars ?tx))"
    unfolding spec_read_def view_def seen by simp
  ultimately show "\<exists>r w' tx'. Transaction_read v (w, tx) = (Return r, w', tx') \<and>
      ctx_ok \<Gamma> L (w', tx') \<and> only_allocates w w' \<and>
      spec_read ?x (view w (vars tx)) = (r, view w' (vars tx'))"
    by blast
qed

lemma refines_write:
  assumes "var_ok \<Gamma> L v" and "type_id y = marker v"
  shows "refines \<Gamma> L (Transaction_write v y) (spec_write (control_block v) y)"
proof (rule refinesI)
  fix w :: world and tx :: Transaction
  let ?x = "control_block v"
  let ?a = "next_arc (heap w)"
  let ?w = "snd (alloc_arc y w)"
  let ?e = "write_entry ?a ?x (vars tx)"
  let ?tx = "tx\<lparr>vars := btm_insert ?x ?e (vars tx)\<rparr>"
  assume ok0: "ctx_ok \<Gamma> L (w, tx)"
  have ok: "ctx_ok \<Gamma> L (?w, tx)" by (rule ctx_ok_only_allocates [OF ok0]) simp
  have x: "?x \<in> L" and ty: "type_id y = \<Gamma> ?x" using assms by (simp_all add: var_ok_def)
  have a: "arc_typed ?w (\<Gamma> ?x) ?a" using arc_typed_alloc [of y w] ty by simp
  have pend: "pending_value ?e = Some ?a"
    by (simp add: write_entry_def lv.write_pending split: option.split)
  have orig: "into_read_value ?e = Option.bind (btm_get (vars tx) ?x) into_read_value"
    by (simp add: write_entry_def lv.write_orig split: option.split)
  have "entry_ok ?w (\<Gamma> ?x) ?e"
    using a log_okD(2) [OF ctx_okD(3) [OF ok], of ?x]
    by (auto simp: write_entry_def intro: entry_ok_write split: option.split)
  then have ok': "ctx_ok \<Gamma> L (?w, ?tx)"
    using ctx_okD [OF ok] x
    by (intro ctx_okI) (auto simp: log_ok_insert log_current_def orig bind_eq_Some_conv)
  have "view ?w (vars ?tx) = (view w (vars tx))(?x := y)"
  proof
    fix z
    have "view ?w (vars ?tx) z = (if z = ?x then y else view ?w (vars tx) z)"
      using ctx_okD(2,5) [OF ok] x by (auto simp: view_def seen_arc_def pend)
    also have "view ?w (vars tx) = view w (vars tx)"
      by (rule view_only_allocates [OF ok0]) simp
    finally show "view ?w (vars ?tx) z = ((view w (vars tx))(?x := y)) z" by simp
  qed
  then have "spec_write ?x y (view w (vars tx)) = (Inr (), view ?w (vars ?tx))"
    by (simp add: spec_write_def)
  moreover have "Transaction_write v y (w, tx) = (Return (Inr ()), ?w, ?tx)"
    by (rule Transaction_write_eq)
  ultimately show "\<exists>r w' tx'. Transaction_write v y (w, tx) = (Return r, w', tx') \<and>
      ctx_ok \<Gamma> L (w', tx') \<and> only_allocates w w' \<and>
      spec_write ?x y (view w (vars tx)) = (r, view w' (vars tx'))"
    using ok' by blast
qed

subsection \<open>Alternatives\<close>

lemma ctx_ok_combine:
  assumes "ctx_ok \<Gamma> L (w, tx)" and "ctx_ok \<Gamma> L (w, other)"
  shows "ctx_ok \<Gamma> L (w, Transaction_combine tx other)"
proof (rule ctx_okI)
  show "log_ok \<Gamma> L w (vars (Transaction_combine tx other))"
    by (rule log_ok_combine [OF ctx_okD(3) [OF assms(1)] ctx_okD(3) [OF assms(2)]])
  show "log_current w (vars (Transaction_combine tx other))"
    using ctx_okD(4) [OF assms(1)] ctx_okD(4) [OF assms(2)]
    by (auto simp: log_current_def get_combine [OF ctx_okD(5) [OF assms(1)] ctx_okD(5) [OF assms(2)]]
        bind_eq_Some_conv obsolete_Some split: option.splits)
qed (use ctx_okD [OF assms(1)] in auto)

lemma seen_arc_combine:
  assumes "btm_ok (vars tx)" and "btm_ok (vars other)"
  shows "seen_arc w (vars (Transaction_combine tx other)) = seen_arc w (vars tx)"
proof
  fix x
  have "Option.bind (Option.bind y obsolete) pending_value = None" for y
    by (cases y; simp add: obsolete_def split: option.split; cases "the y"; simp)
  then show "seen_arc w (vars (Transaction_combine tx other)) x = seen_arc w (vars tx) x"
    by (simp add: seen_arc_def get_combine [OF assms] split: option.split)
qed

lemma refines_or:
  assumes "refines \<Gamma> L A S" and "refines \<Gamma> L B T"
  shows "refines \<Gamma> L (Transaction_or A B) (spec_or S T)"
proof (rule refinesI)
  fix w :: world and tx :: Transaction
  assume ok: "ctx_ok \<Gamma> L (w, tx)"
  from refinesE [OF assms(1) ok] obtain r w1 tx1
    where A: "A (w, tx) = (Return r, w1, tx1)" and ok1: "ctx_ok \<Gamma> L (w1, tx1)"
      and al: "only_allocates w w1" and S: "S (view w (vars tx)) = (r, view w1 (vars tx1))"
    by blast
  show "\<exists>r w' tx'. Transaction_or A B (w, tx) = (Return r, w', tx') \<and> ctx_ok \<Gamma> L (w', tx') \<and>
      only_allocates w w' \<and> spec_or S T (view w (vars tx)) = (r, view w' (vars tx'))"
  proof (cases "r = Inl Retry")
    case False
    then have "Transaction_or A B (w, tx) = (Return r, w1, tx1)"
      and "spec_or S T (view w (vars tx)) = (r, view w1 (vars tx1))"
      using A S by (auto simp: Transaction_or_def spec_or_def split: sum.split StmError.split)
    with ok1 al show ?thesis by blast
  next
    case True
    have okc: "ctx_ok \<Gamma> L (w1, \<lparr>vars = vars tx\<rparr>)"
      using ctx_ok_only_allocates [OF ok al] by (simp add: ctx_ok_def)
    from refinesE [OF assms(2) okc] obtain r2 w2 tx2
      where B: "B (w1, \<lparr>vars = vars tx\<rparr>) = (Return r2, w2, tx2)"
        and ok2: "ctx_ok \<Gamma> L (w2, tx2)" and al2: "only_allocates w1 w2"
        and T: "T (view w1 (vars tx)) = (r2, view w2 (vars tx2))"
      by auto
    have spec: "spec_or S T (view w (vars tx)) = (r2, view w2 (vars tx2))"
      using S True T view_only_allocates [OF ok al] by (simp add: spec_or_def)
    have al': "only_allocates w w2" by (rule only_allocates_trans [OF al al2])
    show ?thesis
    proof (cases "r2 = Inl Failure")
      case True2: True
      have "Transaction_or A B (w, tx) = (Return r2, w2, tx2)"
        using A True B True2 by (simp add: Transaction_or_def)
      with spec ok2 al' show ?thesis by blast
    next
      case False
      let ?c = "Transaction_combine tx2 tx1"
      have ok1': "ctx_ok \<Gamma> L (w2, tx1)" by (rule ctx_ok_only_allocates [OF ok1 al2])
      have "Transaction_or A B (w, tx) = (Return r2, w2, ?c)"
        using A True B False
        by (auto simp: Transaction_or_def split: sum.split StmError.split)
      moreover have "view w2 (vars ?c) = view w2 (vars tx2)"
        unfolding view_def seen_arc_combine [OF ctx_okD(5) [OF ok2] ctx_okD(5) [OF ok1']] ..
      ultimately show ?thesis using spec ctx_ok_combine [OF ok2 ok1'] al' by auto
    qed
  qed
qed

subsection \<open>Every closure\<close>

lemma interp_refines: "prog_ok \<Gamma> L p \<Longrightarrow> refines \<Gamma> L (interp p) (spec p)"
proof (induction p)
  case (Done r)
  show ?case by (simp add: refines_return)
next
  case (ReadVar v k)
  then have v: "var_ok \<Gamma> L v" by simp
  show ?case
    unfolding interp.simps spec.simps
  proof (rule refines_bind [OF refines_read [OF v]])
    fix s x s'
    assume "store_typed \<Gamma> L s" and "spec_read (control_block v) s = (Inr x, s')"
    then have "type_id x = marker v"
      using v by (auto simp: store_typed_def spec_read_def var_ok_def)
    with ReadVar show "refines \<Gamma> L (interp (k x)) (spec (k x))" by simp
  qed
next
  case (WriteVar v x p)
  then show ?case by (auto intro: refines_bind refines_write)
next
  case (OrElse p q k)
  then show ?case by (auto intro: refines_bind refines_or)
qed

end
