(* ===== verification/Runtime.thy ===== *)
theory Runtime
  imports Refinement
begin

text \<open>
  The top level of \<^verbatim>\<open>transaction/mod.rs\<close> and \<^verbatim>\<open>lib.rs\<close>: the guard against nested transactions, the
  retry loop \<^verbatim>\<open>with_control\<close>, \<^verbatim>\<open>with\<close>, \<^verbatim>\<open>atomically\<close> and the benchmark entry points. The loop may run
  for ever (a closure may always fail) or sleep for ever, so it is given fuel, one unit per
  iteration, and both are outcomes of their own. What other threads do to the shared world is an
  argument: \<open>interfere\<close> acts after the closure has run and before its log is used,
  \<open>while_parked\<close> while the thread sleeps. If that leaves its flag set the outcome is \<open>Parked\<close>; what may still happen
  to the sleeper later is not in this function, but in the machine (\<open>Machine\<close>).
\<close>

datatype TransactionControl = ControlRetry | ControlAbort

type_synonym 'c control = "'c \<Rightarrow> StmError \<Rightarrow> TransactionControl \<times> 'c"

datatype 'a outcome = Finished 'a | Panicked string | Parked | OutOfFuel

record env =
  interfere :: "nat \<Rightarrow> world \<Rightarrow> world"
  while_parked :: "nat \<Rightarrow> world \<Rightarrow> world"

definition alone :: env where
  "alone = \<lparr>interfere = (\<lambda>_ w. w), while_parked = (\<lambda>_ w. w)\<rparr>"

subsection \<open>The guard\<close>

definition TransactionGuard_new :: "tid \<Rightarrow> world \<Rightarrow> world may_panic" where
  "TransactionGuard_new t w =
     (if running w t then Panic ''STM: Nested Transaction''
      else Return (w\<lparr>running := (running w)(t := True)\<rparr>))"

definition TransactionGuard_drop :: "tid \<Rightarrow> world \<Rightarrow> world" where
  "TransactionGuard_drop t w = w\<lparr>running := (running w)(t := False)\<rparr>"

lemma guard_drop_simps [simp]:
  "heap (TransactionGuard_drop t w) = heap w"
  "vcbs (TransactionGuard_drop t w) = vcbs w"
  "vcb_live (TransactionGuard_drop t w) = vcb_live w"
  "cbs (TransactionGuard_drop t w) = cbs w"
  "cb_strong (TransactionGuard_drop t w) = cb_strong w"
  "next_cb (TransactionGuard_drop t w) = next_cb w"
  "tokens (TransactionGuard_drop t w) = tokens w"
  "running (TransactionGuard_drop t w) = (running w)(t := False)"
  by (simp_all add: TransactionGuard_drop_def)

subsection \<open>The loop\<close>

fun with_control_loop ::
    "nat \<Rightarrow> nat \<Rightarrow> env \<Rightarrow> tid \<Rightarrow> 'c control \<Rightarrow> 'c \<Rightarrow> 'a action \<Rightarrow> ctx \<Rightarrow> 'a option outcome \<times> world"
where
  "with_control_loop 0 i env t control c f (w, tx) = (OutOfFuel, w)"
| "with_control_loop (Suc n) i env t control c f (w, tx) =
     (case f (w, tx) of
        (Panic m, w1, tx1) \<Rightarrow> (Panicked m, w1)
      | (Return (Inr x), w1, tx1) \<Rightarrow>
          (case Transaction_commit (interfere env i w1, tx1) of
             (True, w2, tx2) \<Rightarrow> (Finished (Some x), w2)
           | (False, w2, tx2) \<Rightarrow>
               with_control_loop n (Suc i) env t control c f (w2, Transaction_clear tx2))
      | (Return (Inl e), w1, tx1) \<Rightarrow>
          (case control c e of
             (ControlAbort, c') \<Rightarrow> (Finished None, w1)
           | (ControlRetry, c') \<Rightarrow>
               (if e = Retry
                then (case Transaction_wait_for_change t (while_parked env i)
                             (interfere env i w1, tx1) of
                        None \<Rightarrow> (Parked, interfere env i w1)
                      | Some (w2, tx2) \<Rightarrow>
                          with_control_loop n (Suc i) env t control c' f
                            (w2, Transaction_clear tx2))
                else with_control_loop n (Suc i) env t control c' f
                       (w1, Transaction_clear tx1))))"

definition with_control ::
    "nat \<Rightarrow> env \<Rightarrow> tid \<Rightarrow> 'c control \<Rightarrow> 'c \<Rightarrow> 'a action \<Rightarrow> world \<Rightarrow> 'a option outcome \<times> world"
where
  "with_control fuel env t control c f w =
     (case TransactionGuard_new t w of
        Panic m \<Rightarrow> (Panicked m, w)
      | Return w0 \<Rightarrow>
          (case with_control_loop fuel 0 env t control c f (w0, Transaction_new) of
             (Finished r, w1) \<Rightarrow> (Finished r, TransactionGuard_drop t w1)
           | (Panicked m, w1) \<Rightarrow> (Panicked m, TransactionGuard_drop t w1)
           | (Parked, w1) \<Rightarrow> (Parked, w1)
           | (OutOfFuel, w1) \<Rightarrow> (OutOfFuel, w1)))"

definition Transaction_with :: "nat \<Rightarrow> env \<Rightarrow> tid \<Rightarrow> 'a action \<Rightarrow> world \<Rightarrow> 'a outcome \<times> world" where
  "Transaction_with fuel env t f w =
     (case with_control fuel env t (\<lambda>c _. (ControlRetry, c)) () f w of
        (Finished (Some x), w') \<Rightarrow> (Finished x, w')
      | (Finished None, w') \<Rightarrow> (Panicked ''internal error: entered unreachable code'', w')
      | (Panicked m, w') \<Rightarrow> (Panicked m, w')
      | (Parked, w') \<Rightarrow> (Parked, w')
      | (OutOfFuel, w') \<Rightarrow> (OutOfFuel, w'))"

definition atomically :: "nat \<Rightarrow> env \<Rightarrow> tid \<Rightarrow> 'a action \<Rightarrow> world \<Rightarrow> 'a outcome \<times> world" where
  "atomically fuel env t f w = Transaction_with fuel env t f w"

subsection \<open>The entry points of the benchmarks\<close>

definition new_standalone :: Transaction where
  "new_standalone = \<lparr>vars = []\<rparr>"

definition commit_standalone :: "ctx \<Rightarrow> bool \<times> ctx" where
  "commit_standalone c = Transaction_commit c"

definition init_transaction :: Transaction where
  "init_transaction = new_standalone"

definition commit_transaction :: "ctx \<Rightarrow> bool \<times> ctx" where
  "commit_transaction c = commit_standalone c"

subsection \<open>The guard and the unreachable branch\<close>

text \<open>A loop whose control never aborts only finishes with a value.\<close>

lemma loop_never_aborts:
  assumes "\<And>c e. fst (control c e) = ControlRetry"
  shows "fst (with_control_loop n i env t control c f (w, tx)) \<noteq> Finished None"
proof (induction n arbitrary: i c w tx)
  case (Suc n)
  have "control c e = (ControlRetry, snd (control c e))" for c e
    using assms [of c e] by (cases "control c e") simp
  then show ?case
    using Suc.IH
    by (auto simp: Suc.IH split: prod.splits may_panic.splits sum.splits bool.splits option.splits
        TransactionControl.splits) (metis TransactionControl.distinct(1) fst_conv)+
qed simp

end
