(* ===== verification/Waiting.thy ===== *)
theory Waiting
  imports Runtime
begin

text \<open>
  What \<^verbatim>\<open>wait_for_change\<close> does: when it sleeps, when it is woken, and which changes wake nobody.
\<close>

subsection \<open>The registration phase\<close>

definition log_originals :: "(vcb_ref \<times> LogVar) list \<Rightarrow> (vcb_ref \<times> arc) list" where
  "log_originals log = concat (map (\<lambda>(x, e).
     case into_read_value e of None \<Rightarrow> [] | Some a \<Rightarrow> [(x, a)]) log)"

definition all_current :: "world \<Rightarrow> (vcb_ref \<times> LogVar) list \<Rightarrow> bool" where
  "all_current w log \<longleftrightarrow> (\<forall>(x, a) \<in> set (log_originals log). a = value_arc w x)"

lemma log_originals_simps [simp]:
  "log_originals [] = []"
  "log_originals ((x, e) # log) =
    (case into_read_value e of None \<Rightarrow> log_originals log | Some a \<Rightarrow> (x, a) # log_originals log)"
  by (simp_all add: log_originals_def split: option.split)

lemma mem_log_originals:
  "(x, a) \<in> set (log_originals log) \<longleftrightarrow> (\<exists>e. (x, e) \<in> set log \<and> into_read_value e = Some a)"
  by (induction log) (auto split: option.splits)

lemma all_current_simps [simp]:
  "all_current w []"
  "all_current w ((x, e) # log) \<longleftrightarrow>
    (\<forall>a. into_read_value e = Some a \<longrightarrow> a = value_arc w x) \<and> all_current w log"
  by (auto simp: all_current_def split: option.split)

text \<open>Registration changes the waiting lists only.\<close>

definition registers :: "cb_ref \<Rightarrow> vcb_ref list \<Rightarrow> world \<Rightarrow> world" where
  "registers c xs w = fold (\<lambda>x. VarControlBlock_wait x c) xs w"

lemma registers_simps [simp]:
  "heap (registers c xs w) = heap w"
  "vcb_live (registers c xs w) = vcb_live w"
  "cbs (registers c xs w) = cbs w"
  "cb_strong (registers c xs w) = cb_strong w"
  "next_cb (registers c xs w) = next_cb w"
  "tokens (registers c xs w) = tokens w"
  "running (registers c xs w) = running w"
  "value_arc (registers c xs w) x = value_arc w x"
  "dead_threads (vcbs (registers c xs w) x) = dead_threads (vcbs w x)"
  "cb_alive (registers c xs w) = cb_alive w"
  by (induction xs arbitrary: w) (simp_all add: registers_def)

lemma waiters_registers:
  "waiters (registers c xs w) x = waiters w x @ replicate (count_list xs x) c"
proof (induction xs arbitrary: w)
  case (Cons y xs)
  have "registers c (y # xs) w = registers c xs (VarControlBlock_wait y c w)"
    by (simp add: registers_def)
  with Cons.IH [of "VarControlBlock_wait y c w"] show ?case by simp
qed (simp add: registers_def)

lemma set_waiters_registers:
  "set (waiters (registers c xs w) x) = set (waiters w x) \<union> (if x \<in> set xs then {c} else {})"
  by (auto simp: waiters_registers set_replicate_conv_if count_list_0_iff)

text \<open>
  The variables that get registered: all that were read if none has changed, otherwise those up
  to and including the first changed one.
\<close>

fun registered :: "world \<Rightarrow> (vcb_ref \<times> arc) list \<Rightarrow> vcb_ref list" where
  "registered w [] = []"
| "registered w ((x, a) # oas) = x # (if a = value_arc w x then registered w oas else [])"

lemma registered_cong:
  "(\<And>x. value_arc w' x = value_arc w x) \<Longrightarrow> registered w' oas = registered w oas"
  by (induction w oas rule: registered.induct) auto

lemma wait_register_eq:
  "wait_register c log reads w =
    (all_current w log, reads @ registered w (log_originals log),
     registers c (registered w (log_originals log)) w)"
proof (induction log arbitrary: reads w)
  case Nil
  then show ?case by (simp add: registers_def)
next
  case (Cons xe log)
  obtain x e where xe: "xe = (x, e)" by (cases xe)
  show ?case
  proof (cases "into_read_value e")
    case None
    with Cons show ?thesis by (simp add: xe)
  next
    case (Some a)
    let ?w = "VarControlBlock_wait x c w"
    have "registered ?w oas = registered w oas" for oas by (rule registered_cong) simp
    moreover have "all_current ?w log = all_current w log" by (simp add: all_current_def)
    ultimately show ?thesis
      using Some Cons.IH [of "reads @ [x]" ?w] by (simp add: xe registers_def)
  qed
qed

lemma registered_all:
  "\<forall>(x, a) \<in> set oas. a = value_arc w x \<Longrightarrow> registered w oas = map fst oas"
  by (induction w oas rule: registered.induct) auto

subsection \<open>Sleeping and waking\<close>

text \<open>The world in which the thread goes to sleep, and its control block.\<close>

definition asleep :: "tid \<Rightarrow> ctx \<Rightarrow> world" where
  "asleep t c = registers (next_cb (fst c)) (map fst (log_originals (vars (snd c))))
     (snd (cb_alloc t (fst c)))"

definition awake :: "cb_ref \<Rightarrow> vcb_ref list \<Rightarrow> world \<Rightarrow> world" where
  "awake c reads w = cb_drop c (fold VarControlBlock_set_dead reads w)"

lemma fold_set_dead_simps [simp]:
  "heap (fold VarControlBlock_set_dead xs w) = heap w"
  "vcb_live (fold VarControlBlock_set_dead xs w) = vcb_live w"
  "value_arc (fold VarControlBlock_set_dead xs w) x = value_arc w x"
  "cbs (fold VarControlBlock_set_dead xs w) = cbs w"
  "cb_strong (fold VarControlBlock_set_dead xs w) = cb_strong w"
  "tokens (fold VarControlBlock_set_dead xs w) = tokens w"
  "running (fold VarControlBlock_set_dead xs w) = running w"
  "next_cb (fold VarControlBlock_set_dead xs w) = next_cb w"
  by (induction xs arbitrary: w) simp_all

lemma all_current_cb_alloc [simp]:
  "all_current (snd (cb_alloc t w)) log = all_current w log"
  by (simp add: all_current_def)

lemma wait_changed:
  assumes "\<not> all_current w (vars tx)"
  shows "Transaction_wait_for_change t others (w, tx) =
    Some (awake (next_cb w) (registered w (log_originals (vars tx)))
            (registers (next_cb w) (registered w (log_originals (vars tx))) (snd (cb_alloc t w))),
          Transaction_clear tx)"
proof -
  have "registered (snd (cb_alloc t w)) oas = registered w oas" for oas
    by (rule registered_cong) simp
  then show ?thesis
    using assms
    by (simp add: Transaction_wait_for_change_def split_def Let_def wait_register_eq btm_iter_def
        awake_def Transaction_clear_def)
qed

lemma wait_unchanged:
  assumes "all_current w (vars tx)"
  shows "Transaction_wait_for_change t others (w, tx) =
    (if blocked (cbs (others (asleep t (w, tx))) (next_cb w)) then None
     else Some (awake (next_cb w) (map fst (log_originals (vars tx))) (others (asleep t (w, tx))),
                Transaction_clear tx))"
proof -
  have "registered (snd (cb_alloc t w)) (log_originals (vars tx)) =
      map fst (log_originals (vars tx))"
    by (rule registered_all) (use assms in \<open>simp add: all_current_def\<close>)
  then show ?thesis
    using assms
    by (simp add: Transaction_wait_for_change_def split_def Let_def wait_register_eq btm_iter_def
        awake_def asleep_def Transaction_clear_def)
qed

lemma asleep_simps [simp]:
  "cbs (asleep t (w, tx)) (next_cb w) = ControlBlock_new t"
  "cb_alive (asleep t (w, tx)) (next_cb w)"
  "value_arc (asleep t (w, tx)) x = value_arc w x"
  "x \<in> fst ` set (log_originals (vars tx)) \<Longrightarrow> next_cb w \<in> set (waiters (asleep t (w, tx)) x)"
  by (simp_all add: asleep_def set_waiters_registers cb_alive_def)

lemma blocked_new [simp]: "blocked (ControlBlock_new t)"
  by (simp add: ControlBlock_new_def)

text \<open>
  A retrying transaction is not put to sleep on stale data and is not left asleep by a commit:
  if a variable it read has changed before it registered, \<^verbatim>\<open>wait_for_change\<close> returns whatever the
  others do; and if it does sleep, the commit of any transaction that writes a variable it read,
  on a live or on an abandoned path, wakes it up.
\<close>

theorem commit_wakes_waiting_transaction:
  fixes w :: world and tx other :: Transaction
  assumes "btm_ok (vars other)"
    and "fst (Transaction_commit (asleep t (w, tx), other))"
    and "(x, a) \<in> set (log_originals (vars tx))"
    and "Option.bind (btm_get (vars other) x) pending_value \<noteq> None"
  shows "Transaction_wait_for_change t (\<lambda>w. fst (snd (Transaction_commit (w, other)))) (w, tx)
      \<noteq> None \<and>
    (a \<noteq> value_arc w x \<longrightarrow> (\<forall>others. Transaction_wait_for_change t others (w, tx) \<noteq> None))"
proof -
  have ok: "log_checks (asleep t (w, tx)) (vars other)"
    using assms(2) by (simp add: commit_result)
  have "x \<in> set (map fst (log_writes (vars other)))"
    unfolding set_log_writes
    using assms(4) btm.iter_mem [OF assms(1)] by (auto simp: btm_iter_def bind_eq_Some_conv)
  moreover have "next_cb w \<in> set (waiters (asleep t (w, tx)) x)"
    using assms(3) by (intro asleep_simps(4)) force
  ultimately have woken: "\<not> blocked
      (cbs (fst (snd (Transaction_commit (asleep t (w, tx), other)))) (next_cb w))"
    by (auto simp: commit_succeeds [OF ok] blocked_fold_wake_all)
  show ?thesis
  proof (cases "all_current w (vars tx)")
    case True
    then have "a = value_arc w x" using assms(3) by (auto simp: all_current_def)
    with True woken show ?thesis by (simp add: wait_unchanged)
  next
    case False
    then show ?thesis by (simp add: wait_changed)
  qed
qed

theorem commit_wakes_waiting_transaction_witness:
  "Transaction_wait_for_change 1
     (\<lambda>w. fst (snd (Transaction_commit (w, \<lparr>vars = [(VCB 16, Write 1)]\<rparr>))))
     (demo_world, \<lparr>vars = [(VCB 16, ReadObsolete 0)]\<rparr>) \<noteq> None"
  by (rule commit_wakes_waiting_transaction [where x = "VCB 16" and a = 0, THEN conjunct1])
    (simp_all add: commit_result btm_get_def btm_ok_def)

text \<open>
  C22. \<^verbatim>\<open>write_atomic\<close> wakes nobody. A transaction that retried after reading a variable sleeps on,
  for good if nothing else happens, when that variable is overwritten with \<^verbatim>\<open>write_atomic\<close>, while
  the same write made by a transaction wakes it up. The documentation calls the two semantically
  equivalent.
\<close>

theorem write_atomic_leaves_waiters_asleep:
  fixes w :: world and tx :: Transaction
  assumes "all_current w (vars tx)"
    and "control_block v \<in> fst ` set (log_originals (vars tx))"
    and "\<not> running w u" and "Suc 0 \<le> fuel"
  shows "Transaction_wait_for_change t (write_atomic v y) (w, tx) = None \<and>
    Transaction_wait_for_change t
      (\<lambda>w. snd (atomically fuel alone u (Transaction_write v y) w)) (w, tx) \<noteq> None"
proof
  show "Transaction_wait_for_change t (write_atomic v y) (w, tx) = None"
    by (simp add: wait_unchanged [OF assms(1)])
  let ?s = "asleep t (w, tx)"
  let ?w1 = "snd (alloc_arc y (?s\<lparr>running := (running ?s)(u := True)\<rparr>))"
  let ?tx = "\<lparr>vars = [(control_block v, Write (next_arc (heap ?s)))]\<rparr>"
  have nr: "\<not> running ?s u" using assms(3) by (simp add: asleep_def)
  obtain n where n: "fuel = Suc n" using assms(4) by (cases fuel) auto
  have wr: "Transaction_write v y (?s\<lparr>running := (running ?s)(u := True)\<rparr>, Transaction_new) =
      (Return (Inr ()), ?w1, ?tx)"
    by (simp add: Transaction_write_eq Transaction_new_def write_entry_def btm_get_def)
  have "snd (atomically fuel alone u (Transaction_write v y) ?s) =
      TransactionGuard_drop u (fst (snd (Transaction_commit (?w1, ?tx))))"
    by (simp add: atomically_def Transaction_with_def with_control_def TransactionGuard_new_def nr
        n wr alone_def commit_succeeds)
  moreover have "\<not> blocked (cbs (fst (snd (Transaction_commit (?w1, ?tx)))) (next_cb w))"
    using asleep_simps(4) [OF assms(2), of w t] asleep_simps(2) [of t w tx]
    by (simp add: commit_succeeds cbs_wake_all cb_alive_def write_back_def)
  ultimately show "Transaction_wait_for_change t
      (\<lambda>w. snd (atomically fuel alone u (Transaction_write v y) w)) (w, tx) \<noteq> None"
    by (simp add: wait_unchanged [OF assms(1)] TransactionGuard_drop_def)
qed

theorem write_atomic_leaves_waiters_asleep_witness:
  "Transaction_wait_for_change 1 (write_atomic demo_x (VInt 5))
     (demo_world, \<lparr>vars = [(VCB 16, Read 0)]\<rparr>) = None"
  by (rule write_atomic_leaves_waiters_asleep [where u = 2 and fuel = 1, THEN conjunct1])
    (simp_all add: demo_x_def demo_world_def empty_world_def empty_arena_def TVar_new_def
      VarControlBlock_new_def alloc_arc_def Arc_new_def)

end
