(* ===== verification/Isolation.thy ===== *)
theory Isolation
  imports Waiting
begin

text \<open>
  Whole transactions that run without interference: a typed closure passed to \<^verbatim>\<open>atomically\<close> or
  \<^verbatim>\<open>with_control\<close> does what its specification says, in one step, or nothing.
\<close>

lemma ctx_ok_new:
  "world_ok \<Gamma> w \<Longrightarrow> ctx_ok \<Gamma> (set (vcb_live w)) (w, Transaction_new)"
  by (simp add: ctx_ok_def Transaction_new_def log_ok_def log_current_def)

lemma view_new [simp]: "view w (vars Transaction_new) = contents w"
  by (simp add: contents_def Transaction_new_def)

lemma ctx_ok_running [simp]:
  "ctx_ok \<Gamma> L (w\<lparr>running := r\<rparr>, tx) = ctx_ok \<Gamma> L (w, tx)"
  by (simp add: ctx_ok_def world_ok_def log_ok_def log_current_def entry_ok_def arc_typed_def
      cong: option.pred_cong)

lemma contents_cong:
  assumes "\<And>x. value_arc w' x = value_arc w x" and "heap w' = heap w" and "vcb_live w' = vcb_live w"
  shows "contents w' = contents w"
  using assms by (simp add: contents_def view_def seen_arc_def fun_eq_iff)

lemma contents_running [simp]: "contents (w\<lparr>running := r\<rparr>) = contents w"
  by (rule contents_cong) simp_all

lemma contents_drop [simp]: "contents (TransactionGuard_drop t w) = contents w"
  by (simp add: TransactionGuard_drop_def)

lemma world_ok_running [simp]: "world_ok \<Gamma> (w\<lparr>running := r\<rparr>) = world_ok \<Gamma> w"
  by (simp add: world_ok_def arc_typed_def)

subsection \<open>Committing an undisturbed log\<close>

lemma log_current_checks: "log_current w m \<Longrightarrow> btm_ok m \<Longrightarrow> log_checks w m"
  using lv.checked_orig by (fastforce simp: log_checks_btm log_current_def)

lemma commit_undisturbed:
  assumes "ctx_ok \<Gamma> L (w, tx)"
  shows "fst (Transaction_commit (w, tx))"
    and "contents (fst (snd (Transaction_commit (w, tx)))) = view w (vars tx)"
    and "world_ok \<Gamma> (fst (snd (Transaction_commit (w, tx))))"
    and "set (vcb_live (fst (snd (Transaction_commit (w, tx))))) = L"
    and "running (fst (snd (Transaction_commit (w, tx)))) = running w"
proof -
  let ?w = "fst (snd (Transaction_commit (w, tx)))"
  have ck: "log_checks w (vars tx)"
    by (rule log_current_checks [OF ctx_okD(4,5) [OF assms]])
  have frame: "heap ?w = heap w" "vcb_live ?w = vcb_live w" "running ?w = running w"
    by (simp_all add: commit_succeeds [OF ck])
  have val: "value_arc ?w x = seen_arc w (vars tx) x" for x
    by (simp add: commit_value [OF ck ctx_okD(5) [OF assms]] seen_arc_def)
  show "fst (Transaction_commit (w, tx))" by (simp add: commit_result ck)
  show "contents ?w = view w (vars tx)"
    by (simp add: contents_def view_def fun_eq_iff frame val seen_arc_def [of ?w])
  show "set (vcb_live ?w) = L" and "running ?w = running w"
    using ctx_okD(2) [OF assms] by (simp_all add: frame)
  show "world_ok \<Gamma> ?w"
    unfolding world_ok_def
    using seen_arc_typed [OF assms] ctx_okD(2) [OF assms] by (simp add: frame val arc_typed_def)
qed

lemma log_current_all_current:
  assumes "log_current w m" and "btm_ok m"
  shows "all_current w m"
  using assms(1) btm.iter_mem [OF assms(2)]
  by (auto simp: all_current_def mem_log_originals log_current_def btm_iter_def)

text \<open>Alone, a retrying transaction sleeps for ever.\<close>

lemma wait_undisturbed:
  assumes "ctx_ok \<Gamma> L (w, tx)"
  shows "Transaction_wait_for_change t (\<lambda>w. w) (w, tx) = None"
  by (simp add: wait_unchanged [OF log_current_all_current [OF ctx_okD(4,5) [OF assms]]])

subsection \<open>One iteration of the loop\<close>

lemma loop_undisturbed:
  assumes "world_ok \<Gamma> w" and "prog_ok \<Gamma> (set (vcb_live w)) p"
  obtains r w1 tx1 where
    "interp p (w, Transaction_new) = (Return r, w1, tx1)"
    and "ctx_ok \<Gamma> (set (vcb_live w)) (w1, tx1)" and "only_allocates w w1"
    and "spec p (contents w) = (r, view w1 (vars tx1))"
  using refinesE [OF interp_refines [OF assms(2)] ctx_ok_new [OF assms(1)]] by auto

text \<open>
  C9. Every closure means what it says: run on a fresh log in a well-typed world in which nobody
  interferes, a typed closure never panics, changes no variable, wakes and registers nobody (it
  only allocates boxes), and returns what the reference semantics returns on the current contents
  of the variables; the store it sees through its log is the store of the reference semantics,
  abandoned alternatives of \<^verbatim>\<open>or\<close> included.
\<close>

theorem closure_refines_specification:
  assumes "world_ok \<Gamma> w" and "prog_ok \<Gamma> (set (vcb_live w)) p"
  shows "\<exists>r w' tx'. interp p (w, Transaction_new) = (Return r, w', tx') \<and>
    only_allocates w w' \<and> contents w' = contents w \<and>
    spec p (contents w) = (r, view w' (vars tx'))"
proof -
  from loop_undisturbed [OF assms] obtain r w1 tx1 where
    1: "interp p (w, Transaction_new) = (Return r, w1, tx1)" "only_allocates w w1"
      "spec p (contents w) = (r, view w1 (vars tx1))" by blast
  have "contents w1 = contents w"
    using view_only_allocates [OF ctx_ok_new [OF assms(1)] 1(2)] by simp
  with 1 show ?thesis by blast
qed

text \<open>
  C8. Atomicity in isolation: \<^verbatim>\<open>with_control\<close> on a typed closure, with no other thread acting, ends
  after one run. If the specification returns a value the call returns it and the variables
  afterwards hold the specification's final store; if it fails and the control function aborts
  the call returns \<^verbatim>\<open>None\<close> and every variable is as before; if it retries and is not aborted the
  thread sleeps for ever. The thread's transaction flag is reset whenever the call returns.
\<close>

theorem with_control_in_isolation:
  assumes "world_ok \<Gamma> w" and "prog_ok \<Gamma> (set (vcb_live w)) p" and "\<not> running w t"
  shows "\<exists>o' w'. with_control (Suc n) alone t control c (interp p) w = (o', w') \<and>
    (case spec p (contents w) of
       (Inr v, s) \<Rightarrow>
         o' = Finished (Some v) \<and> contents w' = s \<and> world_ok \<Gamma> w' \<and> running w' = running w
     | (Inl e, s) \<Rightarrow>
         (if fst (control c e) = ControlAbort
          then o' = Finished None \<and> contents w' = contents w \<and> world_ok \<Gamma> w' \<and>
               running w' = running w
          else e = Retry \<longrightarrow> o' = Parked))"
proof -
  let ?w0 = "w\<lparr>running := (running w)(t := True)\<rparr>"
  have ok0: "world_ok \<Gamma> ?w0" "prog_ok \<Gamma> (set (vcb_live ?w0)) p" using assms by simp_all
  from loop_undisturbed [OF ok0] obtain r w1 tx1 where
    run: "interp p (?w0, Transaction_new) = (Return r, w1, tx1)"
    and ok1: "ctx_ok \<Gamma> (set (vcb_live w)) (w1, tx1)" and al: "only_allocates ?w0 w1"
    and spec: "spec p (contents w) = (r, view w1 (vars tx1))"
    by auto
  have flag: "(running w)(t := False) = running w"
    using assms(3) by (auto simp: fun_eq_iff)
  have run1: "running w1 = (running w)(t := True)" using only_allocatesD(6) [OF al] by simp
  have cont1: "contents w1 = contents w"
    using view_only_allocates [OF ctx_ok_new [OF ok0(1)] al] by simp
  show ?thesis
  proof (cases r)
    case (Inr v)
    note cm = commit_undisturbed [OF ok1]
    obtain w2 tx2 where w2: "Transaction_commit (w1, tx1) = (True, w2, tx2)"
      using cm(1) by (cases "Transaction_commit (w1, tx1)") auto
    then have "with_control (Suc n) alone t control c (interp p) w =
        (Finished (Some v), TransactionGuard_drop t w2)"
      using assms(3) run Inr
      by (simp add: with_control_def TransactionGuard_new_def alone_def)
    then show ?thesis
      using spec Inr cm by (simp add: w2 TransactionGuard_drop_def run1 flag)
  next
    case (Inl e)
    obtain d c' where d: "control c e = (d, c')" by (cases "control c e")
    show ?thesis
    proof (cases d)
      case ControlAbort
      then have "with_control (Suc n) alone t control c (interp p) w =
          (Finished None, TransactionGuard_drop t w1)"
        using assms(3) run Inl d by (simp add: with_control_def TransactionGuard_new_def)
      then show ?thesis
        using spec Inl d ControlAbort ctx_okD(1) [OF ok1] cont1
        by (simp add: TransactionGuard_drop_def run1 flag)
    next
      case ControlRetry
      have "fst (with_control (Suc n) alone t control c (interp p) w) = Parked" if "e = Retry"
        using assms(3) run Inl d ControlRetry that wait_undisturbed [OF ok1]
        by (simp add: with_control_def TransactionGuard_new_def alone_def)
      then show ?thesis
        using spec Inl d ControlRetry
        by (cases "with_control (Suc n) alone t control c (interp p) w") auto
    qed
  qed
qed

subsection \<open>Panics and nesting\<close>

text \<open>A closure that never panics never makes the loop panic.\<close>

lemma loop_panics_only_with_closure:
  assumes "\<And>c. \<not> panics (fst (f c))"
  shows "fst (with_control_loop n i env t control c f (w, tx)) \<noteq> Panicked m"
proof (induction n arbitrary: i c w tx)
  case (Suc n)
  obtain r w1 tx1 where f: "f (w, tx) = (r, w1, tx1)" by (cases "f (w, tx)") auto
  with assms [of "(w, tx)"] obtain x where r: "r = Return x" by (auto simp: not_panics_iff)
  show ?case
  proof (cases x)
    case (Inr v)
    then show ?thesis using Suc.IH by (auto simp: f r split: prod.split bool.split)
  next
    case (Inl e)
    then show ?thesis
      using Suc.IH
      by (auto simp: f r split: prod.split option.split TransactionControl.split)
  qed
qed simp

text \<open>
  The nesting guard: a call made while the thread already runs a transaction panics with
  \<^verbatim>\<open>STM: Nested Transaction\<close> and changes nothing, the outer transaction's flag included; any other
  call that returns or unwinds, whatever the closure, the control function and the other threads
  do, leaves the thread's flag cleared, so that the next transaction can start.
\<close>

theorem nested_transactions_are_refused:
  "(running w t \<longrightarrow>
      with_control fuel env t control c f w = (Panicked ''STM: Nested Transaction'', w)) \<and>
   (\<not> running w t \<longrightarrow>
      (case with_control fuel env t control c f w of
         (Finished r, w') \<Rightarrow> \<not> running w' t
       | (Panicked m, w') \<Rightarrow> \<not> running w' t
       | _ \<Rightarrow> True))"
  by (auto simp: with_control_def TransactionGuard_new_def TransactionGuard_drop_def
      split: prod.split outcome.split)

text \<open>
  C29. The branch \<^verbatim>\<open>None => unreachable!()\<close> of \<^verbatim>\<open>with\<close> is unreachable: with a closure that does not
  panic, and in a thread that is not inside a transaction, \<^verbatim>\<open>atomically\<close> never panics, whatever the
  other threads do and however often it retries.
\<close>

theorem atomically_never_panics:
  assumes "\<And>c. \<not> panics (fst (f c))" and "\<not> running w t"
  shows "fst (atomically fuel env t f w) \<noteq> Panicked m"
proof -
  let ?w = "w\<lparr>running := (running w)(t := True)\<rparr>"
  let ?loop = "with_control_loop fuel 0 env t (\<lambda>c _. (ControlRetry, c)) () f (?w, Transaction_new)"
  have "fst ?loop \<noteq> Finished None" by (rule loop_never_aborts) simp
  moreover have "fst ?loop \<noteq> Panicked k" for k
    by (rule loop_panics_only_with_closure) (rule assms(1))
  ultimately show ?thesis
    using assms(2)
    by (cases ?loop)
      (auto simp: atomically_def Transaction_with_def with_control_def TransactionGuard_new_def
        split: outcome.split option.split)
qed

subsection \<open>Witnesses\<close>

text \<open>
  The closures of the tests \<^verbatim>\<open>transaction_copy\<close> and \<^verbatim>\<open>or_nocommit\<close>: copy \<open>x\<close> into \<open>y\<close>; and
  write 23, retry, and fall back to reading.
\<close>

definition copy_prog :: prog where
  "copy_prog = ReadVar demo_x (\<lambda>r. WriteVar demo_y r (Done (Inr VUnit)))"

definition or_nocommit_prog :: prog where
  "or_nocommit_prog =
     OrElse (WriteVar demo_x (VInt 23) (Done retry)) (ReadVar demo_x (\<lambda>x. Done (Inr x)))
       (\<lambda>x. Done (Inr x))"

lemma demo_progs_ok:
  "prog_ok demo_types (set (vcb_live demo_world)) copy_prog"
  "prog_ok demo_types (set (vcb_live demo_world)) or_nocommit_prog"
  by (simp_all add: copy_prog_def or_nocommit_prog_def var_ok_def demo_types_def demo_x_def
      demo_y_def)

lemma demo_contents:
  "contents demo_world = (\<lambda>_. VUnit)(VCB 16 := VInt 42, VCB 64 := VInt 0)"
  by (auto simp: contents_def view_def seen_arc_def fun_eq_iff)

lemma demo_not_running: "\<not> running demo_world t"
  by (simp add: demo_world_def empty_world_def TVar_new_def VarControlBlock_new_def Let_def split_def)

lemmas spec_defs = spec_bind_def spec_or_def spec_read_def spec_write_def spec_return_def retry_def

theorem closure_refines_specification_witness:
  "\<exists>w' tx'. interp or_nocommit_prog (demo_world, Transaction_new) =
      (Return (Inr (VInt 42)), w', tx') \<and>
    contents w' = contents demo_world \<and> view w' (vars tx') = contents demo_world"
  using closure_refines_specification [OF demo_world_ok demo_progs_ok(2)]
  by (auto simp: or_nocommit_prog_def demo_contents spec_defs demo_x_def)

theorem with_control_in_isolation_witness:
  "\<exists>w'. with_control 1 alone 3 (\<lambda>c _. (ControlAbort, c)) () (interp copy_prog) demo_world =
      (Finished (Some VUnit), w') \<and> contents w' (VCB 64) = VInt 42"
  using with_control_in_isolation [OF demo_world_ok demo_progs_ok(1) demo_not_running,
      where n = 0 and t = 3 and control = "\<lambda>c _. (ControlAbort, c)" and c = "()"]
  by (auto simp: copy_prog_def demo_contents spec_defs demo_x_def demo_y_def)

theorem nested_transactions_are_refused_witness:
  "fst (with_control 1 alone 3 (\<lambda>c _. (ControlAbort, c)) () (interp copy_prog)
      (demo_world\<lparr>running := (\<lambda>_. True)\<rparr>)) = Panicked ''STM: Nested Transaction''"
  using nested_transactions_are_refused [of "demo_world\<lparr>running := (\<lambda>_. True)\<rparr>" 3 1 alone
      "\<lambda>c _. (ControlAbort, c)" "()" "interp copy_prog"]
  by simp

theorem atomically_never_panics_witness:
  "fst (atomically 5 alone 3 (return_action (Inr (VInt 42))) demo_world) \<noteq> Panicked ''STM''"
  by (rule atomically_never_panics) (simp_all add: return_action_def demo_not_running)

end
