(* ===== verification/TVar_Ops.thy ===== *)
theory TVar_Ops
  imports Isolation
begin

text \<open>
  The transactional methods of \<^verbatim>\<open>TVar<T>\<close> (\<^verbatim>\<open>read\<close>, \<^verbatim>\<open>write\<close>, \<^verbatim>\<open>modify\<close>, \<^verbatim>\<open>replace\<close>) and the combinators of
  \<^verbatim>\<open>lib.rs\<close> on transactions, with their specifications on stores. The locale \<open>store_cell\<close> is what a
  transactional variable promises its clients; read-modify-write operations are proved correct
  once inside it.
\<close>

definition TVar_read :: "TVar \<Rightarrow> val action" where
  "TVar_read self = Transaction_read self"

definition TVar_write :: "TVar \<Rightarrow> val \<Rightarrow> unit action" where
  "TVar_write self val = Transaction_write self val"

definition TVar_modify :: "TVar \<Rightarrow> (val \<Rightarrow> val) \<Rightarrow> unit action" where
  "TVar_modify self f = bind_action (TVar_read self) (\<lambda>old. TVar_write self (f old))"

definition TVar_replace :: "TVar \<Rightarrow> val \<Rightarrow> val action" where
  "TVar_replace self val =
     bind_action (TVar_read self) (\<lambda>old.
       bind_action (TVar_write self val) (\<lambda>_. return_action (Inr old)))"

subsection \<open>The contract of a transactional variable\<close>

locale store_cell =
  fixes \<Gamma> :: tyenv and L :: "vcb_ref set"
    and ok :: "'h \<Rightarrow> bool"
    and loc :: "'h \<Rightarrow> vcb_ref"
    and fits :: "'h \<Rightarrow> val \<Rightarrow> bool"
    and rd :: "'h \<Rightarrow> val action"
    and wr :: "'h \<Rightarrow> val \<Rightarrow> unit action"
  assumes rd_spec: "ok h \<Longrightarrow> refines \<Gamma> L (rd h) (spec_read (loc h))"
    and wr_spec: "ok h \<Longrightarrow> fits h v \<Longrightarrow> refines \<Gamma> L (wr h v) (spec_write (loc h) v)"
    and stored_fits: "ok h \<Longrightarrow> store_typed \<Gamma> L s \<Longrightarrow> fits h (s (loc h))"
begin

lemma read_then:
  assumes "ok h" and "\<And>v. fits h v \<Longrightarrow> refines \<Gamma> L (k v) (K v)"
  shows "refines \<Gamma> L (bind_action (rd h) k) (spec_bind (spec_read (loc h)) K)"
proof (rule refines_bind [OF rd_spec [OF assms(1)]])
  fix s x s'
  assume "store_typed \<Gamma> L s" and "spec_read (loc h) s = (Inr x, s')"
  then have "fits h x" using stored_fits [OF assms(1)] by (auto simp: spec_read_def)
  then show "refines \<Gamma> L (k x) (K x)" by (rule assms(2))
qed

lemma modify_spec:
  assumes "ok h" and "\<And>v. fits h v \<Longrightarrow> fits h (f v)"
  shows "refines \<Gamma> L (bind_action (rd h) (\<lambda>v. wr h (f v))) (\<lambda>s. (Inr (), s(loc h := f (s (loc h)))))"
proof -
  have "spec_bind (spec_read (loc h)) (\<lambda>v. spec_write (loc h) (f v)) =
      (\<lambda>s. (Inr (), s(loc h := f (s (loc h)))))"
    by (simp add: fun_eq_iff spec_bind_def spec_read_def spec_write_def)
  with read_then [OF assms(1), of "\<lambda>v. wr h (f v)" "\<lambda>v. spec_write (loc h) (f v)"]
  show ?thesis using wr_spec [OF assms(1)] assms(2) by simp
qed

lemma replace_spec:
  assumes "ok h" and "fits h v"
  shows "refines \<Gamma> L
    (bind_action (rd h) (\<lambda>old. bind_action (wr h v) (\<lambda>_. return_action (Inr old))))
    (\<lambda>s. (Inr (s (loc h)), s(loc h := v)))"
proof -
  let ?K = "\<lambda>old. spec_bind (spec_write (loc h) v) (\<lambda>_. spec_return (Inr old))"
  have "spec_bind (spec_read (loc h)) ?K = (\<lambda>s. (Inr (s (loc h)), s(loc h := v)))"
    by (simp add: fun_eq_iff spec_bind_def spec_read_def spec_write_def spec_return_def)
  moreover have "refines \<Gamma> L
      (bind_action (wr h v) (\<lambda>_. return_action (Inr old))) (?K old)" for old :: val
    by (rule refines_bind [OF wr_spec [OF assms]]) (rule refines_return)
  ultimately show ?thesis
    using read_then [OF assms(1), where K = ?K] by simp
qed

end

interpretation tvar_cell: store_cell \<Gamma> L "var_ok \<Gamma> L" control_block "\<lambda>v x. type_id x = marker v"
    TVar_read TVar_write
  for \<Gamma> L
  by unfold_locales
    (auto simp: TVar_read_def TVar_write_def store_typed_def var_ok_def
      intro: refines_read refines_write)

lemmas tvar_op_defs = TVar_modify_def TVar_replace_def

text \<open>
  The read-modify-write methods: in any well-typed context \<^verbatim>\<open>modify\<close> replaces the value the
  transaction sees in the variable by the function's result and \<^verbatim>\<open>replace\<close> by the given value,
  returning the value seen before; both touch no other variable and never fail or panic.
\<close>

theorem modify_and_replace_specification:
  assumes "var_ok \<Gamma> L v" and "\<And>x. type_id x = marker v \<Longrightarrow> type_id (f x) = marker v"
    and "type_id y = marker v"
  shows "refines \<Gamma> L (TVar_modify v f)
      (\<lambda>s. (Inr (), s(control_block v := f (s (control_block v))))) \<and>
    refines \<Gamma> L (TVar_replace v y) (\<lambda>s. (Inr (s (control_block v)), s(control_block v := y)))"
  unfolding tvar_op_defs
  using tvar_cell.modify_spec [OF assms(1), of f] tvar_cell.replace_spec [OF assms(1), of y]
    assms(2,3)
  by blast

fun val_succ :: "val \<Rightarrow> val" where
  "val_succ (VInt n) = VInt (n + 1)"
| "val_succ x = x"

lemma type_val_succ [simp]: "type_id (val_succ x) = type_id x"
  by (cases x) simp_all

theorem modify_and_replace_specification_witness:
  "refines demo_types {VCB 16} (TVar_modify demo_x val_succ)
      (\<lambda>s. (Inr (), s(VCB 16 := val_succ (s (VCB 16))))) \<and>
   refines demo_types {VCB 16} (TVar_replace demo_x (VInt 3)) (\<lambda>s. (Inr (s (VCB 16)), s(VCB 16 := VInt 3)))"
  using modify_and_replace_specification [of demo_types "{VCB 16}" demo_x val_succ "VInt 3"]
  by (simp add: var_ok_def demo_x_def demo_types_def)

subsection \<open>Alternatives and optional computations\<close>

definition spec_optionally :: "'a transformer \<Rightarrow> 'a option transformer" where
  "spec_optionally S s =
     (case S s of
        (Inr x, s') \<Rightarrow> (Inr (Some x), s')
      | (Inl Retry, s') \<Rightarrow> (Inr None, s)
      | (Inl Failure, s') \<Rightarrow> (Inl Failure, s'))"

lemma refines_optionally:
  assumes "refines \<Gamma> L A S"
  shows "refines \<Gamma> L (optionally A) (spec_optionally S)"
proof -
  have "spec_optionally S =
      spec_or (spec_bind S (\<lambda>x. spec_return (Inr (Some x)))) (spec_return (Inr None))"
    by (simp add: fun_eq_iff spec_optionally_def spec_or_def spec_bind_def spec_return_def
        split: prod.split sum.split StmError.split)
  then show ?thesis
    unfolding optionally_def map_action_def
    by (auto intro!: refines_or refines_bind refines_return assms)
qed

text \<open>
  C25. \<^verbatim>\<open>or\<close> and \<^verbatim>\<open>optionally\<close>: running the alternatives of \<^verbatim>\<open>or\<close> on the log, with its backup, swap and
  merge, is the left-biased choice on stores (the first alternative unless it retries, then the
  second on the original store); \<^verbatim>\<open>optionally\<close> turns a retry into \<^verbatim>\<open>None\<close> with no effect; and
  \<^verbatim>\<open>unwrap_or_retry\<close> undoes \<^verbatim>\<open>optionally\<close>.
\<close>

theorem or_and_optionally_specification:
  assumes "refines \<Gamma> L A S" and "refines \<Gamma> L B T"
  shows "refines \<Gamma> L (Transaction_or A B)
      (\<lambda>s. if fst (S s) = Inl Retry then T s else S s) \<and>
    refines \<Gamma> L (optionally A) (spec_optionally S) \<and>
    (\<forall>s. fst (spec_bind (spec_optionally S) (\<lambda>x. spec_return (unwrap_or_retry x)) s) = fst (S s))"
proof -
  have "spec_or S T = (\<lambda>s. if fst (S s) = Inl Retry then T s else S s)"
    by (auto simp: fun_eq_iff spec_or_def split: prod.split sum.split StmError.split)
  moreover have "fst (spec_bind (spec_optionally S) (\<lambda>x. spec_return (unwrap_or_retry x)) s) =
      fst (S s)" for s
    by (simp add: spec_bind_def spec_optionally_def spec_return_def unwrap_or_retry_def retry_def
        split: prod.split sum.split StmError.split)
  ultimately show ?thesis
    using refines_or [OF assms] refines_optionally [OF assms(1)] by simp
qed

theorem or_and_optionally_specification_witness:
  "refines demo_types {VCB 16} (Transaction_or (return_action retry) (TVar_read demo_x))
     (\<lambda>s. if fst (spec_return retry s :: val StmResult \<times> store) = Inl Retry
          then spec_read (VCB 16) s else spec_return retry s)"
proof -
  have "refines demo_types {VCB 16} (TVar_read demo_x) (spec_read (VCB 16))"
    using refines_read [of demo_types "{VCB 16}" demo_x]
    by (simp add: TVar_read_def var_ok_def demo_x_def demo_types_def)
  from or_and_optionally_specification [OF refines_return this] show ?thesis by blast
qed

end
