(* ===== verification/Machine.thy ===== *)
theory Machine
  imports TVar_Ops
begin

text \<open>
  Threads running transactions concurrently. Every access to shared memory of \<^verbatim>\<open>with_control\<close>,
  \<^verbatim>\<open>commit\<close>, \<^verbatim>\<open>wait_for_change\<close>, \<^verbatim>\<open>wake_all\<close>, \<^verbatim>\<open>set_dead\<close>, \<^verbatim>\<open>write_atomic\<close> and of the control blocks'
  \<^verbatim>\<open>set_changed\<close> and \<^verbatim>\<open>wait\<close> is a step of its own, and the steps of the threads interleave in any order.
  A critical section of the mutex of a waiting list is one step. The
  read-write locks of the variables are a library the source only calls: who holds a guard and
  who is blocked in \<^verbatim>\<open>read\<close> or \<^verbatim>\<open>write\<close> is read off the threads' program counters, and which
  request is granted is a parameter of the machine. What the code relies on are the laws of the
  locales \<open>rwlock\<close> and \<open>rwlock_live\<close>.
\<close>

subsection \<open>Read-write locks\<close>

record lock_view =
  readers :: "tid set"
  writers :: "tid set"
  want_read :: "tid set"
  want_write :: "tid set"

type_synonym grant = "lock_view \<Rightarrow> tid \<Rightarrow> bool"

locale rwlock =
  fixes may_read :: grant and may_write :: grant
  assumes read_excludes: "may_read v t \<Longrightarrow> writers v = {}"
    and write_excludes: "may_write v t \<Longrightarrow> readers v = {} \<and> writers v = {}"

locale rwlock_live = rwlock +
  assumes free_lock_granted:
    "readers v = {} \<Longrightarrow> writers v = {} \<Longrightarrow> want_read v \<union> want_write v \<noteq> {} \<Longrightarrow>
      (\<exists>t \<in> want_read v. may_read v t) \<or> (\<exists>t \<in> want_write v. may_write v t)"

text \<open>
  A lock that prefers writers: a reader is not admitted while a writer waits. It is the
  strictest policy that still satisfies the laws.
\<close>

definition writer_first_read :: grant where
  "writer_first_read v t \<longleftrightarrow> writers v = {} \<and> want_write v = {}"

definition writer_first_write :: grant where
  "writer_first_write v t \<longleftrightarrow> readers v = {} \<and> writers v = {}"

interpretation wf_lock: rwlock_live writer_first_read writer_first_write
  by unfold_locales (auto simp: writer_first_read_def writer_first_write_def)

text \<open>A lock that admits a request whenever no conflicting guard is held.\<close>

definition eager_read :: grant where
  "eager_read v t \<longleftrightarrow> writers v = {}"

interpretation eager_lock: rwlock_live eager_read writer_first_write
  by unfold_locales (auto simp: eager_read_def writer_first_write_def)

subsection \<open>Program counters\<close>

text \<open>
  A frame of the call stack inside a closure: in the first alternative of an \<^verbatim>\<open>or\<close> (with the
  backup of the log), or in the second (with the log of the first).
\<close>

datatype frame =
    First Transaction prog prog "val \<Rightarrow> prog"
  | Second Transaction "val \<Rightarrow> prog"

text \<open>What \<^verbatim>\<open>commit\<close> needs for an entry: the \<^verbatim>\<open>match\<close> of its first phase.\<close>

datatype lock_need = NoLock | ReadLock arc | WriteLock arc "arc option"

fun need_of :: "LogVar \<Rightarrow> lock_need" where
  "need_of (Write w) = WriteLock w None"
| "need_of (ReadObsoleteWrite _ w) = WriteLock w None"
| "need_of (ReadWrite original w) = WriteLock w (Some original)"
| "need_of (ReadObsolete _) = NoLock"
| "need_of (Read original) = ReadLock original"

text \<open>
  \<open>Run\<close>: inside the closure. \<open>Locking\<close>: first phase of commit, with the visited and the remaining
  entries, the read guards, the values with their write guards, the written variables and the
  closure's value. \<open>Unlocking\<close>: the early return of a failed commit drops its guards: the
  read guard taken last, then the write guards, then the read guards of the vector.
  \<open>DropReads\<close>, \<open>Storing\<close>, \<open>Waking\<close>: the second phase, the last one in \<^verbatim>\<open>wake_all\<close>. \<open>Notify\<close>: holding an
  upgraded control block, in \<^verbatim>\<open>set_changed\<close> at one of the points of \<open>waker_pc\<close>. \<open>Register\<close>,
  \<open>Compare\<close>: in the loop of \<^verbatim>\<open>wait_for_change\<close>. \<open>Asleep\<close>, \<open>Parking\<close>: in \<^verbatim>\<open>ControlBlock::wait\<close>, before the load of the flag
  and inside \<^verbatim>\<open>park\<close>. \<open>Dying\<close>, \<open>Cleaning\<close>: inside the calls of \<^verbatim>\<open>set_dead\<close>. \<open>AtomicWrite\<close>: blocked
  at the lock in \<^verbatim>\<open>write_atomic\<close>.
\<close>

datatype pc =
    Idle
  | Run prog Transaction "frame list"
  | Locking "(vcb_ref \<times> LogVar) list" "(vcb_ref \<times> LogVar) list"
      "vcb_ref list" "(arc \<times> vcb_ref) list" "vcb_ref list" val
  | Unlocking "vcb_ref list" "vcb_ref list" "vcb_ref list"
  | DropReads "vcb_ref list" "(arc \<times> vcb_ref) list" "vcb_ref list" val
  | Storing "(arc \<times> vcb_ref) list" "vcb_ref list" val
  | Waking "vcb_ref list" "cb_ref list" val
  | Notify waker_pc cb_ref "vcb_ref list" "cb_ref list" val
  | Register cb_ref "(vcb_ref \<times> LogVar) list" "(vcb_ref \<times> arc) list"
  | Compare cb_ref vcb_ref arc "(vcb_ref \<times> LogVar) list" "(vcb_ref \<times> arc) list"
  | Asleep cb_ref "(vcb_ref \<times> arc) list"
  | Parking cb_ref "(vcb_ref \<times> arc) list"
  | Dying cb_ref "vcb_ref list"
  | Cleaning cb_ref vcb_ref "vcb_ref list"
  | AtomicWrite TVar val
  | Crashed string

datatype label = Tau | Commits tid prog val | Writes vcb_ref val

record thread_state =
  closure :: prog
  pc :: pc

record sys =
  shared :: world
  thr :: "tid \<Rightarrow> thread_state"

abbreviation pc_of :: "sys \<Rightarrow> tid \<Rightarrow> pc" where
  "pc_of s t \<equiv> pc (thr s t)"

subsection \<open>Guards and requests\<close>

fun held_reads :: "pc \<Rightarrow> vcb_ref list" where
  "held_reads (Locking dn todo rs ws wr v) = rs"
| "held_reads (Unlocking lk gs rs) = lk @ rs"
| "held_reads (DropReads rs ws wr v) = rs"
| "held_reads _ = []"

fun held_writes :: "pc \<Rightarrow> vcb_ref list" where
  "held_writes (Locking dn todo rs ws wr v) = map snd ws"
| "held_writes (Unlocking lk gs rs) = gs"
| "held_writes (DropReads rs ws wr v) = map snd ws"
| "held_writes (Storing ws wr v) = map snd ws"
| "held_writes _ = []"

fun read_request :: "pc \<Rightarrow> vcb_ref option" where
  "read_request (Run (ReadVar v k) tx fs) =
     (if btm_get (vars tx) (control_block v) = None then Some (control_block v) else None)"
| "read_request (Locking dn ((x, e) # todo) rs ws wr v) =
     (case need_of e of ReadLock a \<Rightarrow> Some x | _ \<Rightarrow> None)"
| "read_request (Compare c x a todo reads) = Some x"
| "read_request _ = None"

fun write_request :: "pc \<Rightarrow> vcb_ref option" where
  "write_request (Locking dn ((x, e) # todo) rs ws wr v) =
     (case need_of e of WriteLock a o' \<Rightarrow> Some x | _ \<Rightarrow> None)"
| "write_request (AtomicWrite v y) = Some (control_block v)"
| "write_request _ = None"

definition view_lock :: "sys \<Rightarrow> vcb_ref \<Rightarrow> lock_view" where
  "view_lock s x =
     \<lparr>readers = {t. x \<in> set (held_reads (pc_of s t))},
      writers = {t. x \<in> set (held_writes (pc_of s t))},
      want_read = {t. read_request (pc_of s t) = Some x},
      want_write = {t. write_request (pc_of s t) = Some x}\<rparr>"

subsection \<open>The steps of one thread\<close>

text \<open>
  \<open>R x\<close> and \<open>W x\<close> say that the thread's request for the lock of \<open>x\<close> would be granted now.
\<close>

inductive local_step ::
    "tid \<Rightarrow> prog \<Rightarrow> (vcb_ref \<Rightarrow> bool) \<Rightarrow> (vcb_ref \<Rightarrow> bool) \<Rightarrow>
     world \<Rightarrow> pc \<Rightarrow> label \<Rightarrow> world \<Rightarrow> pc \<Rightarrow> bool"
  for t :: tid and p0 :: prog and R :: "vcb_ref \<Rightarrow> bool" and W :: "vcb_ref \<Rightarrow> bool"
where
  run_read: "btm_get (vars tx) (control_block v) = None \<longrightarrow> R (control_block v) \<Longrightarrow>
    Transaction_read v (w, tx) = (Return (Inr x), w', tx') \<Longrightarrow>
    local_step t p0 R W w (Run (ReadVar v k) tx fs) Tau w' (Run (k x) tx' fs)"
| run_read_panic: "btm_get (vars tx) (control_block v) = None \<longrightarrow> R (control_block v) \<Longrightarrow>
    Transaction_read v (w, tx) = (Panic m, w', tx') \<Longrightarrow>
    local_step t p0 R W w (Run (ReadVar v k) tx fs) Tau (TransactionGuard_drop t w') (Crashed m)"
| run_write: "Transaction_write v y (w, tx) = (r, w', tx') \<Longrightarrow>
    local_step t p0 R W w (Run (WriteVar v y p) tx fs) Tau w' (Run p tx' fs)"
| run_or:
    "local_step t p0 R W w (Run (OrElse p q k) tx fs) Tau w (Run p tx (First tx p q k # fs))"
| first_ok:
    "local_step t p0 R W w (Run (Done (Inr x)) tx (First c p q k # fs)) Tau w (Run (k x) tx fs)"
| first_failure:
    "local_step t p0 R W w (Run (Done (Inl Failure)) tx (First c p q k # fs)) Tau
       w (Run (Done (Inl Failure)) tx fs)"
| first_retry:
    "local_step t p0 R W w (Run (Done (Inl Retry)) tx (First c p q k # fs)) Tau
       w (Run q c (Second tx k # fs))"
| second_ok:
    "local_step t p0 R W w (Run (Done (Inr x)) tx (Second f k # fs)) Tau
       w (Run (k x) (Transaction_combine tx f) fs)"
| second_retry:
    "local_step t p0 R W w (Run (Done (Inl Retry)) tx (Second f k # fs)) Tau
       w (Run (Done (Inl Retry)) (Transaction_combine tx f) fs)"
| second_failure:
    "local_step t p0 R W w (Run (Done (Inl Failure)) tx (Second f k # fs)) Tau
       w (Run (Done (Inl Failure)) tx fs)"
| commit_begin:
    "local_step t p0 R W w (Run (Done (Inr x)) tx []) Tau
       w (Locking [] (btm_iter (vars tx)) [] [] [] x)"
| control_abort:
    "local_step t p0 R W w (Run (Done (Inl e)) tx []) Tau (TransactionGuard_drop t w) Idle"
| control_again:
    "local_step t p0 R W w (Run (Done (Inl Failure)) tx []) Tau w (Run p0 Transaction_new [])"
| wait_begin: "cb_alloc t w = (c, w') \<Longrightarrow>
    local_step t p0 R W w (Run (Done (Inl Retry)) tx []) Tau
      w' (Register c (btm_iter (vars tx)) [])"
| lock_none: "need_of e = NoLock \<Longrightarrow>
    local_step t p0 R W w (Locking dn ((x, e) # todo) rs ws wr v) Tau
      w (Locking (dn @ [(x, e)]) todo rs ws wr v)"
| lock_read: "need_of e = ReadLock a \<Longrightarrow> R x \<Longrightarrow> value_arc w x = a \<Longrightarrow>
    local_step t p0 R W w (Locking dn ((x, e) # todo) rs ws wr v) Tau
      w (Locking (dn @ [(x, e)]) todo (rs @ [x]) ws wr v)"
| lock_read_stale: "need_of e = ReadLock a \<Longrightarrow> R x \<Longrightarrow> value_arc w x \<noteq> a \<Longrightarrow>
    local_step t p0 R W w (Locking dn ((x, e) # todo) rs ws wr v) Tau
      w (Unlocking [x] (map snd ws) rs)"
| lock_write: "need_of e = WriteLock a orig \<Longrightarrow> W x \<Longrightarrow>
    (\<forall>b. orig = Some b \<longrightarrow> value_arc w x = b) \<Longrightarrow>
    local_step t p0 R W w (Locking dn ((x, e) # todo) rs ws wr v) Tau
      w (Locking (dn @ [(x, e)]) todo rs (ws @ [(a, x)]) (wr @ [x]) v)"
| lock_write_stale: "need_of e = WriteLock a (Some b) \<Longrightarrow> W x \<Longrightarrow> value_arc w x \<noteq> b \<Longrightarrow>
    local_step t p0 R W w (Locking dn ((x, e) # todo) rs ws wr v) Tau
      w (Unlocking [] (x # map snd ws) rs)"
| lock_done:
    "local_step t p0 R W w (Locking dn [] rs ws wr v) (Commits t p0 v) w (DropReads rs ws wr v)"
| unlock_last:
    "local_step t p0 R W w (Unlocking (x # lk) gs rs) Tau w (Unlocking lk gs rs)"
| unlock_write:
    "local_step t p0 R W w (Unlocking [] (x # gs) rs) Tau w (Unlocking [] gs rs)"
| unlock_read:
    "local_step t p0 R W w (Unlocking [] [] (x # rs)) Tau w (Unlocking [] [] rs)"
| commit_false:
    "local_step t p0 R W w (Unlocking [] [] []) Tau w (Run p0 Transaction_new [])"
| drop_read:
    "local_step t p0 R W w (DropReads (x # rs) ws wr v) Tau w (DropReads rs ws wr v)"
| drop_reads_done:
    "local_step t p0 R W w (DropReads [] ws wr v) Tau w (Storing ws wr v)"
| store_one:
    "local_step t p0 R W w (Storing ((a, x) # ws) wr v) Tau
       (write_back (a, x) w) (Storing ws wr v)"
| store_done:
    "local_step t p0 R W w (Storing [] wr v) Tau w (Waking wr [] v)"
| wake_take:
    "local_step t p0 R W w (Waking (x # wr) [] v) Tau
       (update_vcb x (\<lambda>b. b\<lparr>waiting_threads := []\<rparr>) w) (Waking wr (waiters w x) v)"
| wake_dead: "\<not> cb_alive w c \<Longrightarrow>
    local_step t p0 R W w (Waking wr (c # cs) v) Tau w (Waking wr cs v)"
| wake_upgrade: "cb_alive w c \<Longrightarrow>
    local_step t p0 R W w (Waking wr (c # cs) v) Tau (cb_hold c w) (Notify KIdle c wr cs v)"
| notify_swap:
    "local_step t p0 R W w (Notify KIdle c wr cs v) Tau (snd (cb_swap c w))
      (Notify (if fst (cb_swap c w) then KUnpark else KSkipped) c wr cs v)"
| notify_unpark:
    "local_step t p0 R W w (Notify KUnpark c wr cs v) Tau (cb_unpark c w) (Notify KWoke c wr cs v)"
| notify_release: "k = KWoke \<or> k = KSkipped \<Longrightarrow>
    local_step t p0 R W w (Notify k c wr cs v) Tau (cb_drop c w) (Waking wr cs v)"
| commit_true:
    "local_step t p0 R W w (Waking [] [] v) Tau (TransactionGuard_drop t w) Idle"
| register_skip: "into_read_value e = None \<Longrightarrow>
    local_step t p0 R W w (Register c ((x, e) # todo) reads) Tau w (Register c todo reads)"
| register_wait: "into_read_value e = Some a \<Longrightarrow>
    local_step t p0 R W w (Register c ((x, e) # todo) reads) Tau
      (VarControlBlock_wait x c w) (Compare c x a todo reads)"
| compare_same: "R x \<Longrightarrow> value_arc w x = a \<Longrightarrow>
    local_step t p0 R W w (Compare c x a todo reads) Tau w (Register c todo (reads @ [(x, a)]))"
| compare_changed: "R x \<Longrightarrow> value_arc w x \<noteq> a \<Longrightarrow>
    local_step t p0 R W w (Compare c x a todo reads) Tau w (Dying c (map fst reads @ [x]))"
| sleep:
    "local_step t p0 R W w (Register c [] reads) Tau w (Asleep c reads)"
| awaken: "\<not> blocked (cbs w c) \<Longrightarrow>
    local_step t p0 R W w (Asleep c reads) Tau w (Dying c (map fst reads))"
| park: "blocked (cbs w c) \<Longrightarrow>
    local_step t p0 R W w (Asleep c reads) Tau w (Parking c reads)"
| unparked: "tokens w t \<Longrightarrow>
    local_step t p0 R W w (Parking c reads) Tau (cb_park t w) (Asleep c reads)"
| dying:
    "local_step t p0 R W w (Dying c (x # xs)) Tau (snd (set_dead_count x w))
      (if 64 \<le> fst (set_dead_count x w) then Cleaning c x xs else Dying c xs)"
| cleaning:
    "local_step t p0 R W w (Cleaning c x xs) Tau (set_dead_cleanup x w) (Dying c xs)"
| wait_end:
    "local_step t p0 R W w (Dying c []) Tau (cb_drop c w) (Run p0 Transaction_new [])"
| atomic_store: "W (control_block v) \<Longrightarrow>
    local_step t p0 R W w (AtomicWrite v y) (Writes (control_block v) y)
      (write_atomic v y w) Idle"

subsection \<open>The system\<close>

text \<open>
  An idle thread may start any closure the type checker accepts, or write atomically. A start
  takes the thread's transaction flag; only idle threads, whose flag is clear, do it. The Rust code
  of a closure may panic at any point between two operations: the log is dropped while the stack
  unwinds through \<^verbatim>\<open>with_control\<close>, whose guard clears the flag, and a caller that catches the panic may
  start another transaction. \<^verbatim>\<open>park\<close> may return without a token.
\<close>

inductive mstep ::
    "grant \<Rightarrow> grant \<Rightarrow> tyenv \<Rightarrow> vcb_ref set \<Rightarrow> sys \<Rightarrow> label \<Rightarrow> sys \<Rightarrow> bool"
  for may_read may_write :: grant and \<Gamma> :: tyenv and L :: "vcb_ref set"
where
  m_local: "local_step t (closure (thr s t))
      (\<lambda>x. may_read (view_lock s x) t) (\<lambda>x. may_write (view_lock s x) t)
      (shared s) (pc_of s t) l w' pc' \<Longrightarrow>
    mstep may_read may_write \<Gamma> L s l
      (s\<lparr>shared := w', thr := (thr s)(t := (thr s t)\<lparr>pc := pc'\<rparr>)\<rparr>)"
| m_start: "pc_of s t = Idle \<Longrightarrow> prog_ok \<Gamma> L p \<Longrightarrow>
    TransactionGuard_new t (shared s) = Return w' \<Longrightarrow>
    mstep may_read may_write \<Gamma> L s Tau
      (s\<lparr>shared := w',
         thr := (thr s)(t := \<lparr>closure = p, pc = Run p Transaction_new []\<rparr>)\<rparr>)"
| m_write: "pc_of s t = Idle \<Longrightarrow> var_ok \<Gamma> L v \<Longrightarrow> type_id y = marker v \<Longrightarrow>
    mstep may_read may_write \<Gamma> L s Tau
      (s\<lparr>thr := (thr s)(t := (thr s t)\<lparr>pc := AtomicWrite v y\<rparr>)\<rparr>)"
| m_panic: "pc_of s t = Run p tx fs \<Longrightarrow>
    mstep may_read may_write \<Gamma> L s Tau
      (s\<lparr>shared := TransactionGuard_drop t (shared s),
         thr := (thr s)(t := (thr s t)\<lparr>pc := Idle\<rparr>)\<rparr>)"
| m_spurious: "pc_of s t = Parking c reads \<Longrightarrow>
    mstep may_read may_write \<Gamma> L s Tau
      (s\<lparr>thr := (thr s)(t := (thr s t)\<lparr>pc := Asleep c reads\<rparr>)\<rparr>)"

definition initial :: "tyenv \<Rightarrow> vcb_ref set \<Rightarrow> sys \<Rightarrow> bool" where
  "initial \<Gamma> L s \<longleftrightarrow>
     world_ok \<Gamma> (shared s) \<and> set (vcb_live (shared s)) = L \<and>
     (\<forall>t. pc_of s t = Idle) \<and> (\<forall>x. waiters (shared s) x = []) \<and>
     (\<forall>c. cb_strong (shared s) c = 0)"

inductive mrun ::
    "grant \<Rightarrow> grant \<Rightarrow> tyenv \<Rightarrow> vcb_ref set \<Rightarrow> sys \<Rightarrow> label list \<Rightarrow> sys \<Rightarrow> bool"
  for may_read may_write :: grant and \<Gamma> :: tyenv and L :: "vcb_ref set"
where
  mrun_nil: "mrun may_read may_write \<Gamma> L s [] s"
| mrun_snoc: "mrun may_read may_write \<Gamma> L s ls s' \<Longrightarrow> mstep may_read may_write \<Gamma> L s' l s'' \<Longrightarrow>
    mrun may_read may_write \<Gamma> L s (ls @ [l]) s''"

end
