(* ===== verification/Schedule.thy ===== *)
theory Schedule
  imports Machine
begin

text \<open>
  The machine as a function: the next step of a thread whose lock request is granted, and the run
  of a whole schedule. They decide which threads are stuck, and they compute concrete runs.
\<close>

subsection \<open>The next step of a thread\<close>

fun next_step :: "tid \<Rightarrow> prog \<Rightarrow> world \<Rightarrow> pc \<Rightarrow> (label \<times> world \<times> pc) option" where
  "next_step t p0 w (Run (ReadVar v k) tx fs) =
     (case Transaction_read v (w, tx) of
        (Return (Inr x), w', tx') \<Rightarrow> Some (Tau, w', Run (k x) tx' fs)
      | (Return (Inl e), w', tx') \<Rightarrow> None
      | (Panic m, w', tx') \<Rightarrow> Some (Tau, TransactionGuard_drop t w', Crashed m))"
| "next_step t p0 w (Run (WriteVar v y p) tx fs) =
     (let (r, w', tx') = Transaction_write v y (w, tx) in Some (Tau, w', Run p tx' fs))"
| "next_step t p0 w (Run (OrElse p q k) tx fs) = Some (Tau, w, Run p tx (First tx p q k # fs))"
| "next_step t p0 w (Run (Done (Inr x)) tx (First c p q k # fs)) = Some (Tau, w, Run (k x) tx fs)"
| "next_step t p0 w (Run (Done (Inl Failure)) tx (First c p q k # fs)) =
     Some (Tau, w, Run (Done (Inl Failure)) tx fs)"
| "next_step t p0 w (Run (Done (Inl Retry)) tx (First c p q k # fs)) =
     Some (Tau, w, Run q c (Second tx k # fs))"
| "next_step t p0 w (Run (Done (Inr x)) tx (Second f k # fs)) =
     Some (Tau, w, Run (k x) (Transaction_combine tx f) fs)"
| "next_step t p0 w (Run (Done (Inl Retry)) tx (Second f k # fs)) =
     Some (Tau, w, Run (Done (Inl Retry)) (Transaction_combine tx f) fs)"
| "next_step t p0 w (Run (Done (Inl Failure)) tx (Second f k # fs)) =
     Some (Tau, w, Run (Done (Inl Failure)) tx fs)"
| "next_step t p0 w (Run (Done (Inr x)) tx []) =
     Some (Tau, w, Locking [] (btm_iter (vars tx)) [] [] [] x)"
| "next_step t p0 w (Run (Done (Inl Failure)) tx []) = Some (Tau, w, Run p0 Transaction_new [])"
| "next_step t p0 w (Run (Done (Inl Retry)) tx []) =
     (let (c, w') = cb_alloc t w in Some (Tau, w', Register c (btm_iter (vars tx)) []))"
| "next_step t p0 w (Locking dn ((x, e) # todo) rs ws wr v) = Some (Tau, w,
     (case need_of e of
        NoLock \<Rightarrow> Locking (dn @ [(x, e)]) todo rs ws wr v
      | ReadLock a \<Rightarrow>
          (if value_arc w x = a then Locking (dn @ [(x, e)]) todo (rs @ [x]) ws wr v
           else Unlocking [x] (map snd ws) rs)
      | WriteLock a orig \<Rightarrow>
          (if orig = None \<or> orig = Some (value_arc w x)
           then Locking (dn @ [(x, e)]) todo rs (ws @ [(a, x)]) (wr @ [x]) v
           else Unlocking [] (x # map snd ws) rs)))"
| "next_step t p0 w (Locking dn [] rs ws wr v) = Some (Commits t p0 v, w, DropReads rs ws wr v)"
| "next_step t p0 w (Unlocking (x # lk) gs rs) = Some (Tau, w, Unlocking lk gs rs)"
| "next_step t p0 w (Unlocking [] (x # gs) rs) = Some (Tau, w, Unlocking [] gs rs)"
| "next_step t p0 w (Unlocking [] [] (x # rs)) = Some (Tau, w, Unlocking [] [] rs)"
| "next_step t p0 w (Unlocking [] [] []) = Some (Tau, w, Run p0 Transaction_new [])"
| "next_step t p0 w (DropReads (x # rs) ws wr v) = Some (Tau, w, DropReads rs ws wr v)"
| "next_step t p0 w (DropReads [] ws wr v) = Some (Tau, w, Storing ws wr v)"
| "next_step t p0 w (Storing ((a, x) # ws) wr v) =
     Some (Tau, write_back (a, x) w, Storing ws wr v)"
| "next_step t p0 w (Storing [] wr v) = Some (Tau, w, Waking wr [] v)"
| "next_step t p0 w (Waking (x # wr) [] v) =
     Some (Tau, update_vcb x (\<lambda>b. b\<lparr>waiting_threads := []\<rparr>) w, Waking wr (waiters w x) v)"
| "next_step t p0 w (Waking wr (c # cs) v) =
     (if cb_alive w c then Some (Tau, cb_hold c w, Notify KIdle c wr cs v)
      else Some (Tau, w, Waking wr cs v))"
| "next_step t p0 w (Notify KIdle c wr cs v) =
     Some (Tau, snd (cb_swap c w), Notify (if fst (cb_swap c w) then KUnpark else KSkipped) c wr cs v)"
| "next_step t p0 w (Notify KUnpark c wr cs v) = Some (Tau, cb_unpark c w, Notify KWoke c wr cs v)"
| "next_step t p0 w (Notify k c wr cs v) = Some (Tau, cb_drop c w, Waking wr cs v)"
| "next_step t p0 w (Waking [] [] v) = Some (Tau, TransactionGuard_drop t w, Idle)"
| "next_step t p0 w (Register c ((x, e) # todo) reads) =
     (case into_read_value e of
        None \<Rightarrow> Some (Tau, w, Register c todo reads)
      | Some a \<Rightarrow> Some (Tau, VarControlBlock_wait x c w, Compare c x a todo reads))"
| "next_step t p0 w (Compare c x a todo reads) = Some (Tau, w,
     (if value_arc w x = a then Register c todo (reads @ [(x, a)])
      else Dying c (map fst reads @ [x])))"
| "next_step t p0 w (Register c [] reads) = Some (Tau, w, Asleep c reads)"
| "next_step t p0 w (Asleep c reads) =
     (if blocked (cbs w c) then Some (Tau, w, Parking c reads)
      else Some (Tau, w, Dying c (map fst reads)))"
| "next_step t p0 w (Parking c reads) =
     (if tokens w t then Some (Tau, cb_park t w, Asleep c reads) else None)"
| "next_step t p0 w (Dying c (x # xs)) = Some (Tau, snd (set_dead_count x w),
     (if 64 \<le> fst (set_dead_count x w) then Cleaning c x xs else Dying c xs))"
| "next_step t p0 w (Cleaning c x xs) = Some (Tau, set_dead_cleanup x w, Dying c xs)"
| "next_step t p0 w (Dying c []) = Some (Tau, cb_drop c w, Run p0 Transaction_new [])"
| "next_step t p0 w (AtomicWrite v y) =
     Some (Writes (control_block v) y, write_atomic v y w, Idle)"
| "next_step t p0 w Idle = None"
| "next_step t p0 w (Crashed m) = None"

text \<open>The next step is a step as soon as the thread's lock request, if it has one, is granted.\<close>

lemma next_step_sound:
  assumes "next_step t p0 w u = Some (l, w', u')"
    and "\<And>x. read_request u = Some x \<Longrightarrow> R x" and "\<And>x. write_request u = Some x \<Longrightarrow> W x"
  shows "local_step t p0 R W w u l w' u'"
  using assms
proof (cases "(t, p0, w, u)" rule: next_step.cases)
  case (13 t' p0' w' dn x e todo rs ws wr v)
  then show ?thesis
    using assms
    by (cases "need_of e")
      (auto split: if_splits intro!: local_step.intros)
next
  case (25 t' p0' w' c wr cs v)
  then show ?thesis using assms notify_swap [of t p0 R W w c wr cs v] by auto
next
  case (34 t' p0' w' c x xs)
  then show ?thesis using assms dying [of t p0 R W w c x xs] by auto
qed (auto intro!: local_step.intros split: prod.splits may_panic.splits sum.splits option.splits
    if_splits)

lemma read_never_fails: "Transaction_read v (w, tx) \<noteq> (Return (Inl e), w', tx')"
  by (auto simp: Transaction_read_eq split: may_panic.split)

text \<open>The threads that have no next step: idle, crashed, or parked without a token.\<close>

lemma next_step_None:
  "next_step t p0 w u = None \<longleftrightarrow>
    u = Idle \<or> (\<exists>m. u = Crashed m) \<or> (\<exists>c reads. u = Parking c reads \<and> \<not> tokens w t)"
  by (cases "(t, p0, w, u)" rule: next_step.cases)
    (auto split: prod.splits may_panic.splits sum.splits option.splits simp: read_never_fails)

subsection \<open>Whole schedules\<close>

text \<open>
  An event of a schedule: a thread starts a closure, starts an atomic write, panics in its closure, or makes its next
  step. \<open>ts\<close> lists the threads that take part; a request is granted when no conflicting guard is
  held by any of them, which is the policy \<open>eager_read\<close>, \<open>writer_first_write\<close>.
\<close>

datatype event = Start tid prog | Put tid TVar val | Unwind tid | Go tid

definition unheld :: "(pc \<Rightarrow> vcb_ref list) \<Rightarrow> tid list \<Rightarrow> sys \<Rightarrow> vcb_ref option \<Rightarrow> bool" where
  "unheld held ts s req =
     (case req of None \<Rightarrow> True | Some x \<Rightarrow> list_all (\<lambda>t. x \<notin> set (held (pc_of s t))) ts)"

definition set_pc :: "tid \<Rightarrow> pc \<Rightarrow> sys \<Rightarrow> sys" where
  "set_pc t u s = s\<lparr>thr := (thr s)(t := (thr s t)\<lparr>pc := u\<rparr>)\<rparr>"

fun run_event :: "tid list \<Rightarrow> event \<Rightarrow> sys \<Rightarrow> (label \<times> sys) option" where
  "run_event ts (Start t p) s =
     (case pc_of s t of
        Idle \<Rightarrow>
          (case TransactionGuard_new t (shared s) of
             Return w' \<Rightarrow>
               (if t \<in> set ts
                then Some (Tau, s\<lparr>shared := w',
                       thr := (thr s)(t := \<lparr>closure = p, pc = Run p Transaction_new []\<rparr>)\<rparr>)
                else None)
           | Panic m \<Rightarrow> None)
      | _ \<Rightarrow> None)"
| "run_event ts (Put t v y) s =
     (case pc_of s t of
        Idle \<Rightarrow> (if t \<in> set ts then Some (Tau, set_pc t (AtomicWrite v y) s) else None)
      | _ \<Rightarrow> None)"
| "run_event ts (Unwind t) s =
     (case pc_of s t of
        Run p tx fs \<Rightarrow>
          (if t \<in> set ts
           then Some (Tau, s\<lparr>shared := TransactionGuard_drop t (shared s),
                  thr := (thr s)(t := (thr s t)\<lparr>pc := Idle\<rparr>)\<rparr>)
           else None)
      | _ \<Rightarrow> None)"
| "run_event ts (Go t) s =
     (if t \<in> set ts \<and> unheld held_writes ts s (read_request (pc_of s t)) \<and>
         unheld held_writes ts s (write_request (pc_of s t)) \<and>
         unheld held_reads ts s (write_request (pc_of s t))
      then (case next_step t (closure (thr s t)) (shared s) (pc_of s t) of
              None \<Rightarrow> None
            | Some (l, w', u') \<Rightarrow> Some (l, s\<lparr>shared := w', thr := (thr s)(t := (thr s t)\<lparr>pc := u'\<rparr>)\<rparr>))
      else None)"

fun run_schedule :: "tid list \<Rightarrow> event list \<Rightarrow> sys \<Rightarrow> (label list \<times> sys) option" where
  "run_schedule ts [] s = Some ([], s)"
| "run_schedule ts (ev # evs) s =
     (case run_event ts ev s of
        None \<Rightarrow> None
      | Some (l, s') \<Rightarrow>
          (case run_schedule ts evs s' of None \<Rightarrow> None | Some (ls, s'') \<Rightarrow> Some (l # ls, s'')))"

fun event_ok :: "tyenv \<Rightarrow> vcb_ref set \<Rightarrow> event \<Rightarrow> bool" where
  "event_ok \<Gamma> L (Start t p) = prog_ok \<Gamma> L p"
| "event_ok \<Gamma> L (Put t v y) = (var_ok \<Gamma> L v \<and> type_id y = marker v)"
| "event_ok \<Gamma> L (Unwind t) = True"
| "event_ok \<Gamma> L (Go t) = True"

definition idle_but :: "tid list \<Rightarrow> sys \<Rightarrow> bool" where
  "idle_but ts s \<longleftrightarrow> (\<forall>t. t \<notin> set ts \<longrightarrow> pc_of s t = Idle)"

lemma unheld_none:
  assumes "unheld held ts s (Some x)" and "idle_but ts s" and "held Idle = []"
  shows "{t. x \<in> set (held (pc_of s t))} = {}"
  using assms by (auto simp: unheld_def list_all_iff idle_but_def)

lemma run_event_mstep:
  assumes "run_event ts ev s = Some (l, s')" and "idle_but ts s" and "event_ok \<Gamma> L ev"
  shows "mstep eager_read writer_first_write \<Gamma> L s l s' \<and> idle_but ts s'"
proof (cases ev)
  case (Start t p)
  then show ?thesis
    using assms m_start [of s t \<Gamma> L p _ eager_read writer_first_write]
    by (auto simp: idle_but_def split: pc.splits may_panic.splits if_splits)
next
  case (Put t v y)
  then show ?thesis
    using assms m_write [of s t \<Gamma> L v y eager_read writer_first_write]
    by (auto simp: idle_but_def set_pc_def split: pc.splits if_splits)
next
  case (Unwind t)
  then show ?thesis
    using assms m_panic [of s t _ _ _ eager_read writer_first_write \<Gamma> L]
    by (auto simp: idle_but_def split: pc.splits if_splits)
next
  case (Go t)
  let ?R = "\<lambda>x. eager_read (view_lock s x) t" and ?W = "\<lambda>x. writer_first_write (view_lock s x) t"
  from assms(1) Go obtain w' u' where t: "t \<in> set ts"
    and r: "unheld held_writes ts s (read_request (pc_of s t))"
    and w: "unheld held_writes ts s (write_request (pc_of s t))"
      "unheld held_reads ts s (write_request (pc_of s t))"
    and n: "next_step t (closure (thr s t)) (shared s) (pc_of s t) = Some (l, w', u')"
    and s': "s' = s\<lparr>shared := w', thr := (thr s)(t := (thr s t)\<lparr>pc := u'\<rparr>)\<rparr>"
    by (auto simp: split: if_splits option.splits)
  have "local_step t (closure (thr s t)) ?R ?W (shared s) (pc_of s t) l w' u'"
  proof (rule next_step_sound [OF n])
    show "?R x" if "read_request (pc_of s t) = Some x" for x
      using unheld_none [OF _ assms(2)] r that by (simp add: eager_read_def view_lock_def)
    show "?W x" if "write_request (pc_of s t) = Some x" for x
      using unheld_none [OF _ assms(2)] w that by (simp add: writer_first_write_def view_lock_def)
  qed
  from m_local [of t s eager_read writer_first_write, OF this] t assms(2) show ?thesis
    by (auto simp: s' set_pc_def idle_but_def)
qed

lemma mrun_cons:
  assumes "mrun mr mw \<Gamma> L s' ls s''" and "mstep mr mw \<Gamma> L s l s'"
  shows "mrun mr mw \<Gamma> L s (l # ls) s''"
  using assms
proof induction
  case (mrun_nil s')
  from mrun.mrun_snoc [OF mrun.mrun_nil this] show ?case by simp
next
  case (mrun_snoc s' ls s1 l' s2)
  from mrun.mrun_snoc [OF mrun_snoc.IH [OF mrun_snoc.prems] mrun_snoc.hyps(2)] show ?case by simp
qed

lemma schedule_mrun:
  "run_schedule ts evs s = Some (ls, s') \<Longrightarrow> idle_but ts s \<Longrightarrow> list_all (event_ok \<Gamma> L) evs \<Longrightarrow>
    mrun eager_read writer_first_write \<Gamma> L s ls s' \<and> idle_but ts s'"
proof (induction evs arbitrary: s ls)
  case Nil
  then show ?case by (simp add: mrun_nil)
next
  case (Cons ev evs)
  from Cons.prems(1) obtain l s1 ls' where 1: "run_event ts ev s = Some (l, s1)"
    and 2: "run_schedule ts evs s1 = Some (ls', s')" and ls: "ls = l # ls'"
    by (auto split: option.splits)
  have "event_ok \<Gamma> L ev" using Cons.prems(3) by simp
  with run_event_mstep [OF 1 Cons.prems(2)]
  have "mstep eager_read writer_first_write \<Gamma> L s l s1" and "idle_but ts s1" by simp_all
  with Cons.IH [OF 2] Cons.prems(3) ls show ?case by (auto intro: mrun_cons)
qed

lemma run_schedule_append:
  "run_schedule ts (evs @ evs') s =
    (case run_schedule ts evs s of
       None \<Rightarrow> None
     | Some (ls, s1) \<Rightarrow> map_option (\<lambda>(ls', s'). (ls @ ls', s')) (run_schedule ts evs' s1))"
  by (induction evs arbitrary: s) (auto simp: option.map_id split: option.split)

text \<open>The committed closures are closures that were started.\<close>

lemma next_step_label:
  "next_step t p0 w u = Some (Commits t' p v, w', u') \<Longrightarrow> p = p0 \<and> t' = t"
  by (cases "(t, p0, w, u)" rule: next_step.cases)
    (auto split: prod.splits may_panic.splits sum.splits option.splits if_splits)

fun in_transaction :: "pc \<Rightarrow> bool" where
  "in_transaction Idle = False"
| "in_transaction (AtomicWrite v y) = False"
| "in_transaction _ = True"

lemma next_step_transaction:
  "next_step t p0 w u = Some (l, w', u') \<Longrightarrow> in_transaction u' \<Longrightarrow> in_transaction u"
  "next_step t p0 w u = Some (Commits t' p v, w', u') \<Longrightarrow> in_transaction u"
  by (cases u; simp)+

lemma schedule_commits:
  "run_schedule ts evs s = Some (ls, s') \<Longrightarrow> Commits t p v \<in> set ls \<Longrightarrow>
    Start t p \<in> set evs \<or> closure (thr s t) = p \<and> in_transaction (pc_of s t)"
proof (induction evs arbitrary: s ls)
  case (Cons ev evs)
  from Cons.prems(1) obtain l s1 ls' where 1: "run_event ts ev s = Some (l, s1)"
    and 2: "run_schedule ts evs s1 = Some (ls', s')" and ls: "ls = l # ls'"
    by (auto split: option.splits)
  have sub: "Start t (closure (thr s1 t)) = ev \<or>
      closure (thr s1 t) = closure (thr s t) \<and> in_transaction (pc_of s t)"
    if "in_transaction (pc_of s1 t)"
    using 1 that
    by (cases ev) (auto simp: set_pc_def dest: next_step_transaction(1)
        split: pc.splits may_panic.splits if_splits option.splits)
  show ?case
  proof (cases "Commits t p v \<in> set ls'")
    case True
    from Cons.IH [OF 2 this] sub show ?thesis by auto
  next
    case False
    with Cons.prems(2) ls have "l = Commits t p v" by simp
    with 1 show ?thesis
      by (cases ev) (auto split: pc.splits may_panic.splits if_splits option.splits
          dest: next_step_label next_step_transaction(2))
  qed
qed simp

text \<open>A thread keeps its closure until it starts another one.\<close>

lemma schedule_closure:
  assumes "run_schedule ts evs s = Some (ls, s')" and "\<And>p. Start t p \<notin> set evs"
  shows "closure (thr s' t) = closure (thr s t)"
  using assms
proof (induction evs arbitrary: s ls)
  case (Cons ev evs)
  from Cons.prems(1) obtain l s1 ls' where 1: "run_event ts ev s = Some (l, s1)"
    and 2: "run_schedule ts evs s1 = Some (ls', s')"
    by (auto split: option.splits)
  have "\<forall>p. ev \<noteq> Start t p" using Cons.prems(2) by auto
  then have "u \<noteq> t" if "ev = Start u p" for u p using that by blast
  with 1 have "closure (thr s1 t) = closure (thr s t)"
    by (cases ev) (auto simp: set_pc_def split: pc.splits may_panic.splits if_splits option.splits)
  with Cons.IH [OF 2] Cons.prems(2) show ?case by auto
qed simp

lemma schedule_started:
  assumes "run_schedule ts (Start t p # evs) s = Some (ls, s')" and "\<And>q. Start t q \<notin> set evs"
  shows "closure (thr s' t) = p"
proof -
  from assms(1) obtain l s1 ls' where 1: "run_event ts (Start t p) s = Some (l, s1)"
    and 2: "run_schedule ts evs s1 = Some (ls', s')" by (auto split: option.splits)
  from 1 have "closure (thr s1 t) = p" by (auto split: pc.splits may_panic.splits if_splits)
  with schedule_closure [OF 2 assms(2)] show ?thesis by simp
qed

subsection \<open>A system over the small world of two variables\<close>

definition demo_sys :: sys where
  "demo_sys = \<lparr>shared = demo_world, thr = (\<lambda>_. \<lparr>closure = Done retry, pc = Idle\<rparr>)\<rparr>"

lemma demo_idle: "idle_but ts demo_sys"
  by (simp add: idle_but_def demo_sys_def)

lemma demo_initial: "initial demo_types {VCB 16, VCB 64} demo_sys"
  using demo_world_ok
  by (auto simp: initial_def demo_sys_def demo_world_def empty_world_def)

definition put_prog :: "TVar \<Rightarrow> int \<Rightarrow> prog" where
  "put_prog v n = WriteVar v (VInt n) (Done (Inr VUnit))"

definition gos :: "tid \<Rightarrow> nat \<Rightarrow> event list" where
  "gos t n = replicate n (Go t)"

end
