(* ===== verification/Sequential.thy ===== *)
theory Sequential
  imports Schedule
begin

text \<open>
  The two models of a transaction agree: the functions that run a closure, its commit and its wait
  without interference compute what the steps of the machine do when one thread takes them all.
\<close>

definition solo :: "tid \<Rightarrow> prog \<Rightarrow> world \<times> pc \<Rightarrow> world \<times> pc \<Rightarrow> bool" where
  "solo t p0 = (\<lambda>(w, u) (w', u'). \<exists>l. local_step t p0 (\<lambda>_. True) (\<lambda>_. True) w u l w' u')"

abbreviation solos :: "tid \<Rightarrow> prog \<Rightarrow> world \<times> pc \<Rightarrow> world \<times> pc \<Rightarrow> bool" where
  "solos t p0 \<equiv> (solo t p0)\<^sup>*\<^sup>*"

lemma soloI: "next_step t p0 w u = Some (l, w', u') \<Longrightarrow> solo t p0 (w, u) (w', u')"
  using next_step_sound [of t p0 w u l w' u' "\<lambda>_. True" "\<lambda>_. True"] by (auto simp: solo_def)

lemma solos_step: "next_step t p0 w u = Some (l, w', u') \<Longrightarrow> solos t p0 (w', u') c \<Longrightarrow> solos t p0 (w, u) c"
  by (rule converse_rtranclp_into_rtranclp) (rule soloI)

lemma solos_next:
  "(case next_step t p0 w u of Some (l, w', u') \<Rightarrow> solos t p0 (w', u') c | None \<Rightarrow> False) \<Longrightarrow>
    solos t p0 (w, u) c"
  by (auto intro: solos_step split: option.splits)

lemma solos_trans [trans]: "solos t p0 a b \<Longrightarrow> solos t p0 b c \<Longrightarrow> solos t p0 a c"
  by (rule rtranclp_trans)

lemma solos_one: "next_step t p0 w u = Some (l, w', u') \<Longrightarrow> solos t p0 (w, u) (w', u')"
  by (rule r_into_rtranclp) (rule soloI)

subsection \<open>The closure\<close>

lemma solo_closure:
  "interp p (w, tx) = (Return r, w', tx') \<Longrightarrow>
    solos t p0 (w, Run p tx fs) (w', Run (Done r) tx' fs)"
proof (induction p arbitrary: w tx r w' tx' fs)
  case (Done r0)
  then show ?case by (simp add: return_action_def)
next
  case (ReadVar v k)
  obtain x tx1 where R: "Transaction_read v (w, tx) = (Return (Inr x), w, tx1)"
    and K: "interp (k x) (w, tx1) = (Return r, w', tx')"
    using ReadVar.prems
    by (auto simp: bind_action_def Transaction_read_eq split: may_panic.splits)
  show ?case by (rule solos_step [OF _ ReadVar.IH [OF rangeI K]]) (simp add: R)
next
  case (WriteVar v x p)
  obtain w1 tx1 where W: "Transaction_write v x (w, tx) = (Return (Inr ()), w1, tx1)"
    and K: "interp p (w1, tx1) = (Return r, w', tx')"
    using WriteVar.prems by (auto simp: bind_action_def Transaction_write_eq)
  show ?case by (rule solos_step [OF _ WriteVar.IH [OF K]]) (simp add: W)
next
  case (OrElse p q k)
  have copy: "\<lparr>vars = vars tx\<rparr> = tx" by simp
  obtain r1 w1 tx1 where P: "interp p (w, tx) = (Return r1, w1, tx1)"
    using OrElse.prems
    by (auto simp: bind_action_def Transaction_or_def split: prod.splits may_panic.splits)
  have begin_or: "solos t p0 (w, Run (OrElse p q k) tx fs)
      (w1, Run (Done r1) tx1 (First tx p q k # fs))"
    by (rule solos_step [OF _ OrElse.IH(1) [OF P]]) simp
  show ?case
  proof (cases "r1 = Inl Retry")
    case False
    then have or1: "bind_action (\<lambda>_. (Return r1, w1, tx1)) (\<lambda>x. interp (k x)) c = (Return r, w', tx')"
      for c
      using OrElse.prems P
      by (auto simp: bind_action_def Transaction_or_def split: sum.splits StmError.splits)
    show ?thesis
    proof (cases r1)
      case (Inl e)
      with False or1 have "e = Failure" "r = Inl Failure" "w' = w1" "tx' = tx1"
        by (cases e; simp add: bind_action_def)+
      moreover have "solos t p0 (w1, Run (Done (Inl Failure)) tx1 (First tx p q k # fs))
          (w1, Run (Done (Inl Failure)) tx1 fs)"
        by (rule solos_one) simp
      ultimately show ?thesis using begin_or Inl by (auto intro: solos_trans)
    next
      case (Inr x)
      with or1 have "interp (k x) (w1, tx1) = (Return r, w', tx')" by (simp add: bind_action_def)
      then have "solos t p0 (w1, Run (Done (Inr x)) tx1 (First tx p q k # fs))
          (w', Run (Done r) tx' fs)"
        using OrElse.IH(3) [OF rangeI] by (intro solos_next) simp
      with begin_or Inr show ?thesis by (auto intro: solos_trans)
    qed
  next
    case True
    obtain r2 w2 tx2 where Q: "interp q (w1, tx) = (Return r2, w2, tx2)"
      using OrElse.prems P True
      by (auto simp: bind_action_def Transaction_or_def copy split: prod.splits may_panic.splits)
    have second: "solos t p0 (w, Run (OrElse p q k) tx fs)
        (w2, Run (Done r2) tx2 (Second tx1 k # fs))"
      using begin_or unfolding True
      by (rule solos_trans) (rule solos_step [OF _ OrElse.IH(2) [OF Q]], simp)
    have eq: "interp (OrElse p q k) (w, tx) =
        (case r2 of
           Inr x \<Rightarrow> interp (k x) (w2, Transaction_combine tx2 tx1)
         | Inl Retry \<Rightarrow> (Return (Inl Retry), w2, Transaction_combine tx2 tx1)
         | Inl Failure \<Rightarrow> (Return (Inl Failure), w2, tx2))"
      using P Q unfolding True
      by (simp add: bind_action_def Transaction_or_def copy split: sum.split StmError.split)
    have "solos t p0 (w2, Run (Done r2) tx2 (Second tx1 k # fs)) (w', Run (Done r) tx' fs)"
    proof (cases r2)
      case (Inl e)
      with OrElse.prems eq show ?thesis by (cases e; intro solos_next; auto)
    next
      case (Inr x)
      with OrElse.prems eq have "interp (k x) (w2, Transaction_combine tx2 tx1) = (Return r, w', tx')"
        by simp
      with OrElse.IH(3) [OF rangeI] Inr show ?thesis by (intro solos_next) simp
    qed
    with second show ?thesis by (rule solos_trans)
  qed
qed

subsection \<open>Commit\<close>

lemma solo_unlock: "solos t p0 (w, Unlocking lk gs rs) (w, Run p0 Transaction_new [])"
proof -
  have reads: "solos t p0 (w, Unlocking [] [] rs) (w, Run p0 Transaction_new [])" for rs
  proof (induction rs)
    case Nil
    show ?case by (rule solos_one) simp
  next
    case (Cons x rs)
    show ?case by (rule solos_step [OF _ Cons]) simp
  qed
  have writes: "solos t p0 (w, Unlocking [] gs rs) (w, Run p0 Transaction_new [])" for gs
  proof (induction gs)
    case (Cons x gs)
    show ?case by (rule solos_step [OF _ Cons]) simp
  qed (rule reads)
  show ?thesis
  proof (induction lk)
    case (Cons x lk)
    show ?case by (rule solos_step [OF _ Cons]) simp
  qed (rule writes)
qed

lemmas append_simps = append_assoc append_Cons append_Nil

lemma solo_lock:
  "solos t p0 (w, Locking dn todo rs ws wr v)
    (case commit_lock w todo rs ws wr of
       Some (rs', ws', wr') \<Rightarrow> (w, Locking (dn @ todo) [] rs' ws' wr' v)
     | None \<Rightarrow> (w, Run p0 Transaction_new []))"
proof (induction w todo rs ws wr arbitrary: dn rule: commit_lock.induct)
  case (1 w rs ws wr)
  show ?case by simp
next
  case (2 w x a todo rs ws wr)
  from 2 [of "dn @ [(x, Write a)]", unfolded append_simps] show ?case by (intro solos_next) simp
next
  case (3 w x b a todo rs ws wr)
  from 3 [of "dn @ [(x, ReadObsoleteWrite b a)]", unfolded append_simps] show ?case by (intro solos_next) simp
next
  case (4 w x b a todo rs ws wr)
  show ?case
  proof (cases "value_arc w x = b")
    case True
    with 4 [of "dn @ [(x, ReadWrite b a)]", unfolded append_simps] show ?thesis by (intro solos_next) simp
  next
    case False
    with solo_unlock [of t p0 w "[]" "x # map snd ws" rs] show ?thesis by (intro solos_next) simp
  qed
next
  case (5 w x b todo rs ws wr)
  from 5 [of "dn @ [(x, ReadObsolete b)]", unfolded append_simps] show ?case by (intro solos_next) simp
next
  case (6 w x b todo rs ws wr)
  show ?case
  proof (cases "value_arc w x = b")
    case True
    with 6 [of "dn @ [(x, Read b)]", unfolded append_simps] show ?thesis by (intro solos_next) simp
  next
    case False
    with solo_unlock [of t p0 w "[x]" "map snd ws" rs] show ?thesis by (intro solos_next) simp
  qed
qed

lemma solo_drop_reads: "solos t p0 (w, DropReads rs ws wr v) (w, Storing ws wr v)"
proof (induction rs)
  case Nil
  show ?case by (rule solos_one) simp
next
  case (Cons x rs)
  show ?case by (rule solos_step [OF _ Cons]) simp
qed

lemma solo_store: "solos t p0 (w, Storing ws wr v) (fold write_back ws w, Waking wr [] v)"
proof (induction ws arbitrary: w)
  case Nil
  show ?case by (rule solos_one) simp
next
  case (Cons ax ws)
  obtain a x where ax: "ax = (a, x)" by (cases ax)
  from Cons [of "write_back (a, x) w"] show ?case by (intro solos_next) (simp add: ax)
qed

lemma solo_wake_one: "solos t p0 (w, Waking wr (c # cs) v) (wake_one c w, Waking wr cs v)"
proof (cases "cb_alive w c")
  case True
  let ?w = "snd (cb_swap c (cb_hold c w))"
  have "solos t p0 (w, Waking wr (c # cs) v) (cb_hold c w, Notify KIdle c wr cs v)"
    by (rule solos_one) (simp add: True)
  also have "solos t p0 \<dots> (?w, Notify (if blocked (cbs w c) then KUnpark else KSkipped) c wr cs v)"
    by (rule solos_one) simp
  also have "solos t p0 \<dots> (wake_one c w, Waking wr cs v)"
  proof (cases "blocked (cbs w c)")
    case True
    have "solos t p0 (?w, Notify KUnpark c wr cs v) (cb_unpark c ?w, Notify KWoke c wr cs v)"
      by (rule solos_one) simp
    also have "solos t p0 \<dots> (wake_one c w, Waking wr cs v)"
      by (rule solos_one) (simp add: wake_one_steps [OF \<open>cb_alive w c\<close>] True)
    finally show ?thesis using True by simp
  next
    case False
    have "solos t p0 (?w, Notify KSkipped c wr cs v) (wake_one c w, Waking wr cs v)"
      by (rule solos_one) (simp add: wake_one_steps [OF \<open>cb_alive w c\<close>] False)
    with False show ?thesis by simp
  qed
  finally show ?thesis .
next
  case False
  then show ?thesis by (intro solos_next) (simp add: wake_one_def)
qed

lemma solo_wake_list: "solos t p0 (w, Waking wr cs v) (fold wake_one cs w, Waking wr [] v)"
proof (induction cs arbitrary: w)
  case Nil
  show ?case by simp
next
  case (Cons c cs)
  from solos_trans [OF solo_wake_one Cons] show ?case by simp
qed

lemma solo_wake:
  "solos t p0 (w, Waking wr [] v) (TransactionGuard_drop t (fold VarControlBlock_wake_all wr w), Idle)"
proof (induction wr arbitrary: w)
  case Nil
  show ?case by (rule solos_one) simp
next
  case (Cons x wr)
  have "solos t p0 (w, Waking (x # wr) [] v) (VarControlBlock_wake_all x w, Waking wr [] v)"
    using solo_wake_list by (intro solos_next) (simp add: VarControlBlock_wake_all_def Let_def)
  from solos_trans [OF this Cons] show ?case by simp
qed

lemma solo_commit:
  "solos t p0 (w, Run (Done (Inr x)) tx [])
    (if fst (Transaction_commit (w, tx))
     then (TransactionGuard_drop t (fst (snd (Transaction_commit (w, tx)))), Idle)
     else (fst (snd (Transaction_commit (w, tx))), Run p0 Transaction_new []))"
proof -
  have start: "solos t p0 (w, Run (Done (Inr x)) tx []) (w, Locking [] (btm_iter (vars tx)) [] [] [] x)"
    by (rule solos_one) simp
  show ?thesis
  proof (cases "commit_lock w (btm_iter (vars tx)) [] [] []")
    case None
    with solos_trans [OF start solo_lock] show ?thesis by (simp add: Transaction_commit_def)
  next
    case (Some r)
    obtain rs ws wr where r: "r = (rs, ws, wr)" by (cases r)
    have "solos t p0 (w, Locking (btm_iter (vars tx)) [] rs ws wr x)
        (TransactionGuard_drop t (fold VarControlBlock_wake_all wr (fold write_back ws w)), Idle)"
      by (rule solos_step [OF _ solos_trans [OF solo_drop_reads solos_trans [OF solo_store solo_wake]]])
        simp
    with solos_trans [OF start solo_lock] Some r show ?thesis
      by (auto simp: Transaction_commit_def intro: solos_trans)
  qed
qed

subsection \<open>Waiting\<close>

lemma solo_dying:
  "solos t p0 (w, Dying c xs) (cb_drop c (fold VarControlBlock_set_dead xs w), Run p0 Transaction_new [])"
proof (induction xs arbitrary: w)
  case Nil
  show ?case by (rule solos_one) simp
next
  case (Cons x xs)
  have "solos t p0 (w, Dying c (x # xs)) (VarControlBlock_set_dead x w, Dying c xs)"
  proof (cases "64 \<le> dead_threads (vcbs w x)")
    case True
    have "solos t p0 (snd (set_dead_count x w), Cleaning c x xs)
        (VarControlBlock_set_dead x w, Dying c xs)"
      by (rule solos_one) (simp add: set_dead_eq True)
    with True show ?thesis by (intro solos_next) (simp add: split_def Let_def)
  next
    case False
    then show ?thesis by (intro solos_next) (simp add: split_def Let_def set_dead_eq)
  qed
  from solos_trans [OF this Cons] show ?case by simp
qed

lemma solo_register:
  "wait_register c log (map fst reads) w = (b, rs, w1) \<Longrightarrow>
    \<exists>reads'. map fst reads' = (if b then rs else map fst reads') \<and>
      solos t p0 (w, Register c log reads) (w1, if b then Register c [] reads' else Dying c rs)"
proof (induction log arbitrary: reads w)
  case Nil
  then show ?case by auto
next
  case (Cons xe log)
  obtain x e where xe: "xe = (x, e)" by (cases xe)
  show ?case
  proof (cases "into_read_value e")
    case None
    with Cons.prems xe have "wait_register c log (map fst reads) w = (b, rs, w1)" by simp
    from Cons.IH [OF this] obtain reads' where r: "map fst reads' = (if b then rs else map fst reads')"
      and "solos t p0 (w, Register c log reads) (w1, if b then Register c [] reads' else Dying c rs)"
      by blast
    then have "solos t p0 (w, Register c (xe # log) reads)
        (w1, if b then Register c [] reads' else Dying c rs)"
      by (intro solos_next) (simp add: xe None)
    with r show ?thesis by blast
  next
    case (Some a)
    let ?w = "VarControlBlock_wait x c w"
    have start: "solos t p0 (w, Register c (xe # log) reads) (?w, Compare c x a log reads)"
      by (rule solos_one) (simp add: xe Some)
    show ?thesis
    proof (cases "value_arc w x = a")
      case True
      with Cons.prems xe Some
      have "wait_register c log (map fst (reads @ [(x, a)])) ?w = (b, rs, w1)" by simp
      from Cons.IH [OF this] obtain reads' where r: "map fst reads' = (if b then rs else map fst reads')"
        and "solos t p0 (?w, Register c log (reads @ [(x, a)]))
          (w1, if b then Register c [] reads' else Dying c rs)"
        by blast
      then have "solos t p0 (?w, Compare c x a log reads)
          (w1, if b then Register c [] reads' else Dying c rs)"
        using True by (intro solos_next) simp
      with r solos_trans [OF start] show ?thesis by blast
    next
      case False
      with Cons.prems xe Some have b: "\<not> b" "rs = map fst reads @ [x]" "w1 = ?w" by auto
      have "solos t p0 (?w, Compare c x a log reads) (w1, Dying c rs)"
        by (rule solos_one) (use b False in simp)
      with solos_trans [OF start] b(1) show ?thesis by auto
    qed
  qed
qed

lemma solo_wait:
  assumes "cb_alloc t w = (c, w0)" and "wait_register c (btm_iter (vars tx)) [] w0 = (b, rs, w1)"
  shows "if b
    then \<exists>reads. map fst reads = rs \<and> solos t p0 (w, Run (Done (Inl Retry)) tx []) (w1, Asleep c reads)
    else solos t p0 (w, Run (Done (Inl Retry)) tx [])
      (cb_drop c (fold VarControlBlock_set_dead rs w1), Run p0 Transaction_new [])"
proof -
  have start: "solos t p0 (w, Run (Done (Inl Retry)) tx []) (w0, Register c (btm_iter (vars tx)) [])"
    by (rule solos_one) (simp add: assms(1))
  from solo_register [of c "btm_iter (vars tx)" "[]" w0 b rs w1 t p0] assms(2)
  obtain reads where r: "map fst reads = (if b then rs else map fst reads)"
    and s: "solos t p0 (w0, Register c (btm_iter (vars tx)) [])
      (w1, if b then Register c [] reads else Dying c rs)" by auto
  show ?thesis
  proof (cases b)
    case True
    have "solos t p0 (w1, Register c [] reads) (w1, Asleep c reads)" by (rule solos_one) simp
    with True r s solos_trans [OF start] show ?thesis by (auto intro: solos_trans)
  next
    case False
    with s have "solos t p0 (w, Run (Done (Inl Retry)) tx []) (w1, Dying c rs)"
      using solos_trans [OF start] by simp
    from solos_trans [OF this solo_dying] False show ?thesis by simp
  qed
qed

text \<open>
  C21. The function model is the machine without interleaving: if a closure, run as a function,
  returns, then the machine takes the thread from its start through the closure to the end of its
  commit with exactly the world \<^verbatim>\<open>commit\<close> computes (idle on success, back at the start on failure), or
  through \<^verbatim>\<open>wait_for_change\<close>: straight back to the start, or to \<^verbatim>\<open>ControlBlock::wait\<close>, and from there, once the
  others have cleared the flag, back to the start with the world \<^verbatim>\<open>wait_for_change\<close> computes.
\<close>

theorem machine_runs_function_model:
  assumes "interp p (w, tx) = (Return r, w1, tx1)"
  shows "case r of
      Inr x \<Rightarrow> solos t p0 (w, Run p tx [])
        (if fst (Transaction_commit (w1, tx1))
         then (TransactionGuard_drop t (fst (snd (Transaction_commit (w1, tx1)))), Idle)
         else (fst (snd (Transaction_commit (w1, tx1))), Run p0 Transaction_new []))
    | Inl Failure \<Rightarrow> solos t p0 (w, Run p tx []) (w1, Run p0 Transaction_new [])
    | Inl Retry \<Rightarrow>
        (case Transaction_wait_for_change t others (w1, tx1) of
           None \<Rightarrow> \<exists>c reads w2. solos t p0 (w, Run p tx []) (w2, Asleep c reads) \<and>
             blocked (cbs (others w2) c)
         | Some (w3, tx3) \<Rightarrow>
             solos t p0 (w, Run p tx []) (w3, Run p0 Transaction_new []) \<or>
             (\<exists>c reads w2. solos t p0 (w, Run p tx []) (w2, Asleep c reads) \<and>
               solos t p0 (others w2, Asleep c reads) (w3, Run p0 Transaction_new [])))"
proof -
  have closure: "solos t p0 (w, Run p tx []) (w1, Run (Done r) tx1 [])"
    by (rule solo_closure [OF assms])
  consider (ok) x where "r = Inr x" | (fail) "r = Inl Failure" | (retry) "r = Inl Retry"
    by (metis StmError.exhaust sum.exhaust)
  then show ?thesis
  proof cases
    case ok
    with solos_trans [OF closure] solo_commit show ?thesis by simp
  next
    case fail
    have "solos t p0 (w1, Run (Done (Inl Failure)) tx1 []) (w1, Run p0 Transaction_new [])"
      by (rule solos_one) simp
    with fail solos_trans [OF closure] show ?thesis by simp
  next
    case retry
    obtain c w0 where c: "cb_alloc t w1 = (c, w0)" by (cases "cb_alloc t w1")
    obtain b rs w2 where b: "wait_register c (btm_iter (vars tx1)) [] w0 = (b, rs, w2)"
      by (cases "wait_register c (btm_iter (vars tx1)) [] w0")
    note wait = solo_wait [OF c b, of p0]
    show ?thesis
    proof (cases b)
      case False
      with wait retry solos_trans [OF closure] c b show ?thesis
        by (simp add: Transaction_wait_for_change_def)
    next
      case True
      with wait retry obtain reads where rs: "map fst reads = rs"
        and s: "solos t p0 (w, Run p tx []) (w2, Asleep c reads)"
        using solos_trans [OF closure] by auto
      have "solos t p0 (others w2, Asleep c reads)
          (cb_drop c (fold VarControlBlock_set_dead rs (others w2)), Run p0 Transaction_new [])"
        if "\<not> blocked (cbs (others w2) c)"
        using that rs solo_dying [of t p0 "others w2" c rs] by (intro solos_next) simp
      with True retry c b s show ?thesis
        by (cases "blocked (cbs (others w2) c)")
          (auto simp: Transaction_wait_for_change_def Let_def)
    qed
  qed
qed

lemma copy_run:
  "case interp copy_prog (demo_world, Transaction_new) of (r, c) \<Rightarrow>
     r = Return (Inr VUnit) \<and> fst (Transaction_commit c) \<and>
     contents (fst (snd (Transaction_commit c))) (VCB 64) = VInt 42"
  by code_simp

theorem machine_runs_function_model_witness:
  "\<exists>w'. solos 1 copy_prog (demo_world, Run copy_prog Transaction_new []) (w', Idle) \<and>
    contents w' (VCB 64) = VInt 42"
proof -
  obtain w1 tx1 where i: "interp copy_prog (demo_world, Transaction_new) = (Return (Inr VUnit), w1, tx1)"
    and c: "fst (Transaction_commit (w1, tx1))"
      "contents (fst (snd (Transaction_commit (w1, tx1)))) (VCB 64) = VInt 42"
    using copy_run by (auto split: prod.splits)
  have "contents (TransactionGuard_drop 1 w) = contents w" for w
    by (simp add: fun_eq_iff contents_def view_def seen_arc_def TransactionGuard_drop_def)
  with machine_runs_function_model [OF i, of 1 copy_prog] c show ?thesis by auto
qed

end
