(* ===== verification/Serial.thy ===== *)
theory Serial
  imports Sequential
begin

text \<open>
  What the commit of a transaction means when other threads interfere: the successful
  executions of a closure as one atomic step on a store (\<open>may\<close>), and the condition on a
  closure's stack of alternatives and its log (\<open>good\<close>) under which a later commit with a
  consistent log is such a step. An abandoned alternative is not validated by \<^verbatim>\<open>commit\<close> (its reads
  are \<^verbatim>\<open>ReadObsolete\<close>), so \<open>may\<close> takes a second alternative whenever the first one can retry
  under some answers to its reads; without \<^verbatim>\<open>or\<close> it is the reference semantics \<open>spec\<close>.
\<close>

subsection \<open>Possible results\<close>

text \<open>The results a closure can have when its reads are answered by any values of their types.\<close>

inductive result_of :: "prog \<Rightarrow> val StmResult \<Rightarrow> bool" where
  result_done: "result_of (Done r) r"
| result_read: "type_id x = marker v \<Longrightarrow> result_of (k x) r \<Longrightarrow> result_of (ReadVar v k) r"
| result_write: "result_of p r \<Longrightarrow> result_of (WriteVar v x p) r"
| result_first: "result_of p (Inr x) \<Longrightarrow> result_of (k x) r \<Longrightarrow> result_of (OrElse p q k) r"
| result_failure: "result_of p (Inl Failure) \<Longrightarrow> result_of (OrElse p q k) (Inl Failure)"
| result_second: "result_of p (Inl Retry) \<Longrightarrow> result_of q (Inr x) \<Longrightarrow> result_of (k x) r \<Longrightarrow>
    result_of (OrElse p q k) r"
| result_error: "result_of p (Inl Retry) \<Longrightarrow> result_of q (Inl e) \<Longrightarrow>
    result_of (OrElse p q k) (Inl e)"

inductive_simps result_of_simps [simp]:
  "result_of (Done r) r'"
  "result_of (ReadVar v k) r"
  "result_of (WriteVar v x p) r"
  "result_of (OrElse p q k) r"

text \<open>The successful executions of a closure on a store, with its value and the final store.\<close>

inductive may :: "prog \<Rightarrow> store \<Rightarrow> val \<Rightarrow> store \<Rightarrow> bool" where
  may_done: "may (Done (Inr v)) s v s"
| may_read: "may (k (s (control_block x))) s v s' \<Longrightarrow> may (ReadVar x k) s v s'"
| may_write: "may p (s(control_block x := y)) v s' \<Longrightarrow> may (WriteVar x y p) s v s'"
| may_first: "may p s x s1 \<Longrightarrow> may (k x) s1 v s' \<Longrightarrow> may (OrElse p q k) s v s'"
| may_second: "result_of p (Inl Retry) \<Longrightarrow> may q s x s1 \<Longrightarrow> may (k x) s1 v s' \<Longrightarrow>
    may (OrElse p q k) s v s'"

inductive_simps may_simps:
  "may (Done r) s v s'"
  "may (ReadVar x k) s v s'"
  "may (WriteVar x y p) s v s'"
  "may (OrElse p q k) s v s'"

primrec or_free :: "prog \<Rightarrow> bool" where
  "or_free (Done r) = True"
| "or_free (ReadVar v k) = (\<forall>x. or_free (k x))"
| "or_free (WriteVar v x p) = or_free p"
| "or_free (OrElse p q k) = False"

lemma may_iff_spec: "or_free p \<Longrightarrow> may p s v s' \<longleftrightarrow> spec p s = (Inr v, s')"
proof (induction p arbitrary: s)
  case (Done r)
  show ?case by (auto simp: may_simps spec_return_def)
next
  case (ReadVar x k)
  then show ?case by (simp add: may_simps spec_bind_def spec_read_def)
next
  case (WriteVar x y p)
  then show ?case by (simp add: may_simps spec_bind_def spec_write_def)
qed simp

text \<open>The reference semantics is one of the successful executions.\<close>

lemma spec_result:
  "prog_ok \<Gamma> L p \<Longrightarrow> store_typed \<Gamma> L s \<Longrightarrow> spec p s = (r, s') \<Longrightarrow>
    result_of p r \<and> store_typed \<Gamma> L s'"
proof (induction p arbitrary: s r s')
  case (Done r0)
  then show ?case by (simp add: spec_return_def)
next
  case (ReadVar x k)
  let ?y = "s (control_block x)"
  from ReadVar.prems have ty: "type_id ?y = marker x"
    by (simp add: store_typed_def var_ok_def)
  from ReadVar.prems ty have "result_of (k ?y) r \<and> store_typed \<Gamma> L s'"
    by (intro ReadVar.IH [OF rangeI]) (auto simp: spec_bind_def spec_read_def)
  with ty show ?case by auto
next
  case (WriteVar x y p)
  have "store_typed \<Gamma> L (s(control_block x := y))"
    using WriteVar.prems by (simp add: store_typed_def var_ok_def)
  with WriteVar show ?case by (simp add: spec_bind_def spec_write_def)
next
  case (OrElse p q k)
  obtain r1 s1 where p: "spec p s = (r1, s1)" by (cases "spec p s")
  have 1: "result_of p r1" "store_typed \<Gamma> L s1"
    using OrElse.IH(1) [OF _ _ p] OrElse.prems by simp_all
  obtain r2 s2 where q: "spec q s = (r2, s2)" by (cases "spec q s")
  have 2: "result_of q r2" "store_typed \<Gamma> L s2"
    using OrElse.IH(2) [OF _ _ q] OrElse.prems by simp_all
  note k = OrElse.IH(3) [OF rangeI]
  show ?case
    using OrElse.prems p q 1 2 k
    by (auto simp: spec_bind_def spec_or_def split: sum.splits StmError.splits)
qed

lemma spec_may:
  "prog_ok \<Gamma> L p \<Longrightarrow> store_typed \<Gamma> L s \<Longrightarrow> spec p s = (Inr v, s') \<Longrightarrow> may p s v s'"
proof (induction p arbitrary: s v s')
  case (Done r)
  then show ?case by (simp add: spec_return_def may_simps)
next
  case (ReadVar x k)
  then show ?case
    by (auto simp: may_simps spec_bind_def spec_read_def store_typed_def var_ok_def)
next
  case (WriteVar x y p)
  then show ?case
    by (auto simp: may_simps spec_bind_def spec_write_def store_typed_def var_ok_def)
next
  case (OrElse p q k)
  obtain r1 s1 where p: "spec p s = (r1, s1)" by (cases "spec p s")
  obtain r2 s2 where q: "spec q s = (r2, s2)" by (cases "spec q s")
  have ok: "prog_ok \<Gamma> L p" "prog_ok \<Gamma> L q" "prog_ok \<Gamma> L (k x)" for x
    using OrElse.prems by simp_all
  note 1 = spec_result [OF ok(1) OrElse.prems(2) p]
    and 2 = spec_result [OF ok(2) OrElse.prems(2) q]
  show ?case
  proof (cases r1)
    case (Inr x)
    then have "spec (k x) s1 = (Inr v, s')"
      using OrElse.prems(3) p by (simp add: spec_bind_def spec_or_def)
    then show ?thesis
      using OrElse.IH(1) [OF ok(1) OrElse.prems(2)] p Inr 1 OrElse.IH(3) [OF rangeI ok(3)]
      by (auto intro: may_first)
  next
    case (Inl e)
    then have e: "e = Retry" using OrElse.prems(3) p
      by (cases e) (simp_all add: spec_bind_def spec_or_def)
    then obtain x where x: "r2 = Inr x"
      using OrElse.prems(3) p q Inl by (cases r2) (simp_all add: spec_bind_def spec_or_def)
    then have "spec (k x) s2 = (Inr v, s')"
      using OrElse.prems(3) p q Inl e by (simp add: spec_bind_def spec_or_def)
    then show ?thesis
      using OrElse.IH(2) [OF ok(2) OrElse.prems(2)] q x e Inl 1 2 OrElse.IH(3) [OF rangeI ok(3)]
      by (auto intro: may_second)
  qed
qed

subsection \<open>Logs against stores\<close>

text \<open>
  The checked originals of a log agree with a store, and the store after the log's writes.
\<close>

definition consist :: "arena \<Rightarrow> (vcb_ref, LogVar) btree_map \<Rightarrow> store \<Rightarrow> bool" where
  "consist h m \<sigma> \<longleftrightarrow>
     (\<forall>x e a. btm_get m x = Some e \<longrightarrow> is_checked e \<longrightarrow> into_read_value e = Some a \<longrightarrow> \<sigma> x = deref h a)"

definition overlay :: "arena \<Rightarrow> (vcb_ref, LogVar) btree_map \<Rightarrow> store \<Rightarrow> store" where
  "overlay h m \<sigma> x =
     (case Option.bind (btm_get m x) pending_value of Some a \<Rightarrow> deref h a | None \<Rightarrow> \<sigma> x)"

lemma overlay_Nil [simp]: "overlay h [] \<sigma> = \<sigma>"
  by (simp add: overlay_def fun_eq_iff)

lemma consist_mono:
  assumes "log_ok \<Gamma> L w m" and "extends (heap w) h'"
  shows "consist h' m \<sigma> \<longleftrightarrow> consist (heap w) m \<sigma>"
proof -
  have "deref h' a = deref (heap w) a"
    if "btm_get m x = Some e" and "into_read_value e = Some a" for x e a
    using log_okD(2) [OF assms(1) that(1)] that(2) extends_deref [OF assms(2)]
    by (simp add: entry_ok_def arc_typed_def)
  then show ?thesis unfolding consist_def by metis
qed

lemma overlay_mono:
  assumes "log_ok \<Gamma> L w m" and "extends (heap w) h'"
  shows "overlay h' m \<sigma> = overlay (heap w) m \<sigma>"
proof
  fix x
  have "deref h' a = deref (heap w) a"
    if "btm_get m x = Some e" and "pending_value e = Some a" for e a
    using log_okD(2) [OF assms(1) that(1)] that(2) extends_deref [OF assms(2)]
    by (simp add: entry_ok_def arc_typed_def)
  then show "overlay h' m \<sigma> x = overlay (heap w) m \<sigma> x"
    by (auto simp: overlay_def bind_eq_Some_conv split: option.split)
qed

lemma consist_combine:
  assumes "btm_ok (vars tx)" and "btm_ok (vars f)"
    and "consist h (vars (Transaction_combine tx f)) \<sigma>"
  shows "consist h (vars tx) \<sigma>"
  using assms(3) unfolding consist_def by (auto simp: get_combine [OF assms(1,2)])

lemma overlay_combine:
  assumes "btm_ok (vars tx)" and "btm_ok (vars f)"
  shows "overlay h (vars (Transaction_combine tx f)) \<sigma> = overlay h (vars tx) \<sigma>"
proof
  fix x
  have "Option.bind (Option.bind y obsolete) pending_value = None" for y
    by (cases y; simp add: obsolete_def split: option.split; cases "the y"; simp)
  then show "overlay h (vars (Transaction_combine tx f)) \<sigma> x = overlay h (vars tx) \<sigma> x"
    by (simp add: overlay_def get_combine [OF assms] split: option.split)
qed

lemma consist_insert:
  assumes "consist h (btm_insert x e' m) \<sigma>" and "btm_ok m"
    and "\<And>e. btm_get m x = Some e \<Longrightarrow> is_checked e \<Longrightarrow>
      is_checked e' \<and> into_read_value e' = into_read_value e"
  shows "consist h m \<sigma>"
  unfolding consist_def
proof (intro allI impI)
  fix y e a
  assume e: "btm_get m y = Some e" "is_checked e" "into_read_value e = Some a"
  show "\<sigma> y = deref h a"
  proof (cases "y = x")
    case True
    with e assms show ?thesis by (simp add: consist_def)
  next
    case False
    with e assms(2) have "btm_get (btm_insert x e' m) y = Some e" by simp
    with assms(1) e show ?thesis unfolding consist_def by blast
  qed
qed

text \<open>What a read does to the log, and the value it returns under a later consistent store.\<close>

lemma read_entry_overlay:
  assumes "consist h (btm_insert x (snd (read_entry w x m)) m) \<sigma>" and "btm_ok m"
  shows "consist h m \<sigma>" and "overlay h m \<sigma> x = deref h (fst (read_entry w x m))"
    and "overlay h (btm_insert x (snd (read_entry w x m)) m) \<sigma> = overlay h m \<sigma>"
proof -
  let ?e = "snd (read_entry w x m)"
  have new: "is_checked ?e \<Longrightarrow> into_read_value ?e = Some a \<Longrightarrow> \<sigma> x = deref h a" for a
    using assms by (auto simp: consist_def)
  have old: "into_read_value ?e = into_read_value e \<and> (is_checked ?e \<longleftrightarrow> into_read_value e \<noteq> None)"
    if "btm_get m x = Some e" for e
    using that by (simp add: read_entry_def lv.read_orig lv.read_checked)
  show "consist h m \<sigma>"
    by (rule consist_insert [OF assms]) (use old lv.checked_orig in auto)
  show "overlay h m \<sigma> x = deref h (fst (read_entry w x m))"
  proof (cases "btm_get m x")
    case None
    then show ?thesis using new by (simp add: overlay_def read_entry_def)
  next
    case (Some e)
    show ?thesis
    proof (cases "pending_value e")
      case None
      then obtain a where "into_read_value e = Some a" using lv.some_value [of e] by auto
      with Some None old [OF Some] new [of a] show ?thesis
        by (simp add: overlay_def read_entry_def lv.read_value)
    qed (use Some in \<open>simp add: overlay_def read_entry_def lv.read_value\<close>)
  qed
  show "overlay h (btm_insert x ?e m) \<sigma> = overlay h m \<sigma>"
    using assms(2)
    by (auto simp: fun_eq_iff overlay_def read_entry_def lv.read_pending split: option.split)
qed

lemma write_entry_overlay:
  assumes "btm_ok m"
  shows "consist h (btm_insert x (write_entry a x m) m) \<sigma> \<Longrightarrow> consist h m \<sigma>"
    and "overlay h (btm_insert x (write_entry a x m) m) \<sigma> = (overlay h m \<sigma>)(x := deref h a)"
proof -
  have old: "into_read_value (write_entry a x m) = into_read_value e \<and>
      (is_checked (write_entry a x m) \<longleftrightarrow> is_checked e)" if "btm_get m x = Some e" for e
    using that by (simp add: write_entry_def lv.write_orig lv.write_checked)
  have pend: "pending_value (write_entry a x m) = Some a"
    by (simp add: write_entry_def lv.write_pending split: option.split)
  show "consist h m \<sigma>" if "consist h (btm_insert x (write_entry a x m) m) \<sigma>"
    by (rule consist_insert [OF that assms]) (use old in auto)
  show "overlay h (btm_insert x (write_entry a x m) m) \<sigma> = (overlay h m \<sigma>)(x := deref h a)"
    using assms by (auto simp: fun_eq_iff overlay_def pend)
qed

subsection \<open>The stack of alternatives\<close>

fun rest :: "frame \<Rightarrow> val \<Rightarrow> prog" where
  "rest (First c p q k) = k"
| "rest (Second f k) = k"

text \<open>The successful executions of the rest of a closure: the program and the frames above it.\<close>

fun kont_may :: "frame list \<Rightarrow> prog \<Rightarrow> store \<Rightarrow> val \<Rightarrow> store \<Rightarrow> bool" where
  "kont_may [] p s v s' = may p s v s'"
| "kont_may (f # fs) p s v s' = (\<exists>x s1. may p s x s1 \<and> kont_may fs (rest f x) s1 v s')"

lemma kont_may_mono:
  assumes "\<And>v s'. may p s v s' \<Longrightarrow> may p' t v s'"
  shows "kont_may fs p s v s' \<Longrightarrow> kont_may fs p' t v s'"
  using assms by (cases fs) auto

text \<open>The results of the enclosing alternative, given those of the current one.\<close>

fun after :: "frame \<Rightarrow> val StmResult set \<Rightarrow> val StmResult set" where
  "after (First c p q k) R =
     {r. \<exists>x. Inr x \<in> R \<and> result_of (k x) r} \<union> {r \<in> R. r = Inl Failure} \<union>
     {r. Inl Retry \<in> R \<and> (\<exists>x. result_of q (Inr x) \<and> result_of (k x) r)} \<union>
     {r. Inl Retry \<in> R \<and> result_of q r \<and> (\<exists>e. r = Inl e)}"
| "after (Second f k) R =
     {r. \<exists>x. Inr x \<in> R \<and> result_of (k x) r} \<union> {r \<in> R. \<exists>e. r = Inl e}"

text \<open>A first alternative on the stack retries only if it can.\<close>

fun honest :: "frame list \<Rightarrow> val StmResult set \<Rightarrow> bool" where
  "honest [] R = True"
| "honest (First c p q k # fs) R =
     ((Inl Retry \<in> R \<longrightarrow> result_of p (Inl Retry)) \<and> honest fs (after (First c p q k) R))"
| "honest (Second f k # fs) R = honest fs (after (Second f k) R)"

lemma after_mono: "R \<subseteq> R' \<Longrightarrow> after f R \<subseteq> after f R'"
  by (cases f) auto

lemma honest_mono: "honest fs R' \<Longrightarrow> R \<subseteq> R' \<Longrightarrow> honest fs R"
proof (induction fs arbitrary: R R')
  case (Cons f fs)
  have "after f R \<subseteq> after f R'" by (rule after_mono) (rule Cons.prems(2))
  with Cons show ?case by (cases f) auto
qed simp

text \<open>
  \<open>good\<close>: if the rest of the closure runs from the store the log stands for, and the log is
  consistent with a store, the whole closure \<open>p0\<close> runs from that store. \<open>frames_good\<close>: the same for
  every second alternative that may still be started.
\<close>

definition good :: "arena \<Rightarrow> prog \<Rightarrow> prog \<Rightarrow> Transaction \<Rightarrow> frame list \<Rightarrow> bool" where
  "good h p0 p tx fs \<longleftrightarrow>
     (\<forall>\<sigma> v s'. consist h (vars tx) \<sigma> \<longrightarrow> kont_may fs p (overlay h (vars tx) \<sigma>) v s' \<longrightarrow> may p0 \<sigma> v s')"

fun frames_good :: "arena \<Rightarrow> prog \<Rightarrow> frame list \<Rightarrow> bool" where
  "frames_good h p0 [] = True"
| "frames_good h p0 (First c p q k # fs) =
     ((result_of p (Inl Retry) \<longrightarrow> good h p0 q c (Second c k # fs)) \<and> frames_good h p0 fs)"
| "frames_good h p0 (Second f k # fs) = frames_good h p0 fs"

lemma good_Second: "good h p0 p tx (Second f k # fs) \<longleftrightarrow> good h p0 p tx (Second f' k # fs)"
  by (simp add: good_def)

lemma goodI:
  assumes "good h p0 p tx fs"
    and "\<And>\<sigma> v s'. consist h (vars tx') \<sigma> \<Longrightarrow> kont_may fs' p' (overlay h (vars tx') \<sigma>) v s' \<Longrightarrow>
      consist h (vars tx) \<sigma> \<and> kont_may fs p (overlay h (vars tx) \<sigma>) v s'"
  shows "good h p0 p' tx' fs'"
  using assms unfolding good_def by blast

lemma good_start: "good h p0 p0 Transaction_new []"
  by (simp add: good_def Transaction_new_def)

end
