(* ===== verification/Machine_Inv.thy ===== *)
theory Machine_Inv
  imports Serial
begin

text \<open>
  The invariant of a thread at each program counter and its preservation: by the thread's own
  steps, and by the steps of the others as long as they respect its guards. A crashed thread
  satisfies no invariant, so its preservation says that no downcast ever fails.
\<close>

subsection \<open>What the first phase of commit has collected\<close>

lemma log_checks_append [simp]: "log_checks w (xs @ ys) \<longleftrightarrow> log_checks w xs \<and> log_checks w ys"
  by (auto simp: log_checks_def)

lemma log_reads_append [simp]: "log_reads (xs @ ys) = log_reads xs @ log_reads ys"
  by (simp add: log_reads_def)

lemma log_writes_append [simp]: "log_writes (xs @ ys) = log_writes xs @ log_writes ys"
  by (induction xs rule: log_writes.induct) (simp_all split: option.split)

lemma need_of_simps:
  "need_of e = NoLock \<longleftrightarrow> (\<exists>b. e = ReadObsolete b)"
  "need_of e = ReadLock a \<longleftrightarrow> e = Read a"
  "need_of e = WriteLock a orig \<longleftrightarrow>
    pending_value e = Some a \<and> orig = (if is_checked e then into_read_value e else None)"
  by (cases e; auto)+

definition swapped :: "(vcb_ref \<times> arc) list \<Rightarrow> (arc \<times> vcb_ref) list" where
  "swapped xas = map (\<lambda>(x, a). (a, x)) xas"

lemma swapped_simps [simp]:
  "swapped [] = []"
  "swapped ((x, a) # xas) = (a, x) # swapped xas"
  "swapped (xs @ ys) = swapped xs @ swapped ys"
  "map snd (swapped xas) = map fst xas"
  "(a, x) \<in> set (swapped xas) \<longleftrightarrow> (x, a) \<in> set xas"
  by (auto simp: swapped_def)

subsection \<open>The invariant of a thread\<close>

fun frames_ok :: "tyenv \<Rightarrow> vcb_ref set \<Rightarrow> world \<Rightarrow> frame list \<Rightarrow> bool" where
  "frames_ok \<Gamma> L w [] = True"
| "frames_ok \<Gamma> L w (First c p q k # fs) =
     (log_ok \<Gamma> L w (vars c) \<and> prog_ok \<Gamma> L p \<and> prog_ok \<Gamma> L q \<and> (\<forall>x. prog_ok \<Gamma> L (k x)) \<and>
      frames_ok \<Gamma> L w fs)"
| "frames_ok \<Gamma> L w (Second f k # fs) =
     (log_ok \<Gamma> L w (vars f) \<and> (\<forall>x. prog_ok \<Gamma> L (k x)) \<and> frames_ok \<Gamma> L w fs)"

definition writes_ok :: "tyenv \<Rightarrow> vcb_ref set \<Rightarrow> world \<Rightarrow> (arc \<times> vcb_ref) list \<Rightarrow> bool" where
  "writes_ok \<Gamma> L w ws \<longleftrightarrow>
     distinct (map snd ws) \<and> (\<forall>(a, x) \<in> set ws. x \<in> L \<and> arc_typed w (\<Gamma> x) a)"

fun run_ok :: "tyenv \<Rightarrow> vcb_ref set \<Rightarrow> world \<Rightarrow> prog \<Rightarrow> prog \<Rightarrow> Transaction \<Rightarrow> frame list \<Rightarrow> bool" where
  "run_ok \<Gamma> L w p0 p tx fs =
     (prog_ok \<Gamma> L p \<and> log_ok \<Gamma> L w (vars tx) \<and> frames_ok \<Gamma> L w fs \<and>
      good (heap w) p0 p tx fs \<and> frames_good (heap w) p0 fs \<and> honest fs (Collect (result_of p)))"

text \<open>Committing the log now would be an execution of the closure with the value \<open>v\<close>.\<close>

definition commits :: "arena \<Rightarrow> prog \<Rightarrow> (vcb_ref, LogVar) btree_map \<Rightarrow> val \<Rightarrow> bool" where
  "commits h p0 m v \<longleftrightarrow> (\<forall>\<sigma>. consist h m \<sigma> \<longrightarrow> may p0 \<sigma> v (overlay h m \<sigma>))"

fun thread_ok :: "tyenv \<Rightarrow> vcb_ref set \<Rightarrow> world \<Rightarrow> prog \<Rightarrow> pc \<Rightarrow> bool" where
  "thread_ok \<Gamma> L w p0 Idle = True"
| "thread_ok \<Gamma> L w p0 (AtomicWrite v y) = (var_ok \<Gamma> L v \<and> type_id y = marker v)"
| "thread_ok \<Gamma> L w p0 (Crashed m) = False"
| "thread_ok \<Gamma> L w p0 (Run p tx fs) = (prog_ok \<Gamma> L p0 \<and> run_ok \<Gamma> L w p0 p tx fs)"
| "thread_ok \<Gamma> L w p0 (Locking dn todo rs ws wr v) =
     (prog_ok \<Gamma> L p0 \<and> log_ok \<Gamma> L w (dn @ todo) \<and> log_checks w dn \<and> rs = log_reads dn \<and>
      ws = swapped (log_writes dn) \<and> wr = map fst (log_writes dn) \<and>
      commits (heap w) p0 (dn @ todo) v)"
| "thread_ok \<Gamma> L w p0 (DropReads rs ws wr v) = (prog_ok \<Gamma> L p0 \<and> writes_ok \<Gamma> L w ws)"
| "thread_ok \<Gamma> L w p0 (Storing ws wr v) = (prog_ok \<Gamma> L p0 \<and> writes_ok \<Gamma> L w ws)"
| "thread_ok \<Gamma> L w p0 _ = prog_ok \<Gamma> L p0"

subsection \<open>Growing arenas\<close>

lemma frames_ok_mono: "frames_ok \<Gamma> L w fs \<Longrightarrow> extends (heap w) (heap w') \<Longrightarrow> frames_ok \<Gamma> L w' fs"
  by (induction \<Gamma> L w fs rule: frames_ok.induct) (auto intro: log_ok_mono)

lemma writes_ok_mono: "writes_ok \<Gamma> L w ws \<Longrightarrow> extends (heap w) (heap w') \<Longrightarrow> writes_ok \<Gamma> L w' ws"
  by (auto simp: writes_ok_def intro: arc_typed_mono)

lemma good_mono:
  assumes "log_ok \<Gamma> L w (vars tx)" and "extends (heap w) h'"
  shows "good h' p0 p tx fs \<longleftrightarrow> good (heap w) p0 p tx fs"
  unfolding good_def by (simp add: consist_mono [OF assms] overlay_mono [OF assms])

lemma frames_good_mono:
  assumes "extends (heap w) h'"
  shows "frames_ok \<Gamma> L w fs \<Longrightarrow> frames_good h' p0 fs = frames_good (heap w) p0 fs"
proof (induction fs)
  case (Cons f fs)
  then show ?case
    by (cases f) (simp_all add: good_mono [of \<Gamma> L w, OF _ assms])
qed simp

lemma run_ok_mono:
  assumes "run_ok \<Gamma> L w p0 p tx fs" and "extends (heap w) (heap w')"
  shows "run_ok \<Gamma> L w' p0 p tx fs"
  using assms
  by (auto simp: good_mono [OF _ assms(2)] frames_good_mono [OF assms(2)]
      intro: log_ok_mono frames_ok_mono)

lemma commits_mono:
  assumes "log_ok \<Gamma> L w m" and "extends (heap w) h'"
  shows "commits h' p0 m v \<longleftrightarrow> commits (heap w) p0 m v"
  unfolding commits_def by (simp add: consist_mono [OF assms] overlay_mono [OF assms])

text \<open>The guarded variables of a visited prefix are those \<^verbatim>\<open>commit\<close> has checked.\<close>

lemma checked_guarded:
  "(x, e) \<in> set dn \<Longrightarrow> is_checked e \<Longrightarrow>
    x \<in> set (log_reads dn) \<or> x \<in> set (map fst (log_writes dn))"
  unfolding set_log_writes by (auto simp: log_reads_def image_iff)

lemma log_checks_stable:
  assumes "log_checks w dn"
    and "\<And>x. x \<in> set (log_reads dn) \<union> set (map fst (log_writes dn)) \<Longrightarrow> value_arc w' x = value_arc w x"
  shows "log_checks w' dn"
  unfolding log_checks_def
proof clarify
  fix x e assume "(x, e) \<in> set dn" and "is_checked e"
  with assms(2) [of x] checked_guarded [of x e dn] assms(1)
  show "into_read_value e = Some (value_arc w' x)"
    unfolding log_checks_def by fastforce
qed

text \<open>A thread is not disturbed by steps that keep the values of the variables it guards.\<close>

lemma thread_ok_stable:
  assumes "thread_ok \<Gamma> L w p0 u" and "extends (heap w) (heap w')"
    and "\<And>x. x \<in> set (held_reads u) \<union> set (held_writes u) \<Longrightarrow> value_arc w' x = value_arc w x"
  shows "thread_ok \<Gamma> L w' p0 u"
proof (cases u)
  case (Run p tx fs)
  then show ?thesis using assms(1) run_ok_mono [OF _ assms(2)] by (simp del: run_ok.simps)
next
  case (Locking dn todo rs ws wr v)
  have inv: "log_ok \<Gamma> L w (dn @ todo)" "log_checks w dn" "rs = log_reads dn"
      "ws = swapped (log_writes dn)"
    using assms(1) by (simp_all add: Locking)
  have "log_checks w' dn"
    by (rule log_checks_stable [OF inv(2)], rule assms(3)) (simp add: Locking inv(3,4))
  then show ?thesis
    using assms(1) log_ok_mono [OF inv(1) assms(2)]
    by (simp add: Locking commits_mono [OF inv(1) assms(2)])
qed (use assms(1) writes_ok_mono [OF _ assms(2)] in auto)

subsection \<open>The steps inside a closure\<close>

lemma read_entry_typed:
  assumes "world_ok \<Gamma> w" and "x \<in> set (vcb_live w)" and "log_ok \<Gamma> L w m"
  shows "arc_typed w (\<Gamma> x) (fst (read_entry w x m))"
    and "entry_ok w (\<Gamma> x) (snd (read_entry w x m))"
proof -
  have "arc_typed w (\<Gamma> x) (fst (read_entry w x m)) \<and> entry_ok w (\<Gamma> x) (snd (read_entry w x m))"
  proof (cases "btm_get m x")
    case None
    then show ?thesis using world_okD [OF assms(1,2)] by (simp add: read_entry_def)
  next
    case (Some e)
    with log_okD(2) [OF assms(3)] have "entry_ok w (\<Gamma> x) e" by blast
    with Some show ?thesis by (cases e) (simp_all add: read_entry_def)
  qed
  then show "arc_typed w (\<Gamma> x) (fst (read_entry w x m))"
    and "entry_ok w (\<Gamma> x) (snd (read_entry w x m))" by simp_all
qed

lemma run_read_ok:
  assumes ok: "run_ok \<Gamma> L w p0 (ReadVar v k) tx fs"
    and w: "world_ok \<Gamma> w" "set (vcb_live w) = L"
  obtains x tx' where "Transaction_read v (w, tx) = (Return (Inr x), w, tx')"
    and "run_ok \<Gamma> L w p0 (k x) tx' fs"
proof -
  let ?x = "control_block v"
  let ?a = "fst (read_entry w ?x (vars tx))" and ?e = "snd (read_entry w ?x (vars tx))"
  let ?y = "deref (heap w) ?a"
  let ?tx = "tx\<lparr>vars := btm_insert ?x ?e (vars tx)\<rparr>"
  have log: "log_ok \<Gamma> L w (vars tx)" and v: "?x \<in> L" "marker v = \<Gamma> ?x"
    using ok by (simp_all add: var_ok_def)
  have x: "?x \<in> set (vcb_live w)" using v w by simp
  note ty = read_entry_typed [OF w(1) x log]
  have y: "type_id ?y = marker v" using ty(1) v by (simp add: arc_typed_def)
  have "Transaction_read v (w, tx) = (Return (Inr ?y), w, ?tx)"
    using y by (simp add: Transaction_read_eq Transaction_downcast_def downcast_ref_def)
  moreover have "run_ok \<Gamma> L w p0 (k ?y) ?tx fs"
    unfolding run_ok.simps
  proof (intro conjI)
    show "prog_ok \<Gamma> L (k ?y)" using ok y by simp
    show "log_ok \<Gamma> L w (vars ?tx)" using log_ok_insert [OF log v(1) ty(2)] by simp
    show "frames_ok \<Gamma> L w fs" and "frames_good (heap w) p0 fs" using ok by simp_all
    have "good (heap w) p0 (ReadVar v k) tx fs" using ok by simp
    then show "good (heap w) p0 (k ?y) ?tx fs"
    proof (rule goodI)
      fix \<sigma> u s'
      assume c: "consist (heap w) (vars ?tx) \<sigma>"
        and km: "kont_may fs (k ?y) (overlay (heap w) (vars ?tx) \<sigma>) u s'"
      note r = read_entry_overlay [OF c [simplified] log_okD(1) [OF log]]
      have "kont_may fs (ReadVar v k) (overlay (heap w) (vars tx) \<sigma>) u s'"
        using km by (rule kont_may_mono [rotated]) (simp add: may_simps r)
      with r(1) show "consist (heap w) (vars tx) \<sigma> \<and>
          kont_may fs (ReadVar v k) (overlay (heap w) (vars tx) \<sigma>) u s'" by blast
    qed
    have "honest fs (Collect (result_of (ReadVar v k)))" using ok by simp
    then show "honest fs (Collect (result_of (k ?y)))"
      by (rule honest_mono) (use y in auto)
  qed
  ultimately show thesis by (rule that)
qed

lemma run_write_ok:
  assumes ok: "run_ok \<Gamma> L w p0 (WriteVar v y p) tx fs"
    and eq: "Transaction_write v y (w, tx) = (r, w', tx')"
  shows "w' = snd (alloc_arc y w)" and "run_ok \<Gamma> L w' p0 p tx' fs"
proof -
  let ?x = "control_block v"
  let ?e = "write_entry (next_arc (heap w)) ?x (vars tx)"
  show w': "w' = snd (alloc_arc y w)" using eq by (simp add: Transaction_write_eq)
  have tx': "tx' = tx\<lparr>vars := btm_insert ?x ?e (vars tx)\<rparr>"
    using eq by (simp add: Transaction_write_eq)
  have ex: "extends (heap w) (heap w')" by (simp add: w')
  have ok': "run_ok \<Gamma> L w' p0 (WriteVar v y p) tx fs" by (rule run_ok_mono [OF ok ex])
  then have log: "log_ok \<Gamma> L w' (vars tx)" and v: "?x \<in> L" "type_id y = \<Gamma> ?x"
    by (simp_all add: var_ok_def)
  have a: "arc_typed w' (\<Gamma> ?x) (next_arc (heap w))"
    using arc_typed_alloc [of y w] v by (simp add: w')
  have e: "entry_ok w' (\<Gamma> ?x) ?e"
    using a log_okD(2) [OF log, of ?x]
    by (auto simp: write_entry_def intro: entry_ok_write split: option.split)
  have y: "deref (heap w') (next_arc (heap w)) = y" by (simp add: w')
  show "run_ok \<Gamma> L w' p0 p tx' fs"
    unfolding run_ok.simps
  proof (intro conjI)
    show "prog_ok \<Gamma> L p" and "frames_ok \<Gamma> L w' fs" and "frames_good (heap w') p0 fs"
      using ok' by simp_all
    have "honest fs (Collect (result_of (WriteVar v y p)))" using ok' by simp
    then show "honest fs (Collect (result_of p))" by (rule honest_mono) auto
    show "log_ok \<Gamma> L w' (vars tx')" using log_ok_insert [OF log v(1) e] by (simp add: tx')
    have "good (heap w') p0 (WriteVar v y p) tx fs" using ok' by simp
    then show "good (heap w') p0 p tx' fs"
    proof (rule goodI)
      fix \<sigma> u s'
      assume c: "consist (heap w') (vars tx') \<sigma>"
        and km: "kont_may fs p (overlay (heap w') (vars tx') \<sigma>) u s'"
      note r = write_entry_overlay [OF log_okD(1) [OF log]]
      have "kont_may fs (WriteVar v y p) (overlay (heap w') (vars tx) \<sigma>) u s'"
        using km by (rule kont_may_mono [rotated]) (simp add: may_simps r tx' y)
      with r(1) c show "consist (heap w') (vars tx) \<sigma> \<and>
          kont_may fs (WriteVar v y p) (overlay (heap w') (vars tx) \<sigma>) u s'"
        by (simp add: tx')
    qed
  qed
qed

lemma run_or_ok:
  assumes "run_ok \<Gamma> L w p0 (OrElse p q k) tx fs"
  shows "run_ok \<Gamma> L w p0 p tx (First tx p q k # fs)"
  unfolding run_ok.simps
proof (intro conjI)
  show "prog_ok \<Gamma> L p" and "log_ok \<Gamma> L w (vars tx)" and "frames_ok \<Gamma> L w (First tx p q k # fs)"
    using assms by simp_all
  have g: "good (heap w) p0 (OrElse p q k) tx fs" using assms by simp
  then show "good (heap w) p0 p tx (First tx p q k # fs)"
  proof (rule goodI)
    fix \<sigma> u s'
    assume c: "consist (heap w) (vars tx) \<sigma>"
      and km: "kont_may (First tx p q k # fs) p (overlay (heap w) (vars tx) \<sigma>) u s'"
    from km obtain x s1 where 1: "may p (overlay (heap w) (vars tx) \<sigma>) x s1"
      and 2: "kont_may fs (k x) s1 u s'" by auto
    have "kont_may fs (OrElse p q k) (overlay (heap w) (vars tx) \<sigma>) u s'"
      using 2 by (rule kont_may_mono [rotated]) (rule may_first [OF 1])
    with c show "consist (heap w) (vars tx) \<sigma> \<and>
        kont_may fs (OrElse p q k) (overlay (heap w) (vars tx) \<sigma>) u s'" by blast
  qed
  have "good (heap w) p0 q tx (Second tx k # fs)" if r: "result_of p (Inl Retry)"
    using g
  proof (rule goodI)
    fix \<sigma> u s'
    assume c: "consist (heap w) (vars tx) \<sigma>"
      and km: "kont_may (Second tx k # fs) q (overlay (heap w) (vars tx) \<sigma>) u s'"
    from km obtain x s1 where 1: "may q (overlay (heap w) (vars tx) \<sigma>) x s1"
      and 2: "kont_may fs (k x) s1 u s'" by auto
    have "kont_may fs (OrElse p q k) (overlay (heap w) (vars tx) \<sigma>) u s'"
      using 2 by (rule kont_may_mono [rotated]) (rule may_second [OF r 1])
    with c show "consist (heap w) (vars tx) \<sigma> \<and>
        kont_may fs (OrElse p q k) (overlay (heap w) (vars tx) \<sigma>) u s'" by blast
  qed
  then show "frames_good (heap w) p0 (First tx p q k # fs)" using assms by simp
  have "honest fs (Collect (result_of (OrElse p q k)))" using assms by simp
  moreover have "after (First tx p q k) (Collect (result_of p)) \<subseteq> Collect (result_of (OrElse p q k))"
    by auto
  ultimately have "honest fs (after (First tx p q k) (Collect (result_of p)))"
    by (rule honest_mono)
  then show "honest (First tx p q k # fs) (Collect (result_of p))" by simp
qed

lemma result_of_Done: "Collect (result_of (Done r)) = {r}"
  by auto

text \<open>An alternative that ends well returns to the enclosing one; \<open>f\<close> is the frame it leaves.\<close>

lemma run_return_ok:
  assumes "run_ok \<Gamma> L w p0 (Done (Inr x)) tx (f # fs)"
  shows "run_ok \<Gamma> L w p0 (rest f x) tx fs"
  unfolding run_ok.simps
proof (intro conjI)
  show "prog_ok \<Gamma> L (rest f x)" and "log_ok \<Gamma> L w (vars tx)" and "frames_ok \<Gamma> L w fs"
    and "frames_good (heap w) p0 fs"
    using assms by (cases f; simp)+
  have "good (heap w) p0 (Done (Inr x)) tx (f # fs)" using assms by simp
  then show "good (heap w) p0 (rest f x) tx fs"
    by (rule goodI) (auto simp: may_simps)
  have "honest fs (after f {Inr x})" using assms by (cases f) (simp_all add: result_of_Done)
  then show "honest fs (Collect (result_of (rest f x)))"
    by (rule honest_mono) (cases f; auto)
qed

text \<open>An alternative that ends in an error the enclosing one passes on.\<close>

lemma run_error_ok:
  assumes "run_ok \<Gamma> L w p0 (Done (Inl e)) tx (f # fs)" and "Inl e \<in> after f {Inl e}"
  shows "run_ok \<Gamma> L w p0 (Done (Inl e)) tx fs"
  unfolding run_ok.simps
proof (intro conjI)
  show "prog_ok \<Gamma> L (Done (Inl e))" and "log_ok \<Gamma> L w (vars tx)" and "frames_ok \<Gamma> L w fs"
    and "frames_good (heap w) p0 fs"
    using assms(1) by (cases f; simp)+
  show "good (heap w) p0 (Done (Inl e)) tx fs"
    unfolding good_def by (cases fs) (simp_all add: may_simps)
  have "honest fs (after f {Inl e})" using assms(1) by (cases f) (simp_all add: result_of_Done)
  then show "honest fs (Collect (result_of (Done (Inl e))))"
    by (rule honest_mono) (use assms(2) in \<open>simp add: result_of_Done\<close>)
qed

lemma run_fallback_ok:
  assumes "run_ok \<Gamma> L w p0 (Done (Inl Retry)) tx (First c p q k # fs)"
  shows "run_ok \<Gamma> L w p0 q c (Second tx k # fs)"
  unfolding run_ok.simps
proof (intro conjI)
  show "prog_ok \<Gamma> L q" and "log_ok \<Gamma> L w (vars c)" and "frames_ok \<Gamma> L w (Second tx k # fs)"
    and "frames_good (heap w) p0 (Second tx k # fs)"
    using assms by simp_all
  have "result_of p (Inl Retry)" using assms by (simp add: result_of_Done)
  then show "good (heap w) p0 q c (Second tx k # fs)"
    using assms good_Second [of "heap w" p0 q c tx k fs c] by simp
  have "honest fs (after (First c p q k) {Inl Retry})" using assms by (simp add: result_of_Done)
  then show "honest (Second tx k # fs) (Collect (result_of q))"
    by (auto intro: honest_mono)
qed

text \<open>Merging the log of the abandoned alternative.\<close>

lemma run_combine_ok:
  assumes "run_ok \<Gamma> L w p0 p tx fs" and "log_ok \<Gamma> L w (vars f)"
  shows "run_ok \<Gamma> L w p0 p (Transaction_combine tx f) fs"
proof -
  have log: "log_ok \<Gamma> L w (vars tx)" using assms(1) by simp
  note ok = log_okD(1) [OF log] log_okD(1) [OF assms(2)]
  have "good (heap w) p0 p tx fs" using assms(1) by simp
  then have "good (heap w) p0 p (Transaction_combine tx f) fs"
    by (rule goodI) (simp add: overlay_combine [OF ok] consist_combine [OF ok])
  with assms log_ok_combine [OF log assms(2)] show ?thesis by simp
qed

lemma run_start_ok: "prog_ok \<Gamma> L p \<Longrightarrow> run_ok \<Gamma> L w p p Transaction_new []"
  by (simp add: good_start) (simp add: Transaction_new_def log_ok_def)

text \<open>The closure has returned: the log is ready for \<^verbatim>\<open>commit\<close>.\<close>

lemma run_commits:
  assumes "run_ok \<Gamma> L w p0 (Done (Inr x)) tx []"
  shows "commits (heap w) p0 (vars tx) x"
  using assms by (auto simp: commits_def good_def may_simps)

subsection \<open>Every step of a thread\<close>

lemma write_back_simps [simp]:
  "heap (write_back (a, x) w) = heap w"
  "vcb_live (write_back (a, x) w) = vcb_live w"
  "value_arc (write_back (a, x) w) y = (if y = x then a else value_arc w y)"
  "waiters (write_back (a, x) w) y = waiters w y"
  "cbs (write_back (a, x) w) = cbs w"
  "cb_strong (write_back (a, x) w) = cb_strong w"
  "next_cb (write_back (a, x) w) = next_cb w"
  "tokens (write_back (a, x) w) = tokens w"
  by (simp_all add: write_back_def)

lemma read_world: "Transaction_read v (w, tx) = (r, w', tx') \<Longrightarrow> w' = w"
  by (simp add: Transaction_read_eq split: may_panic.splits)

lemma write_world: "Transaction_write v y (w, tx) = (r, w', tx') \<Longrightarrow> w' = snd (alloc_arc y w)"
  by (simp add: Transaction_write_eq)

lemma cb_alloc_world: "cb_alloc t w = (c, w') \<Longrightarrow> w' = snd (cb_alloc t w) \<and> c = next_cb w"
  by (metis fst_conv snd_conv cb_alloc_simps(1))

text \<open>What a step may change of the shared world.\<close>

lemma step_frame:
  assumes "local_step t p0 R W w u l w' u'"
  shows "extends (heap w) (heap w') \<and> vcb_live w' = vcb_live w \<and>
    (\<forall>x. value_arc w' x \<noteq> value_arc w x \<longrightarrow> x \<in> set (held_writes u) \<or> W x)"
  using assms
  by (cases rule: local_step.cases)
    (auto dest!: read_world write_world cb_alloc_world split: if_splits)

lemma step_world_ok:
  assumes "local_step t p0 R W w u l w' u'" and "world_ok \<Gamma> w" and "set (vcb_live w) = L"
    and "thread_ok \<Gamma> L w p0 u"
  shows "world_ok \<Gamma> w'"
proof (rule world_ok_mono [OF assms(2)])
  note frame = step_frame [OF assms(1)]
  show "extends (heap w) (heap w')" and "vcb_live w' = vcb_live w" using frame by simp_all
  fix x assume x: "x \<in> set (vcb_live w)" and ne: "value_arc w' x \<noteq> value_arc w x"
  show "arc_typed w' (\<Gamma> x) (value_arc w' x)"
    using assms(1,4) ne
    by (cases rule: local_step.cases)
      (auto dest!: read_world write_world cb_alloc_world simp: writes_ok_def arc_typed_def
        var_ok_def split: if_splits)
qed

lemma locking_append:
  assumes "thread_ok \<Gamma> L w p0 (Locking dn ((x, e) # todo) rs ws wr v)"
    and "log_checks w [(x, e)]" and "rs' = rs @ log_reads [(x, e)]"
    and "ws' = ws @ swapped (log_writes [(x, e)])" and "wr' = wr @ map fst (log_writes [(x, e)])"
  shows "thread_ok \<Gamma> L w p0 (Locking (dn @ [(x, e)]) todo rs' ws' wr' v)"
  using assms by simp

lemma step_thread_ok:
  assumes step: "local_step t p0 R W w u l w' u'" and w: "world_ok \<Gamma> w" "set (vcb_live w) = L"
    and ok: "thread_ok \<Gamma> L w p0 u"
  shows "thread_ok \<Gamma> L w' p0 u'"
  using step ok
proof (cases rule: local_step.cases)
  case (run_read tx v x tx' k fs)
  then have "run_ok \<Gamma> L w p0 (ReadVar v k) tx fs" using ok by (simp del: run_ok.simps)
  from run_read_ok [OF this w] run_read ok show ?thesis
    by (auto simp del: run_ok.simps)
next
  case (run_read_panic tx v m w2 tx' k fs)
  then have "run_ok \<Gamma> L w p0 (ReadVar v k) tx fs" using ok by (simp del: run_ok.simps)
  from run_read_ok [OF this w] run_read_panic show ?thesis by fastforce
next
  case (run_write v y tx r tx' p fs)
  with ok run_write_ok [of \<Gamma> L w p0 v y p tx fs] show ?thesis by (simp del: run_ok.simps)
next
  case (run_or p q k tx fs)
  with ok run_or_ok show ?thesis by (simp del: run_ok.simps)
next
  case (first_ok x tx c p q k fs)
  with ok run_return_ok [of \<Gamma> L w p0 x tx "First c p q k" fs] show ?thesis
    by (simp del: run_ok.simps)
next
  case (first_failure tx c p q k fs)
  with ok run_error_ok [of \<Gamma> L w p0 Failure tx "First c p q k" fs] show ?thesis
    by (simp del: run_ok.simps)
next
  case (first_retry tx c p q k fs)
  with ok run_fallback_ok [of \<Gamma> L w p0 tx c p q k fs] show ?thesis by (simp del: run_ok.simps)
next
  case (second_ok x tx f k fs)
  from ok have "run_ok \<Gamma> L w p0 (k x) tx fs" and "log_ok \<Gamma> L w (vars f)"
    using run_return_ok [of \<Gamma> L w p0 x tx "Second f k" fs] second_ok
    by (simp_all del: run_ok.simps) simp
  with ok second_ok show ?thesis by (simp add: run_combine_ok del: run_ok.simps)
next
  case (second_retry tx f k fs)
  from ok have "run_ok \<Gamma> L w p0 (Done (Inl Retry)) tx fs" and "log_ok \<Gamma> L w (vars f)"
    using run_error_ok [of \<Gamma> L w p0 Retry tx "Second f k" fs] second_retry
    by (simp_all del: run_ok.simps) simp
  with ok second_retry show ?thesis by (simp add: run_combine_ok del: run_ok.simps)
next
  case (second_failure tx f k fs)
  with ok run_error_ok [of \<Gamma> L w p0 Failure tx "Second f k" fs] show ?thesis
    by (simp del: run_ok.simps)
next
  case (commit_begin x tx)
  with ok have "run_ok \<Gamma> L w p0 (Done (Inr x)) tx []" by (simp del: run_ok.simps)
  from run_commits [OF this] ok commit_begin show ?thesis by (simp add: btm_iter_def)
next
  case (lock_none e dn x todo rs ws wr v)
  then show ?thesis using ok unfolding lock_none
    by (elim locking_append) (use lock_none in \<open>auto simp: need_of_simps\<close>)
next
  case (lock_read e a x dn todo rs ws wr v)
  then show ?thesis using ok unfolding lock_read
    by (elim locking_append) (use lock_read in \<open>auto simp: need_of_simps\<close>)
next
  case (lock_write e a orig x dn todo rs ws wr v)
  then show ?thesis using ok lv.checked_orig [of e] unfolding lock_write
    by (elim locking_append) (use lock_write in \<open>auto simp: need_of_simps\<close>)
next
  case (lock_done dn rs ws wr v)
  then have "distinct (map fst dn)" and "log_ok \<Gamma> L w dn"
    using ok btm.iter_distinct [of dn] log_okD(1) [of \<Gamma> L w dn] by (simp_all add: btm_iter_def)
  moreover have "x \<in> L \<and> arc_typed w (\<Gamma> x) a" if "(x, a) \<in> set (log_writes dn)" for x a
  proof -
    from that obtain e where "(x, e) \<in> set dn" and e: "pending_value e = Some a"
      by (auto simp: mem_log_writes)
    then have g: "btm_get dn x = Some e"
      using \<open>distinct (map fst dn)\<close> by (simp add: btm_get_def)
    from log_okD(2,3) [OF \<open>log_ok \<Gamma> L w dn\<close> g] e show ?thesis by (simp add: entry_ok_def)
  qed
  ultimately show ?thesis
    using ok lock_done by (auto simp: writes_ok_def distinct_log_writes)
next
  case (store_one a x ws wr v)
  then have "writes_ok \<Gamma> L w ws" using ok by (auto simp: writes_ok_def)
  then have "writes_ok \<Gamma> L w' ws" by (rule writes_ok_mono) (simp add: store_one)
  with ok store_one show ?thesis by simp
qed (use ok run_start_ok in \<open>auto simp del: run_ok.simps\<close>)

end
