(* ===== verification/Serializability.thy ===== *)
theory Serializability
  imports Machine_Inv
begin

text \<open>
  Every concurrent run is a serial one: each commit takes effect as one atomic execution of its
  closure at the moment it holds all its locks, and each \<^verbatim>\<open>write_atomic\<close> at its store. The laws of
  the locks are all the proof uses of them.
\<close>

subsection \<open>The invariant of the system\<close>

definition exclusive :: "sys \<Rightarrow> bool" where
  "exclusive s \<longleftrightarrow>
     (\<forall>t u x. t \<noteq> u \<and> x \<in> set (held_writes (pc_of s t)) \<longrightarrow>
        x \<notin> set (held_writes (pc_of s u)) \<and> x \<notin> set (held_reads (pc_of s u)))"

definition sys_ok :: "tyenv \<Rightarrow> vcb_ref set \<Rightarrow> sys \<Rightarrow> bool" where
  "sys_ok \<Gamma> L s \<longleftrightarrow>
     world_ok \<Gamma> (shared s) \<and> set (vcb_live (shared s)) = L \<and> exclusive s \<and>
     (\<forall>t. thread_ok \<Gamma> L (shared s) (closure (thr s t)) (pc_of s t))"

lemma sys_okD:
  assumes "sys_ok \<Gamma> L s"
  shows "world_ok \<Gamma> (shared s)" and "set (vcb_live (shared s)) = L" and "exclusive s"
    and "thread_ok \<Gamma> L (shared s) (closure (thr s t)) (pc_of s t)"
  using assms by (simp_all add: sys_ok_def)

lemma exclusiveD:
  "exclusive s \<Longrightarrow> t \<noteq> u \<Longrightarrow> x \<in> set (held_writes (pc_of s t)) \<Longrightarrow>
    x \<notin> set (held_writes (pc_of s u)) \<and> x \<notin> set (held_reads (pc_of s u))"
  unfolding exclusive_def by blast

lemma step_guards:
  assumes "local_step t p0 R W w u l w' u'"
  shows "x \<in> set (held_writes u') \<Longrightarrow> x \<in> set (held_writes u) \<or> W x"
    and "x \<in> set (held_reads u') \<Longrightarrow> x \<in> set (held_reads u) \<or> R x"
proof -
  have "(x \<in> set (held_writes u') \<longrightarrow> x \<in> set (held_writes u) \<or> W x) \<and>
      (x \<in> set (held_reads u') \<longrightarrow> x \<in> set (held_reads u) \<or> R x)"
    using assms by (cases rule: local_step.cases) auto
  then show "x \<in> set (held_writes u') \<Longrightarrow> x \<in> set (held_writes u) \<or> W x"
    and "x \<in> set (held_reads u') \<Longrightarrow> x \<in> set (held_reads u) \<or> R x" by blast+
qed

lemma exclusive_update:
  assumes "exclusive s"
    and "\<And>u x. t \<noteq> u \<Longrightarrow> x \<in> set (held_writes (pc r)) \<Longrightarrow>
      x \<notin> set (held_writes (pc_of s u)) \<and> x \<notin> set (held_reads (pc_of s u))"
    and "\<And>u x. t \<noteq> u \<Longrightarrow> x \<in> set (held_writes (pc_of s u)) \<Longrightarrow>
      x \<notin> set (held_writes (pc r)) \<and> x \<notin> set (held_reads (pc r))"
  shows "exclusive (s\<lparr>shared := w', thr := (thr s)(t := r)\<rparr>)"
  unfolding exclusive_def
proof (intro allI impI, elim conjE)
  fix a b x
  assume "a \<noteq> b" and "x \<in> set (held_writes (pc_of (s\<lparr>shared := w', thr := (thr s)(t := r)\<rparr>) a))"
  then show "x \<notin> set (held_writes (pc_of (s\<lparr>shared := w', thr := (thr s)(t := r)\<rparr>) b)) \<and>
      x \<notin> set (held_reads (pc_of (s\<lparr>shared := w', thr := (thr s)(t := r)\<rparr>) b))"
    using assms(2) [of b x] assms(3) [of a x] assms(1)
    by (cases "a = t"; cases "b = t") (simp_all add: exclusive_def)
qed

text \<open>A thread whose program counter holds no guard disturbs no other thread.\<close>

lemma sys_ok_update:
  assumes ok: "sys_ok \<Gamma> L s" and ex: "exclusive (s\<lparr>shared := w', thr := (thr s)(t := r)\<rparr>)"
    and w: "world_ok \<Gamma> w'" "vcb_live w' = vcb_live (shared s)"
    and others: "\<And>u. u \<noteq> t \<Longrightarrow> thread_ok \<Gamma> L w' (closure (thr s u)) (pc_of s u)"
    and this_ok: "thread_ok \<Gamma> L w' (closure r) (pc r)"
  shows "sys_ok \<Gamma> L (s\<lparr>shared := w', thr := (thr s)(t := r)\<rparr>)"
  unfolding sys_ok_def
proof (intro conjI allI)
  show "set (vcb_live (shared (s\<lparr>shared := w', thr := (thr s)(t := r)\<rparr>))) = L"
    using ok w(2) by (simp add: sys_ok_def)
  fix u
  show "thread_ok \<Gamma> L (shared (s\<lparr>shared := w', thr := (thr s)(t := r)\<rparr>))
      (closure (thr (s\<lparr>shared := w', thr := (thr s)(t := r)\<rparr>) u))
      (pc_of (s\<lparr>shared := w', thr := (thr s)(t := r)\<rparr>) u)"
    using others [of u] this_ok by (cases "u = t") simp_all
qed (use ex w in simp_all)

lemma initial_sys_ok: "initial \<Gamma> L s \<Longrightarrow> sys_ok \<Gamma> L s"
  by (auto simp: initial_def sys_ok_def exclusive_def)

context rwlock
begin

lemma granted_read:
  "may_read (view_lock s x) t \<Longrightarrow> x \<notin> set (held_writes (pc_of s u))"
  using read_excludes [of "view_lock s x" t] by (auto simp: view_lock_def)

lemma granted_write:
  "may_write (view_lock s x) t \<Longrightarrow>
    x \<notin> set (held_writes (pc_of s u)) \<and> x \<notin> set (held_reads (pc_of s u))"
  using write_excludes [of "view_lock s x" t] by (auto simp: view_lock_def)

lemma exclusive_step:
  assumes ex: "exclusive s"
    and step: "local_step t p0 (\<lambda>x. may_read (view_lock s x) t)
      (\<lambda>x. may_write (view_lock s x) t) (shared s) (pc_of s t) l w' u'"
  shows "exclusive (s\<lparr>shared := w', thr := (thr s)(t := (thr s t)\<lparr>pc := u'\<rparr>)\<rparr>)"
proof -
  have 1: "x \<notin> set (held_writes (pc_of s u)) \<and> x \<notin> set (held_reads (pc_of s u))"
    if "t \<noteq> u" and "x \<in> set (held_writes u')" for u x
    using step_guards(1) [OF step that(2)]
    by (rule disjE) (rule exclusiveD [OF ex that(1)], assumption, rule granted_write)
  have 2: "x \<notin> set (held_writes u') \<and> x \<notin> set (held_reads u')"
    if "t \<noteq> u" and "x \<in> set (held_writes (pc_of s u))" for u x
  proof -
    have "x \<notin> set (held_writes (pc_of s t)) \<and> x \<notin> set (held_reads (pc_of s t))"
      by (rule exclusiveD [OF ex _ that(2)]) (use that(1) in simp)
    moreover have "\<not> may_write (view_lock s x) t" and "\<not> may_read (view_lock s x) t"
      using that(2) granted_write granted_read by blast+
    ultimately show ?thesis using step_guards [OF step, of x] by blast
  qed
  show ?thesis
    by (rule exclusive_update [OF ex]; simp; rule 1 2; assumption)
qed

lemma sys_ok_local:
  assumes ok: "sys_ok \<Gamma> L s"
    and step: "local_step t (closure (thr s t)) (\<lambda>x. may_read (view_lock s x) t)
      (\<lambda>x. may_write (view_lock s x) t) (shared s) (pc_of s t) l w' u'"
  shows "sys_ok \<Gamma> L (s\<lparr>shared := w', thr := (thr s)(t := (thr s t)\<lparr>pc := u'\<rparr>)\<rparr>)"
proof -
  have w: "world_ok \<Gamma> (shared s)" "set (vcb_live (shared s)) = L" and ex: "exclusive s"
    and thr: "thread_ok \<Gamma> L (shared s) (closure (thr s u)) (pc_of s u)" for u
    using ok by (simp_all add: sys_ok_def)
  note frame = step_frame [OF step]
  have others: "thread_ok \<Gamma> L w' (closure (thr s u)) (pc_of s u)" if "u \<noteq> t" for u
  proof (rule thread_ok_stable [OF thr])
    show "extends (heap (shared s)) (heap w')" using frame by simp
    fix x assume x: "x \<in> set (held_reads (pc_of s u)) \<union> set (held_writes (pc_of s u))"
    show "value_arc w' x = value_arc (shared s) x"
    proof (rule ccontr)
      assume "value_arc w' x \<noteq> value_arc (shared s) x"
      with frame have "x \<in> set (held_writes (pc_of s t)) \<or> may_write (view_lock s x) t" by blast
      then have "x \<notin> set (held_writes (pc_of s u)) \<and> x \<notin> set (held_reads (pc_of s u))"
        by (rule disjE) (rule exclusiveD [OF ex that [symmetric]], assumption, rule granted_write)
      with x show False by blast
    qed
  qed
  show ?thesis
  proof (rule sys_ok_update [OF ok exclusive_step [OF ex step] step_world_ok [OF step w thr] _ others])
    show "vcb_live w' = vcb_live (shared s)" using frame by blast
    show "thread_ok \<Gamma> L w' (closure ((thr s t)\<lparr>pc := u'\<rparr>)) (pc ((thr s t)\<lparr>pc := u'\<rparr>))"
      using step_thread_ok [OF step w thr] by simp
  qed
qed

lemma sys_ok_step:
  assumes "mstep may_read may_write \<Gamma> L s l s'" and "sys_ok \<Gamma> L s"
  shows "sys_ok \<Gamma> L s'"
  using assms(1)
proof cases
  case (m_local t w' u')
  from sys_ok_local [OF assms(2) m_local(2)] show ?thesis unfolding m_local(1) .
next
  case (m_start t p w')
  have w': "w' = (shared s)\<lparr>running := (running (shared s))(t := True)\<rparr>"
    using m_start by (simp add: TransactionGuard_new_def split: if_splits)
  have "thread_ok \<Gamma> L w' (closure (thr s u)) (pc_of s u)" for u
  proof (rule thread_ok_stable)
    show "thread_ok \<Gamma> L (shared s) (closure (thr s u)) (pc_of s u)"
      using assms(2) by (simp add: sys_ok_def)
  qed (simp_all add: w')
  moreover have "world_ok \<Gamma> w'" and "exclusive s"
    using assms(2) by (simp_all add: world_ok_def arc_typed_def sys_ok_def w')
  ultimately show ?thesis
    using m_start run_start_ok [of \<Gamma> L p w'] unfolding m_start(2)
    by (intro sys_ok_update [OF assms(2) exclusive_update])
      (simp_all add: w' del: run_ok.simps)
next
  case (m_write t v y)
  have "exclusive s" and "world_ok \<Gamma> (shared s)"
    and "thread_ok \<Gamma> L (shared s) (closure (thr s u)) (pc_of s u)" for u
    using assms(2) by (simp_all add: sys_ok_def)
  then have "sys_ok \<Gamma> L (s\<lparr>shared := shared s,
      thr := (thr s)(t := (thr s t)\<lparr>pc := AtomicWrite v y\<rparr>)\<rparr>)"
    using m_write by (intro sys_ok_update [OF assms(2) exclusive_update]) simp_all
  with m_write show ?thesis by simp
next
  case (m_panic t p tx fs)
  let ?w = "TransactionGuard_drop t (shared s)"
  have "thread_ok \<Gamma> L ?w (closure (thr s u)) (pc_of s u)" for u
    by (rule thread_ok_stable [OF sys_okD(4) [OF assms(2)]]) simp_all
  moreover have "world_ok \<Gamma> ?w" and "exclusive s"
    using assms(2) by (simp_all add: world_ok_def arc_typed_def sys_ok_def)
  ultimately show ?thesis
    unfolding m_panic(2) by (intro sys_ok_update [OF assms(2) exclusive_update]) simp_all
next
  case (m_spurious t c reads)
  have "exclusive s" and "world_ok \<Gamma> (shared s)" and "prog_ok \<Gamma> L (closure (thr s t))"
    and "thread_ok \<Gamma> L (shared s) (closure (thr s u)) (pc_of s u)" for u
    using assms(2) m_spurious(3) sys_okD(4) [OF assms(2), of t] by (simp_all add: sys_ok_def)
  then have "sys_ok \<Gamma> L (s\<lparr>shared := shared s,
      thr := (thr s)(t := (thr s t)\<lparr>pc := Asleep c reads\<rparr>)\<rparr>)"
    by (intro sys_ok_update [OF assms(2) exclusive_update]) simp_all
  with m_spurious show ?thesis by simp
qed

end

subsection \<open>Serial runs\<close>

text \<open>
  One atomic step of the abstract machine: a committed transaction executes its closure as
  \<open>exec\<close> says, an atomic write stores its value, and nothing else touches the store.
\<close>

type_synonym semantics = "prog \<Rightarrow> store \<Rightarrow> val \<Rightarrow> store \<Rightarrow> bool"

inductive serial_step :: "semantics \<Rightarrow> store \<Rightarrow> label \<Rightarrow> store \<Rightarrow> bool" for exec :: semantics where
  serial_tau: "serial_step exec s Tau s"
| serial_commit: "exec p s v s' \<Longrightarrow> serial_step exec s (Commits t p v) s'"
| serial_write: "serial_step exec s (Writes x y) (s(x := y))"

inductive_simps serial_step_simps:
  "serial_step exec s Tau s'"
  "serial_step exec s (Commits t p v) s'"
  "serial_step exec s (Writes x y) s'"

inductive serial :: "semantics \<Rightarrow> store \<Rightarrow> label list \<Rightarrow> store \<Rightarrow> bool" for exec :: semantics where
  serial_nil: "serial exec s [] s"
| serial_snoc: "serial exec s ls s' \<Longrightarrow> serial_step exec s' l s'' \<Longrightarrow> serial exec s (ls @ [l]) s''"

lemma serial_mono:
  assumes "serial exec s ls s'"
    and "\<And>t p v s s'. Commits t p v \<in> set ls \<Longrightarrow> exec p s v s' \<Longrightarrow> exec' p s v s'"
  shows "serial exec' s ls s'"
  using assms
proof induction
  case (serial_snoc s ls s' l s'')
  have "serial_step exec' s' l s''"
    using serial_snoc.hyps(2)
  proof cases
    case (serial_commit p v t)
    then show ?thesis using serial_snoc.prems [of t p v s' s''] by (simp add: serial_step_simps)
  qed (simp_all add: serial_step_simps)
  moreover have "serial exec' s ls s'"
  proof (rule serial_snoc.IH)
    fix t p v s s' assume "Commits t p v \<in> set ls" and "exec p s v s'"
    then show "exec' p s v s'" by (intro serial_snoc.prems [of t]) simp_all
  qed
  ultimately show ?case by (rule serial.serial_snoc [rotated])
qed (rule serial_nil)

inductive_cases serial_NilE: "serial exec s [] s'"
inductive_cases serial_snocE: "serial exec s (ls @ [l]) s'"

lemma serial_Nil [simp]: "serial exec s [] s' \<longleftrightarrow> s' = s"
  by (auto intro: serial_nil elim: serial_NilE)

lemma serial_append_one:
  "serial exec s (ls @ [l]) s' \<longleftrightarrow> (\<exists>s1. serial exec s ls s1 \<and> serial_step exec s1 l s')"
  by (auto intro: serial_snoc elim!: serial_snocE)

lemma serial_append:
  "serial exec s (xs @ ys) s' \<longleftrightarrow> (\<exists>s1. serial exec s xs s1 \<and> serial exec s1 ys s')"
proof (induction ys arbitrary: s' rule: rev_induct)
  case (snoc y ys)
  have "serial exec s (xs @ ys @ [y]) s' \<longleftrightarrow>
      (\<exists>s1. serial exec s (xs @ ys) s1 \<and> serial_step exec s1 y s')"
    using serial_append_one [of exec s "xs @ ys" y s'] by simp
  also have "\<dots> \<longleftrightarrow> (\<exists>s1. serial exec s xs s1 \<and> serial exec s1 (ys @ [y]) s')"
    unfolding snoc.IH serial_append_one by blast
  finally show ?case .
qed simp

lemma serial_Cons [simp]:
  "serial exec s (l # ls) s' \<longleftrightarrow> (\<exists>s1. serial_step exec s l s1 \<and> serial exec s1 ls s')"
proof -
  have "serial exec s [l] s1 \<longleftrightarrow> serial_step exec s l s1" for s1
    using serial_append_one [of exec s "[]" l s1] by simp
  then show ?thesis using serial_append [of exec s "[l]" ls s'] by simp
qed

text \<open>The visible part of a run.\<close>

fun visible :: "label list \<Rightarrow> label list" where
  "visible [] = []"
| "visible (Tau # ls) = visible ls"
| "visible (l # ls) = l # visible ls"

lemma serial_visible: "serial exec s (visible ls) s' \<longleftrightarrow> serial exec s ls s'"
  by (induction ls arbitrary: s rule: visible.induct) (simp_all add: serial_step_simps)

lemma visible_filter: "visible ls = filter (\<lambda>l. l \<noteq> Tau) ls"
  by (induction ls rule: visible.induct) simp_all

subsection \<open>The store a concurrent state stands for\<close>

text \<open>The values a thread that has committed still has to store.\<close>

fun to_store :: "pc \<Rightarrow> (arc \<times> vcb_ref) list" where
  "to_store (DropReads rs ws wr v) = ws"
| "to_store (Storing ws wr v) = ws"
| "to_store _ = []"

definition represents :: "sys \<Rightarrow> store \<Rightarrow> bool" where
  "represents s \<sigma> \<longleftrightarrow>
     (\<forall>t a x. (a, x) \<in> set (to_store (pc_of s t)) \<longrightarrow> \<sigma> x = deref (heap (shared s)) a) \<and>
     (\<forall>x. (\<forall>t. x \<notin> snd ` set (to_store (pc_of s t))) \<longrightarrow> \<sigma> x = contents (shared s) x)"

lemma contents_eq:
  "contents w x = (if x \<in> set (vcb_live w) then deref (heap w) (value_arc w x) else VUnit)"
  by (simp add: contents_def view_def seen_arc_def)

lemma contents_extends:
  assumes "world_ok \<Gamma> w" and "extends (heap w) (heap w')" and "vcb_live w' = vcb_live w"
    and "value_arc w' x = value_arc w x"
  shows "contents w' x = contents w x"
  using world_okD [OF assms(1), of x] assms(3,4)
  by (auto simp: contents_eq arc_typed_def extends_deref [OF assms(2)])

lemma to_store_held: "(a, x) \<in> set (to_store u) \<Longrightarrow> x \<in> set (held_writes u)"
  by (cases u) force+

lemma to_store_ok:
  "thread_ok \<Gamma> L w p0 u \<Longrightarrow> distinct (map snd (to_store u)) \<and>
    (\<forall>(a, x) \<in> set (to_store u). x \<in> L \<and> arc_typed w (\<Gamma> x) a)"
  by (cases u) (simp_all add: writes_ok_def)

lemma representsD:
  assumes "represents s \<sigma>"
  shows "(a, x) \<in> set (to_store (pc_of s t)) \<Longrightarrow> \<sigma> x = deref (heap (shared s)) a"
    and "(\<And>t. x \<notin> snd ` set (to_store (pc_of s t))) \<Longrightarrow> \<sigma> x = contents (shared s) x"
  using assms unfolding represents_def by blast+

lemma representsI:
  assumes "\<And>t a x. (a, x) \<in> set (to_store (pc_of s t)) \<Longrightarrow> \<sigma> x = deref (heap (shared s)) a"
    and "\<And>x. (\<And>t. x \<notin> snd ` set (to_store (pc_of s t))) \<Longrightarrow> \<sigma> x = contents (shared s) x"
  shows "represents s \<sigma>"
  using assms unfolding represents_def by blast

text \<open>The steps that are visible in the store, and those that are not.\<close>

lemma step_visible:
  assumes "local_step t p0 R W w u l w' u'"
  obtains (silent) "l = Tau" "to_store u' = to_store u" "\<And>x. value_arc w' x = value_arc w x"
  | (commit) dn rs ws wr v where "l = Commits t p0 v" "u = Locking dn [] rs ws wr v"
      "u' = DropReads rs ws wr v" "w' = w"
  | (store) a x ws wr v where "l = Tau" "u = Storing ((a, x) # ws) wr v" "u' = Storing ws wr v"
      "w' = write_back (a, x) w"
  | (atomic) v y where "l = Writes (control_block v) y" "u = AtomicWrite v y" "u' = Idle"
      "w' = write_atomic v y w" "W (control_block v)"
  using assms
proof (cases rule: local_step.cases)
  case store_one
  then show thesis by (intro store)
next
  case lock_done
  then show thesis by (intro commit)
next
  case atomic_store
  then show thesis by (intro atomic)
qed (auto intro!: silent dest!: read_world write_world cb_alloc_world)

subsection \<open>Simulation\<close>

text \<open>What the state looks like after a step of the thread \<open>t\<close>.\<close>

abbreviation stepped :: "sys \<Rightarrow> tid \<Rightarrow> world \<Rightarrow> pc \<Rightarrow> sys" where
  "stepped s t w' u' \<equiv> s\<lparr>shared := w', thr := (thr s)(t := (thr s t)\<lparr>pc := u'\<rparr>)\<rparr>"

lemma represents_silent:
  assumes rep: "represents s \<sigma>" and ok: "sys_ok \<Gamma> L s"
    and ext: "extends (heap (shared s)) (heap w')" and live: "vcb_live w' = vcb_live (shared s)"
    and val: "\<And>x. value_arc w' x = value_arc (shared s) x"
    and same: "\<And>u. to_store (pc_of s' u) = to_store (pc_of s u)" and sh: "shared s' = w'"
  shows "represents s' \<sigma>"
proof (rule representsI)
  fix u a x assume "(a, x) \<in> set (to_store (pc_of s' u))"
  then have a: "(a, x) \<in> set (to_store (pc_of s u))" by (simp add: same)
  have "thread_ok \<Gamma> L (shared s) (closure (thr s u)) (pc_of s u)" using ok by (simp add: sys_ok_def)
  from to_store_ok [OF this] a have "allocated (heap (shared s)) a" by (auto simp: arc_typed_def)
  with representsD(1) [OF rep a] show "\<sigma> x = deref (heap (shared s')) a"
    by (simp add: sh extends_deref [OF ext])
next
  fix x assume "x \<notin> snd ` set (to_store (pc_of s' u))" for u
  then have "\<sigma> x = contents (shared s) x" by (intro representsD(2) [OF rep]) (simp add: same)
  then show "\<sigma> x = contents (shared s') x"
    using contents_extends [OF sys_okD(1) [OF ok] ext live val] by (simp add: sh)
qed

lemma represents_commit:
  assumes rep: "represents s \<sigma>" and ok: "sys_ok \<Gamma> L s"
    and u: "pc_of s t = Locking dn [] rs ws wr v"
  shows "may (closure (thr s t)) \<sigma> v (overlay (heap (shared s)) dn \<sigma>)"
    and "represents (stepped s t (shared s) (DropReads rs ws wr v)) (overlay (heap (shared s)) dn \<sigma>)"
proof -
  let ?w = "shared s"
  let ?s = "stepped s t ?w (DropReads rs ws wr v)"
  note ex = sys_okD(3) [OF ok]
  have thr: "thread_ok \<Gamma> L ?w (closure (thr s t)) (Locking dn [] rs ws wr v)"
    using sys_okD(4) [OF ok, of t] by (simp only: u)
  then have dn: "log_ok \<Gamma> L ?w dn" "log_checks ?w dn" "rs = log_reads dn"
      "ws = swapped (log_writes dn)" and com: "commits (heap ?w) (closure (thr s t)) dn v"
    by simp_all
  have dist: "distinct (map fst dn)"
    using btm.iter_distinct [OF log_okD(1) [OF dn(1)]] by (simp add: btm_iter_def)
  have guarded: "x \<notin> snd ` set (to_store (pc_of s r))"
    if "x \<in> set rs \<union> fst ` set (log_writes dn)" for x r
  proof (cases "r = t")
    case False
    then show ?thesis
      using that u exclusiveD [OF ex, of r t x] to_store_held [of _ x "pc_of s r"] dn(4)
      by force
  qed (simp add: u)
  have "consist (heap ?w) dn \<sigma>"
    unfolding consist_def
  proof (intro allI impI)
    fix x e a
    assume e: "btm_get dn x = Some e" "is_checked e" "into_read_value e = Some a"
    then have mem: "(x, e) \<in> set dn" by (simp add: btm_get_def map_of_SomeD)
    then have a: "a = value_arc ?w x" using dn(2) e by (auto simp: log_checks_def)
    have "x \<in> set rs \<union> fst ` set (log_writes dn)"
      using checked_guarded [OF mem e(2)] by (simp add: dn(3))
    from representsD(2) [OF rep guarded [OF this]] have "\<sigma> x = contents ?w x" .
    with log_okD(3) [OF dn(1) e(1)] ok a show "\<sigma> x = deref (heap ?w) a"
      by (simp add: contents_eq sys_ok_def)
  qed
  with com show "may (closure (thr s t)) \<sigma> v (overlay (heap ?w) dn \<sigma>)" by (simp add: commits_def)
  have ov: "overlay (heap ?w) dn \<sigma> x =
      (case map_of (log_writes dn) x of Some a \<Rightarrow> deref (heap ?w) a | None \<Rightarrow> \<sigma> x)" for x
    by (simp add: overlay_def map_of_log_writes [OF dist] btm_get_def)
  show "represents ?s (overlay (heap ?w) dn \<sigma>)"
  proof (rule representsI)
    fix r a x assume a: "(a, x) \<in> set (to_store (pc_of ?s r))"
    show "overlay (heap ?w) dn \<sigma> x = deref (heap (shared ?s)) a"
    proof (cases "r = t")
      case True
      then have "map_of (log_writes dn) x = Some a"
        using a dn(4) distinct_log_writes [OF dist] by simp
      then show ?thesis by (simp add: ov)
    next
      case False
      with a have a': "(a, x) \<in> set (to_store (pc_of s r))" by simp
      then have "x \<notin> fst ` set (log_writes dn)" using guarded [of x r] by force
      then have "map_of (log_writes dn) x = None" by (simp add: map_of_eq_None_iff)
      then show ?thesis using representsD(1) [OF rep a'] by (simp add: ov)
    qed
  next
    fix x assume none: "\<And>r. x \<notin> snd ` set (to_store (pc_of ?s r))"
    have "(a, x) \<notin> set (swapped (log_writes dn))" for a
      using none [of t] dn(4) by (force simp del: swapped_simps)
    then have "x \<notin> fst ` set (log_writes dn)" by auto
    then have "map_of (log_writes dn) x = None" by (simp add: map_of_eq_None_iff)
    moreover have "x \<notin> snd ` set (to_store (pc_of s r))" for r
      using none [of r] by (cases "r = t") (simp_all add: u)
    ultimately show "overlay (heap ?w) dn \<sigma> x = contents (shared ?s) x"
      using representsD(2) [OF rep] by (simp add: ov)
  qed
qed

lemma represents_store:
  assumes rep: "represents s \<sigma>" and ok: "sys_ok \<Gamma> L s"
    and u: "pc_of s t = Storing ((a, x) # ws) wr v"
  shows "represents (stepped s t (write_back (a, x) (shared s)) (Storing ws wr v)) \<sigma>"
proof -
  let ?s = "stepped s t (write_back (a, x) (shared s)) (Storing ws wr v)"
  have w: "writes_ok \<Gamma> L (shared s) ((a, x) # ws)"
    using sys_okD(4) [OF ok, of t] by (simp add: u)
  then have fresh: "x \<notin> snd ` set ws" and x: "x \<in> L" by (auto simp: writes_ok_def)
  have a: "\<sigma> x = deref (heap (shared s)) a"
    by (rule representsD(1) [OF rep, of a x t]) (simp add: u)
  have sub: "to_store (pc_of s r) = to_store (pc_of ?s r)" if "r \<noteq> t" for r
    using that by simp
  show ?thesis
  proof (rule representsI)
    fix r b y assume "(b, y) \<in> set (to_store (pc_of ?s r))"
    then have "(b, y) \<in> set (to_store (pc_of s r))" by (cases "r = t") (simp_all add: u)
    from representsD(1) [OF rep this] show "\<sigma> y = deref (heap (shared ?s)) b" by simp
  next
    fix y assume none: "\<And>r. y \<notin> snd ` set (to_store (pc_of ?s r))"
    show "\<sigma> y = contents (shared ?s) y"
    proof (cases "y = x")
      case True
      with a x sys_okD(2) [OF ok] show ?thesis by (simp add: contents_eq)
    next
      case False
      have "y \<notin> snd ` set (to_store (pc_of s r))" for r
        using none [of r] False by (cases "r = t") (simp_all add: u)
      from representsD(2) [OF rep this] False show ?thesis by (simp add: contents_eq)
    qed
  qed
qed

text \<open>An atomic write: no thread has a guard on the variable, so none has a store pending.\<close>

lemma represents_atomic:
  assumes rep: "represents s \<sigma>" and ok: "sys_ok \<Gamma> L s"
    and u: "pc_of s t = AtomicWrite v y"
    and free: "\<And>r. control_block v \<notin> set (held_writes (pc_of s r))"
  shows "represents (stepped s t (write_atomic v y (shared s)) Idle) (\<sigma>(control_block v := y))"
proof -
  let ?x = "control_block v" and ?w = "write_atomic v y (shared s)"
  let ?s = "stepped s t ?w Idle"
  have v: "?x \<in> L" using sys_okD(4) [OF ok, of t] by (simp add: u var_ok_def)
  have old: "(a, z) \<in> set (to_store (pc_of s r)) \<and> allocated (heap (shared s)) a \<and> z \<noteq> ?x"
    if "(a, z) \<in> set (to_store (pc_of ?s r))" for a z r
  proof -
    have a: "(a, z) \<in> set (to_store (pc_of s r))" using that by (cases "r = t") (simp_all add: u)
    with to_store_ok [OF sys_okD(4) [OF ok, of r]] have "allocated (heap (shared s)) a"
      by (auto simp: arc_typed_def)
    moreover have "z \<noteq> ?x" using to_store_held [OF a] free [of r] by auto
    ultimately show ?thesis using a by blast
  qed
  show ?thesis
  proof (rule representsI)
    fix r a z assume "(a, z) \<in> set (to_store (pc_of ?s r))"
    from old [OF this] representsD(1) [OF rep, of a z r]
    show "(\<sigma>(?x := y)) z = deref (heap (shared ?s)) a"
      by (simp add: deref_Arc_new_old)
  next
    fix z assume none: "\<And>r. z \<notin> snd ` set (to_store (pc_of ?s r))"
    show "(\<sigma>(?x := y)) z = contents (shared ?s) z"
    proof (cases "z = ?x")
      case True
      with v sys_okD(2) [OF ok] show ?thesis by (simp add: contents_eq)
    next
      case False
      have "z \<notin> snd ` set (to_store (pc_of s r))" for r
        using none [of r] by (cases "r = t") (simp_all add: u)
      from representsD(2) [OF rep this] have "\<sigma> z = contents (shared s) z" .
      also have "\<dots> = contents ?w z"
        by (rule contents_extends [symmetric, OF sys_okD(1) [OF ok]]) (use False in simp_all)
      finally show ?thesis using False by simp
    qed
  qed
qed

context rwlock
begin

lemma simulation_step:
  assumes "mstep may_read may_write \<Gamma> L s l s'" and ok: "sys_ok \<Gamma> L s" and rep: "represents s \<sigma>"
  shows "\<exists>\<sigma>'. serial_step may \<sigma> l \<sigma>' \<and> represents s' \<sigma>'"
  using assms(1)
proof cases
  case (m_local t w' u')
  note frame = step_frame [OF m_local(2)]
  from m_local(2) show ?thesis
  proof (cases rule: step_visible)
    case silent
    have "represents s' \<sigma>"
      by (rule represents_silent [OF rep ok, of w']) (use frame silent m_local(1) in auto)
    with silent(1) show ?thesis by (auto intro: serial_tau)
  next
    case (commit dn rs ws wr v)
    with represents_commit [OF rep ok, of t dn rs ws wr v] m_local(1) show ?thesis
      by (auto intro: serial_step.serial_commit)
  next
    case (store a x ws wr v)
    with represents_store [OF rep ok, of t a x ws wr v] m_local(1) show ?thesis
      by (auto intro: serial_tau)
  next
    case (atomic v y)
    have "represents (stepped s t (write_atomic v y (shared s)) Idle) (\<sigma>(control_block v := y))"
      by (rule represents_atomic [OF rep ok atomic(2)]) (use granted_write [OF atomic(5)] in simp)
    with atomic m_local(1) show ?thesis by (auto intro: serial_write)
  qed
next
  case (m_start t p w')
  have "represents s' \<sigma>"
    by (rule represents_silent [OF rep ok, of w'])
      (use m_start in \<open>auto simp: TransactionGuard_new_def split: if_splits\<close>)
  with m_start show ?thesis by (auto intro: serial_tau)
next
  case (m_write t v y)
  have "represents s' \<sigma>"
    by (rule represents_silent [OF rep ok, of "shared s"]) (use m_write in auto)
  with m_write show ?thesis by (auto intro: serial_tau)
next
  case (m_panic t p tx fs)
  have "represents s' \<sigma>"
    by (rule represents_silent [OF rep ok, of "TransactionGuard_drop t (shared s)"])
      (use m_panic in auto)
  with m_panic show ?thesis by (auto intro: serial_tau)
next
  case (m_spurious t c reads)
  have "represents s' \<sigma>"
    by (rule represents_silent [OF rep ok, of "shared s"]) (use m_spurious in auto)
  with m_spurious show ?thesis by (auto intro: serial_tau)
qed

lemma simulation:
  assumes "mrun may_read may_write \<Gamma> L s ls s'" and "initial \<Gamma> L s"
  shows "sys_ok \<Gamma> L s' \<and> (\<exists>\<sigma>. serial may (contents (shared s)) ls \<sigma> \<and> represents s' \<sigma>)"
  using assms
proof induction
  case (mrun_nil s)
  have "represents s (contents (shared s))"
    by (rule representsI) (use mrun_nil in \<open>simp_all add: initial_def\<close>)
  with initial_sys_ok [OF mrun_nil] show ?case by (blast intro: serial_nil)
next
  case (mrun_snoc s ls s' l s'')
  then obtain \<sigma> where "sys_ok \<Gamma> L s'" and run: "serial may (contents (shared s)) ls \<sigma>"
    and "represents s' \<sigma>" by blast
  with simulation_step [OF mrun_snoc.hyps(2)] obtain \<sigma>'
    where "serial_step may \<sigma> l \<sigma>'" and "represents s'' \<sigma>'" by blast
  with run sys_ok_step [OF mrun_snoc.hyps(2) \<open>sys_ok \<Gamma> L s'\<close>] show ?case
    by (blast intro: serial.serial_snoc)
qed

end

end
