(* ===== verification/Concurrency.thy ===== *)
theory Concurrency
  imports Serializability
begin

text \<open>
  The correctness theorems of concurrent runs, and concrete runs that instantiate them.
\<close>

text \<open>
  C1. Strict serializability: in every concurrent run, whatever the lock grants among compatible
  requests, however the threads interleave and wherever closures panic, the commits and atomic writes, in the order in
  which they happen, form a serial run from the initial contents of the variables, in which a
  transaction does what \<open>may\<close> allows it to: its reference semantics, except that the second alternative of
  an \<^verbatim>\<open>or\<close> may run whenever the first one can retry on some values; whenever no
  committed transaction is still writing back, the variables hold exactly the store of that serial
  run; no two threads hold conflicting guards, and no thread ever crashes on a wrong type.
\<close>

theorem concurrent_runs_are_serializable:
  assumes "rwlock may_read may_write" and "initial \<Gamma> L s"
    and "mrun may_read may_write \<Gamma> L s ls s'"
  shows "(\<exists>\<sigma>. serial may (contents (shared s)) ls \<sigma> \<and>
      ((\<forall>t. to_store (pc_of s' t) = []) \<longrightarrow> contents (shared s') = \<sigma>)) \<and>
    exclusive s' \<and> (\<forall>t m. pc_of s' t \<noteq> Crashed m)"
proof -
  from rwlock.simulation [OF assms(1,3,2)] obtain \<sigma>
    where ok: "sys_ok \<Gamma> L s'" and run: "serial may (contents (shared s)) ls \<sigma>"
      and rep: "represents s' \<sigma>" by blast
  have "contents (shared s') = \<sigma>" if "\<forall>t. to_store (pc_of s' t) = []"
    using representsD(2) [OF rep] that by (simp add: fun_eq_iff)
  moreover have "pc_of s' t \<noteq> Crashed m" for t m
    using sys_okD(4) [OF ok, of t] by (cases "pc_of s' t") auto
  ultimately show ?thesis using run sys_okD(3) [OF ok] by blast
qed

lemma or_free_simulation:
  assumes "rwlock may_read may_write" and "initial \<Gamma> L s"
    and "mrun may_read may_write \<Gamma> L s ls s'"
    and "\<And>t p v. Commits t p v \<in> set ls \<Longrightarrow> or_free p"
  obtains \<sigma> where "serial (\<lambda>p \<sigma> v \<sigma>'. spec p \<sigma> = (Inr v, \<sigma>')) (contents (shared s)) ls \<sigma>"
    and "(\<forall>t. to_store (pc_of s' t) = []) \<longrightarrow> contents (shared s') = \<sigma>"
proof -
  from rwlock.simulation [OF assms(1,3,2)] obtain \<sigma>
    where run: "serial may (contents (shared s)) ls \<sigma>" and rep: "represents s' \<sigma>" by blast
  have "serial (\<lambda>p \<sigma> v \<sigma>'. spec p \<sigma> = (Inr v, \<sigma>')) (contents (shared s)) ls \<sigma>"
    by (rule serial_mono [OF run]) (use assms(4) may_iff_spec in blast)
  moreover have "(\<forall>t. to_store (pc_of s' t) = []) \<longrightarrow> contents (shared s') = \<sigma>"
    using representsD(2) [OF rep] by (simp add: fun_eq_iff)
  ultimately show thesis by (rule that)
qed

text \<open>
  C11. For closures without \<^verbatim>\<open>or\<close> the serial run is one of the reference semantics: each committed
  transaction returns the value, and leaves the store, that \<open>spec\<close> computes from the store left by
  the commits before it.
\<close>

theorem commits_meet_specification:
  assumes "rwlock may_read may_write" and "initial \<Gamma> L s"
    and "mrun may_read may_write \<Gamma> L s ls s'"
    and "\<And>t p v. Commits t p v \<in> set ls \<Longrightarrow> or_free p"
  shows "\<exists>\<sigma>. serial (\<lambda>p \<sigma> v \<sigma>'. spec p \<sigma> = (Inr v, \<sigma>')) (contents (shared s)) ls \<sigma> \<and>
    ((\<forall>t. to_store (pc_of s' t) = []) \<longrightarrow> contents (shared s') = \<sigma>)"
proof -
  obtain \<sigma> where "serial (\<lambda>p \<sigma> v \<sigma>'. spec p \<sigma> = (Inr v, \<sigma>')) (contents (shared s)) ls \<sigma>"
    and "(\<forall>t. to_store (pc_of s' t) = []) \<longrightarrow> contents (shared s') = \<sigma>"
    by (rule or_free_simulation [OF assms(1-3)]) (rule assms(4))
  then show ?thesis by blast
qed

subsection \<open>Two threads that increment the same variable\<close>

text \<open>
  Both threads read 42; thread 1 commits first, thread 2 fails its commit, runs again and
  commits. This is \<^verbatim>\<open>modify\<close> under contention.
\<close>

definition incr_prog :: prog where
  "incr_prog = ReadVar demo_x (\<lambda>v. WriteVar demo_x (val_succ v) (Done (Inr v)))"

definition incr_events :: "event list" where
  "incr_events = [Start 1 incr_prog, Start 2 incr_prog, Go 1, Go 2] @ gos 1 9 @ gos 2 15"

fun is_idle :: "pc \<Rightarrow> bool" where
  "is_idle Idle = True"
| "is_idle _ = False"

lemma is_idle_iff: "is_idle u \<longleftrightarrow> u = Idle"
  by (cases u) simp_all

lemma incr_run:
  "map_option (\<lambda>(ls, s). (map (\<lambda>l. case l of Commits t p v \<Rightarrow> (t, v) | _ \<Rightarrow> (0, VUnit)) (visible ls),
       is_idle (pc_of s 1), is_idle (pc_of s 2), contents (shared s) (VCB 16)))
     (run_schedule [1, 2] incr_events demo_sys) =
   Some ([(1, VInt 42), (2, VInt 43)], True, True, VInt 44)"
  by code_simp

text \<open>The run itself, with what the theorems need to know of it.\<close>

lemma incr_mrun:
  obtains ls s where "mrun eager_read writer_first_write demo_types {VCB 16, VCB 64} demo_sys ls s"
    and "\<And>t. pc_of s t = Idle" and "contents (shared s) (VCB 16) = VInt 44"
    and "\<And>t p v. Commits t p v \<in> set ls \<Longrightarrow> or_free p"
proof -
  from incr_run obtain ls s where r: "run_schedule [1, 2] incr_events demo_sys = Some (ls, s)"
    and s: "is_idle (pc_of s 1)" "is_idle (pc_of s 2)" "contents (shared s) (VCB 16) = VInt 44"
    by auto
  have "list_all (event_ok demo_types {VCB 16, VCB 64}) incr_events"
    by (auto simp: incr_events_def gos_def incr_prog_def var_ok_def demo_x_def demo_types_def
        list_all_iff)
  from schedule_mrun [OF r demo_idle this]
  have m: "mrun eager_read writer_first_write demo_types {VCB 16, VCB 64} demo_sys ls s"
    and i: "idle_but [1, 2] s" by simp_all
  have "pc_of s t = Idle" for t
    using i s by (cases "t \<in> {1, 2}") (auto simp: idle_but_def is_idle_iff)
  moreover have "or_free p" if "Commits t p v \<in> set ls" for t p v
    using schedule_commits [OF r that]
    by (auto simp: incr_events_def gos_def demo_sys_def incr_prog_def)
  ultimately show thesis using that [OF m _ s(3)] by blast
qed

theorem concurrent_runs_are_serializable_witness:
  "\<exists>ls s \<sigma>. mrun eager_read writer_first_write demo_types {VCB 16, VCB 64} demo_sys ls s \<and>
    serial may (contents demo_world) ls \<sigma> \<and> \<sigma> (VCB 16) = VInt 44 \<and> exclusive s"
proof -
  obtain ls s where run: "mrun eager_read writer_first_write demo_types {VCB 16, VCB 64} demo_sys ls s"
    and idle: "\<And>t. pc_of s t = Idle" and x: "contents (shared s) (VCB 16) = VInt 44"
    by (rule incr_mrun) blast
  from concurrent_runs_are_serializable [OF eager_lock.rwlock_axioms demo_initial run]
  show ?thesis using run idle x by (auto simp: demo_sys_def)
qed

theorem commits_meet_specification_witness:
  "\<exists>ls \<sigma>. serial (\<lambda>p \<sigma> v \<sigma>'. spec p \<sigma> = (Inr v, \<sigma>')) (contents demo_world) ls \<sigma> \<and>
    \<sigma> (VCB 16) = VInt 44"
proof -
  obtain ls s where run: "mrun eager_read writer_first_write demo_types {VCB 16, VCB 64} demo_sys ls s"
    and idle: "\<And>t. pc_of s t = Idle" and x: "contents (shared s) (VCB 16) = VInt 44"
    and free: "\<And>t p v. Commits t p v \<in> set ls \<Longrightarrow> or_free p"
    by (rule incr_mrun) blast
  have "\<exists>\<sigma>. serial (\<lambda>p \<sigma> v \<sigma>'. spec p \<sigma> = (Inr v, \<sigma>')) (contents (shared demo_sys)) ls \<sigma> \<and>
      ((\<forall>t. to_store (pc_of s t) = []) \<longrightarrow> contents (shared s) = \<sigma>)"
    by (rule commits_meet_specification [OF eager_lock.rwlock_axioms demo_initial run]) (rule free)
  then show ?thesis using idle x by (auto simp: demo_sys_def)
qed

end
