(* ===== verification/Handles.thy ===== *)
theory Handles
  imports Concurrency
begin

text \<open>
  The \<^verbatim>\<open>Arc<ControlBlock>\<close>s. Each strong reference belongs to a thread: to the one that waits on the
  block, or to one that has upgraded a weak reference in \<^verbatim>\<open>wake_all\<close> and is inside \<^verbatim>\<open>set_changed\<close>. The strong
  counts are the numbers of these threads, a block has one waiter, the thread it was made for, and the
  protocol of \<^verbatim>\<open>wait\<close> and \<^verbatim>\<open>set_changed\<close> keeps its promise in the machine: whoever is parked although its
  flag is cleared has a token, or is about to be unparked.
\<close>

text \<open>The control block a thread waits on, and the one it has upgraded.\<close>

fun owner :: "pc \<Rightarrow> cb_ref option" where
  "owner (Register c todo reads) = Some c"
| "owner (Compare c x a todo reads) = Some c"
| "owner (Asleep c reads) = Some c"
| "owner (Parking c reads) = Some c"
| "owner (Dying c xs) = Some c"
| "owner (Cleaning c x xs) = Some c"
| "owner _ = None"

fun upgraded :: "pc \<Rightarrow> cb_ref option" where
  "upgraded (Notify k c wr cs v) = Some c"
| "upgraded _ = None"

definition holds :: "pc \<Rightarrow> cb_ref \<Rightarrow> bool" where
  "holds u c \<longleftrightarrow> owner u = Some c \<or> upgraded u = Some c"

text \<open>A thread holds at most one.\<close>

definition held :: "pc \<Rightarrow> cb_ref option" where
  "held u = (case owner u of None \<Rightarrow> upgraded u | Some c \<Rightarrow> Some c)"

lemma holds_iff: "holds u c \<longleftrightarrow> held u = Some c"
  by (cases u) (auto simp: holds_def held_def)

fun unparks :: "pc \<Rightarrow> cb_ref option" where
  "unparks (Notify KUnpark c wr cs v) = Some c"
| "unparks _ = None"

fun parked_on :: "pc \<Rightarrow> cb_ref option" where
  "parked_on (Parking c reads) = Some c"
| "parked_on _ = None"

lemma parked_on_iff: "parked_on u = Some c \<longleftrightarrow> (\<exists>reads. u = Parking c reads)"
  by (cases u) auto

lemma parked_owner: "parked_on u = Some c \<Longrightarrow> owner u = Some c"
  by (cases u) auto

lemma unparks_iff: "unparks u = Some c \<longleftrightarrow> (\<exists>wr cs v. u = Notify KUnpark c wr cs v)"
  by (cases u rule: unparks.cases) auto

subsection \<open>One step\<close>

lemma step_holds:
  assumes "local_step t p0 R W w u l w' u'" and "cb_strong w (next_cb w) = 0"
    and "\<not> holds u (next_cb w)" and "\<And>c. holds u c \<Longrightarrow> 0 < cb_strong w c"
  shows "cb_strong w' c + of_bool (holds u c) = cb_strong w c + of_bool (holds u' c)"
  using assms
  by (cases rule: local_step.cases)
    (auto dest!: read_world write_world cb_alloc_world simp: holds_def split: if_splits)

lemma step_next_cb:
  assumes "local_step t p0 R W w u l w' u'"
  shows "next_cb w \<le> next_cb w'"
  using assms
  by (cases rule: local_step.cases)
    (auto dest!: read_world write_world cb_alloc_world simp: ControlBlock_new_def split: if_splits)

lemma step_holds_old:
  assumes "local_step t p0 R W w u l w' u'" and "holds u' c"
  shows "holds u c \<or> cb_alive w c \<or> c = next_cb w \<and> next_cb w < next_cb w'"
  using assms
  by (cases rule: local_step.cases)
    (auto dest!: read_world write_world cb_alloc_world simp: holds_def split: if_splits)

lemma step_owner_old:
  assumes "local_step t p0 R W w u l w' u'" and "owner u' = Some c"
  shows "owner u = Some c \<or> c = next_cb w \<and> thread (cbs w' c) = t"
  using assms
  by (cases rule: local_step.cases)
    (auto dest!: read_world write_world cb_alloc_world simp: ControlBlock_new_def split: if_splits)

lemma step_thread:
  assumes "local_step t p0 R W w u l w' u'" and "c < next_cb w"
  shows "thread (cbs w' c) = thread (cbs w c)"
  using assms
  by (cases rule: local_step.cases)
    (auto dest!: read_world write_world cb_alloc_world simp: ControlBlock_new_def split: if_splits)

lemma step_unblocks:
  assumes "local_step t p0 R W w u l w' u'" and "c < next_cb w"
    and "blocked (cbs w c)" and "\<not> blocked (cbs w' c)"
  shows "unparks u' = Some c"
  using assms
  by (cases rule: local_step.cases)
    (auto dest!: read_world write_world cb_alloc_world simp: ControlBlock_new_def split: if_splits)

lemma step_keeps_token:
  assumes "local_step t p0 R W w u l w' u'" and "tokens w r" and "r \<noteq> t"
  shows "tokens w' r"
  using assms
  by (cases rule: local_step.cases)
    (auto dest!: read_world write_world cb_alloc_world simp: ControlBlock_new_def split: if_splits)

lemma step_unparks:
  assumes "local_step t p0 R W w u l w' u'" and "unparks u = Some c"
  shows "tokens w' (thread (cbs w c))"
  using assms by (auto simp: unparks_iff elim!: local_step.cases)

lemma step_swaps:
  assumes "local_step t p0 R W w u l w' u'" and "unparks u' = Some c"
  shows "blocked (cbs w c) \<and> \<not> blocked (cbs w' c)"
  using assms by (auto simp: unparks_iff elim!: local_step.cases split: if_splits)

lemma step_stays_unblocked:
  assumes "local_step t p0 R W w u l w' u'" and "c < next_cb w" and "\<not> blocked (cbs w c)"
  shows "\<not> blocked (cbs w' c)"
  using assms
  by (cases rule: local_step.cases)
    (auto dest!: read_world write_world cb_alloc_world split: if_splits)

lemma step_parks:
  assumes "local_step t p0 R W w u l w' u'" and "parked_on u' = Some c"
  shows "w' = w \<and> blocked (cbs w c)"
  using assms by (auto simp: parked_on_iff elim!: local_step.cases split: if_splits)

subsection \<open>The invariant\<close>

definition holders :: "sys \<Rightarrow> cb_ref \<Rightarrow> tid set" where
  "holders s c = {t. holds (pc_of s t) c}"

definition handles_ok :: "sys \<Rightarrow> bool" where
  "handles_ok s \<longleftrightarrow>
     (\<forall>t c. holds (pc_of s t) c \<longrightarrow> c < next_cb (shared s)) \<and>
     (\<forall>t c. owner (pc_of s t) = Some c \<longrightarrow> thread (cbs (shared s) c) = t) \<and>
     (\<forall>c. finite (holders s c) \<and> cb_strong (shared s) c = card (holders s c)) \<and>
     (\<forall>t c. parked_on (pc_of s t) = Some c \<and> \<not> blocked (cbs (shared s) c) \<and> \<not> tokens (shared s) t \<longrightarrow>
        (\<exists>u. unparks (pc_of s u) = Some c)) \<and>
     (\<forall>t c. unparks (pc_of s t) = Some c \<longrightarrow> \<not> blocked (cbs (shared s) c) \<and>
        (\<forall>u. unparks (pc_of s u) = Some c \<longrightarrow> u = t))"

lemma handles_okD:
  assumes "handles_ok s"
  shows "holds (pc_of s t) c \<Longrightarrow> c < next_cb (shared s)"
    and "owner (pc_of s t) = Some c \<Longrightarrow> thread (cbs (shared s) c) = t"
    and "finite (holders s c)" and "cb_strong (shared s) c = card (holders s c)"
    and "parked_on (pc_of s t) = Some c \<Longrightarrow> \<not> blocked (cbs (shared s) c) \<Longrightarrow> \<not> tokens (shared s) t \<Longrightarrow>
      \<exists>u. unparks (pc_of s u) = Some c"
    and "unparks (pc_of s t) = Some c \<Longrightarrow> \<not> blocked (cbs (shared s) c)"
    and "unparks (pc_of s t) = Some c \<Longrightarrow> unparks (pc_of s u) = Some c \<Longrightarrow> u = t"
  using assms unfolding handles_ok_def by blast+

lemma holder_alive: "handles_ok s \<Longrightarrow> holds (pc_of s t) c \<Longrightarrow> cb_alive (shared s) c"
  using handles_okD(3,4) [of s c] by (auto simp: cb_alive_def holders_def card_gt_0_iff)

lemma alive_held: "handles_ok s \<Longrightarrow> cb_alive (shared s) c \<Longrightarrow> \<exists>t. holds (pc_of s t) c"
  using handles_okD(3,4) [of s c] by (auto simp: cb_alive_def holders_def card_gt_0_iff)

lemma owner_holds: "owner u = Some c \<Longrightarrow> holds u c"
  by (simp add: holds_def)

lemma parked_cases:
  assumes "handles_ok s" and "pc_of s t = Parking c reads"
  shows "blocked (cbs (shared s) c) \<or> tokens (shared s) t \<or>
    (\<exists>u wr cs v. pc_of s u = Notify KUnpark c wr cs v)"
  using handles_okD(5) [OF assms(1), of t c] assms(2) unfolding unparks_iff by auto

lemma unparks_holds: "unparks u = Some c \<Longrightarrow> holds u c"
  by (auto simp: unparks_iff holds_def)

lemma owners_differ:
  "handles_ok s \<Longrightarrow> owner (pc_of s t) = Some c \<Longrightarrow> u \<noteq> t \<Longrightarrow> owner (pc_of s u) \<noteq> Some c"
  using handles_okD(2) by metis

lemma fresh_unheld:
  assumes "handles_ok s"
  shows "cb_strong (shared s) (next_cb (shared s)) = 0" and "\<not> holds (pc_of s t) (next_cb (shared s))"
proof -
  show no: "\<not> holds (pc_of s t) (next_cb (shared s))" for t using handles_okD(1) [OF assms] by blast
  show "cb_strong (shared s) (next_cb (shared s)) = 0"
    unfolding handles_okD(4) [OF assms] holders_def by (simp add: no)
qed

lemma holders_update:
  "holders (s\<lparr>shared := w', thr := (thr s)(t := r)\<rparr>) c =
    (if holds (pc r) c then insert t (holders s c - {t}) else holders s c - {t})"
  by (auto simp: holders_def)

lemma card_holders:
  assumes "finite (holders s c)"
  shows "card (holders s c - {t}) + of_bool (holds (pc_of s t) c) = card (holders s c)"
proof (cases "holds (pc_of s t) c")
  case True
  then have "t \<in> holders s c" by (simp add: holders_def)
  from card_Suc_Diff1 [OF assms this] True show ?thesis by simp
qed (simp add: holders_def)

lemma handles_ok_stepped:
  assumes step: "local_step t p0 R W (shared s) (pc_of s t) l w' u'" and ok: "handles_ok s"
  shows "handles_ok (stepped s t w' u')"
  unfolding handles_ok_def
proof (intro conjI allI impI; (elim conjE)?)
  let ?s = "stepped s t w' u'"
  note D = handles_okD [OF ok]
  have strong: "cb_strong w' c + of_bool (holds (pc_of s t) c) =
      cb_strong (shared s) c + of_bool (holds u' c)" for c
    using holder_alive [OF ok] by (intro step_holds [OF step fresh_unheld [OF ok]]) (simp add: cb_alive_def)
  show "finite (holders ?s c)" for c using D(3) by (simp add: holders_update)
  show "cb_strong (shared ?s) c = card (holders ?s c)" for c
  proof -
    have "card (holders ?s c) = card (holders s c - {t}) + of_bool (holds u' c)"
      using D(3) [of c] by (simp add: holders_update card.insert_remove del: card_Diff_insert)
    with strong [of c] card_holders [OF D(3), of c t] D(4) [of c] show ?thesis by simp
  qed
  fix r c
  show "c < next_cb (shared ?s)" if "holds (pc_of ?s r) c"
  proof (cases "r = t")
    case True
    with that have "holds u' c" by simp
    from step_holds_old [OF step this] have "c = next_cb (shared s) \<and> next_cb (shared s) < next_cb w' \<or>
        (\<exists>v. holds (pc_of s v) c)"
      using D(3,4) [of c] by (auto simp: cb_alive_def holders_def card_gt_0_iff)
    then show ?thesis using D(1) [of _ c] step_next_cb [OF step] by fastforce
  next
    case False
    with that D(1) [of r c] step_next_cb [OF step] show ?thesis by simp
  qed
  show "thread (cbs (shared ?s) c) = r" if o: "owner (pc_of ?s r) = Some c"
  proof (cases "r = t \<and> owner (pc_of s t) \<noteq> Some c")
    case True
    with o step_owner_old [OF step, of c] show ?thesis by auto
  next
    case False
    with o have old: "owner (pc_of s r) = Some c" by (cases "r = t") auto
    from step_thread [OF step D(1) [OF owner_holds [OF old]]] D(2) [OF old] show ?thesis by simp
  qed
  show "\<exists>v. unparks (pc_of ?s v) = Some c"
    if p: "parked_on (pc_of ?s r) = Some c" and nb: "\<not> blocked (cbs (shared ?s) c)"
      and nt: "\<not> tokens (shared ?s) r"
  proof -
    have r: "r \<noteq> t" using p nb step_parks [OF step, of c] by auto
    with p have p': "parked_on (pc_of s r) = Some c" by simp
    note own = parked_owner [OF p']
    then have c: "c < next_cb (shared s)" using D(1) owner_holds by blast
    have "\<not> tokens (shared s) r" using nt r step_keeps_token [OF step, of r] by auto
    show ?thesis
    proof (cases "blocked (cbs (shared s) c)")
      case True
      with step_unblocks [OF step c] nb have "unparks u' = Some c" by simp
      then show ?thesis by (intro exI [of _ t]) simp
    next
      case False
      from D(5) [OF p' this \<open>\<not> tokens (shared s) r\<close>] obtain v where v: "unparks (pc_of s v) = Some c"
        by blast
      have "v \<noteq> t" using step_unparks [OF step, of c] v nt D(2) [OF own] by auto
      with v show ?thesis by (intro exI [of _ v]) simp
    qed
  qed
  note U = unparks_holds
  show "\<not> blocked (cbs (shared ?s) c)" if un: "unparks (pc_of ?s r) = Some c"
  proof (cases "r = t")
    case True
    with un step_swaps [OF step, of c] show ?thesis by simp
  next
    case False
    with un have un': "unparks (pc_of s r) = Some c" by simp
    with step_stays_unblocked [OF step D(1) [OF U [OF un']]] D(6) show ?thesis by simp
  qed
  show "v = r" if 1: "unparks (pc_of ?s r) = Some c" and 2: "unparks (pc_of ?s v) = Some c" for v
  proof (rule ccontr)
    assume "v \<noteq> r"
    have "\<exists>q. q \<noteq> t \<and> unparks (pc_of s q) = Some c"
      using 1 2 \<open>v \<noteq> r\<close> by (cases "r = t") (auto intro: exI [of _ v] exI [of _ r])
    then obtain q where q: "q \<noteq> t" "unparks (pc_of s q) = Some c" by blast
    from D(7) [of r c v] \<open>v \<noteq> r\<close> 1 2 have "unparks u' = Some c" by (auto split: if_splits)
    from step_swaps [OF step this] D(6) [OF q(2)] show False by simp
  qed
qed

text \<open>The other steps of the system touch no control block.\<close>

lemma handles_ok_same:
  assumes ok: "handles_ok s"
    and u': "owner (pc r) = owner (pc_of s t)" "upgraded (pc r) = upgraded (pc_of s t)"
      "unparks (pc_of s t) = None" "unparks (pc r) = None" "parked_on (pc r) = None"
    and w': "cbs w' = cbs (shared s)" "next_cb w' = next_cb (shared s)"
      "cb_strong w' = cb_strong (shared s)" "tokens w' = tokens (shared s)"
  shows "handles_ok (s\<lparr>shared := w', thr := (thr s)(t := r)\<rparr>)"
proof -
  let ?s = "s\<lparr>shared := w', thr := (thr s)(t := r)\<rparr>"
  note D = handles_okD [OF ok]
  have own: "owner (pc_of ?s v) = owner (pc_of s v)" and up: "upgraded (pc_of ?s v) = upgraded (pc_of s v)"
    for v using u' by (cases "v = t"; simp)+
  then have h: "holds (pc_of ?s v) = holds (pc_of s v)" for v by (simp add: holds_def fun_eq_iff)
  then have hs: "holders ?s = holders s" by (simp add: holders_def fun_eq_iff)
  have park: "parked_on (pc_of s v) = Some c" if "parked_on (pc_of ?s v) = Some c" for v c
    using that u' by (cases "v = t") simp_all
  have unp: "unparks (pc_of ?s v) = unparks (pc_of s v)" for v
    using u' by (cases "v = t") simp_all
  show ?thesis
    unfolding handles_ok_def h hs own unp
    using D(1-4) D(5-7) park by (simp add: w' del: fun_upd_apply) blast
qed

context rwlock
begin

lemma handles_ok_step:
  assumes "mstep may_read may_write \<Gamma> L s l s'" and ok: "handles_ok s"
  shows "handles_ok s'"
  using assms(1)
proof cases
  case (m_local t w' u')
  from handles_ok_stepped [OF m_local(2) ok] show ?thesis unfolding m_local(1) .
next
  case (m_start t p w')
  show ?thesis unfolding m_start(2)
    by (rule handles_ok_same [OF ok]) (use m_start in \<open>auto simp: TransactionGuard_new_def split: if_splits\<close>)
next
  case (m_write t v y)
  from handles_ok_same [OF ok, of "(thr s t)\<lparr>pc := AtomicWrite v y\<rparr>" t "shared s"] m_write show ?thesis
    by simp
next
  case (m_panic t p tx fs)
  show ?thesis unfolding m_panic(2) by (rule handles_ok_same [OF ok]) (use m_panic in simp_all)
next
  case (m_spurious t c reads)
  from handles_ok_same [OF ok, of "(thr s t)\<lparr>pc := Asleep c reads\<rparr>" t "shared s"] m_spurious
  show ?thesis by simp
qed

lemma handles_ok_run:
  assumes "mrun may_read may_write \<Gamma> L s ls s'" and "initial \<Gamma> L s"
  shows "handles_ok s'"
  using assms
proof induction
  case (mrun_nil s)
  then have "\<not> holds (pc_of s t) c" for t c by (simp add: initial_def holds_def)
  with mrun_nil show ?case by (simp add: initial_def handles_ok_def holders_def)
next
  case (mrun_snoc s ls s' l s'')
  then show ?case using handles_ok_step by blast
qed

end

text \<open>
  C12. Every \<^verbatim>\<open>Arc<ControlBlock>\<close> is accounted for, in every reachable state: the strong count of a control
  block is the number of threads that wait on it or have upgraded it in \<^verbatim>\<open>wake_all\<close>, so \<^verbatim>\<open>upgrade\<close>
  succeeds exactly while there is such a thread; nobody but the thread it was made for waits on it;
  at most one thread is between the swap and the \<^verbatim>\<open>unpark\<close> of \<^verbatim>\<open>set_changed\<close>, and then the flag is cleared;
  and who is parked although its flag is cleared has a token or is about to be unparked.
\<close>

theorem control_blocks_are_counted:
  assumes "rwlock may_read may_write" and "initial \<Gamma> L s"
    and "mrun may_read may_write \<Gamma> L s ls s'"
  shows "finite {t. holds (pc_of s' t) c} \<and> cb_strong (shared s') c = card {t. holds (pc_of s' t) c} \<and>
    (cb_alive (shared s') c \<longleftrightarrow> (\<exists>t. holds (pc_of s' t) c)) \<and>
    {t. owner (pc_of s' t) = Some c} \<subseteq> {thread (cbs (shared s') c)} \<and>
    (unparks (pc_of s' t) = Some c \<longrightarrow>
       \<not> blocked (cbs (shared s') c) \<and> {u. unparks (pc_of s' u) = Some c} = {t}) \<and>
    (parked_on (pc_of s' t) = Some c \<longrightarrow> blocked (cbs (shared s') c) \<or> tokens (shared s') t \<or>
       (\<exists>u. unparks (pc_of s' u) = Some c))"
proof -
  have ok: "handles_ok s'" by (rule rwlock.handles_ok_run [OF assms(1,3,2)])
  note D = handles_okD [OF ok]
  show ?thesis
    using D(3,4) [of c, unfolded holders_def] alive_held [OF ok, of c] holder_alive [OF ok, of _ c]
      D(2) [of _ c] D(5) [of t c] D(6,7) [of t c] by auto
qed

text \<open>
  Thread 1 reads 42 and parks; thread 2 has committed and stored a new value, and is about to unpark
  thread 1.
\<close>

definition block_prog :: prog where
  "block_prog = ReadVar demo_x (\<lambda>v. Done retry)"

fun sleep_state :: "pc \<Rightarrow> (cb_ref \<times> (vcb_ref \<times> arc) list) option" where
  "sleep_state (Parking c reads) = Some (c, reads)"
| "sleep_state _ = None"

lemma sleep_state_iff: "sleep_state u = Some (c, reads) \<longleftrightarrow> u = Parking c reads"
  by (cases u) auto

lemma block_put_ok:
  "prog_ok demo_types {VCB 16, VCB 64} block_prog"
  "prog_ok demo_types {VCB 16, VCB 64} (put_prog demo_x n)"
  by (simp_all add: block_prog_def put_prog_def var_ok_def demo_x_def demo_types_def)

definition unpark_events :: "event list" where
  "unpark_events = Start 1 block_prog # gos 1 6 @ Start 2 (put_prog demo_x 7) # gos 2 10"

lemma unpark_run:
  "map_option (\<lambda>(ls, s). (sleep_state (pc_of s 1), unparks (pc_of s 2), blocked (cbs (shared s) 0),
       tokens (shared s) 1))
     (run_schedule [1, 2] unpark_events demo_sys) = Some (Some (0, [(VCB 16, 0)]), Some 0, False, False)"
  by code_simp

theorem control_blocks_are_counted_witness:
  "\<exists>ls s. mrun eager_read writer_first_write demo_types {VCB 16, VCB 64} demo_sys ls s \<and>
    pc_of s 1 = Parking 0 [(VCB 16, 0)] \<and> \<not> tokens (shared s) 1 \<and>
    cb_strong (shared s) 0 = 2 \<and> {u. unparks (pc_of s u) = Some 0} = {2}"
proof -
  from unpark_run obtain ls s
    where r: "run_schedule [1, 2] unpark_events demo_sys = Some (ls, s)"
      and s: "pc_of s 1 = Parking 0 [(VCB 16, 0)]" "unparks (pc_of s 2) = Some 0" "\<not> tokens (shared s) 1"
    by (auto simp: sleep_state_iff)
  have "list_all (event_ok demo_types {VCB 16, VCB 64}) unpark_events"
    using block_put_ok by (simp add: unpark_events_def gos_def list_all_iff)
  with schedule_mrun [OF r demo_idle]
  have run: "mrun eager_read writer_first_write demo_types {VCB 16, VCB 64} demo_sys ls s"
    and idle: "idle_but [1, 2] s" by blast+
  have "{t. holds (pc_of s t) 0} = {1, 2}"
  proof (intro equalityI subsetI)
    fix t assume "t \<in> {t. holds (pc_of s t) 0}"
    then show "t \<in> {1, 2}" using idle by (cases "t \<in> {1, 2}") (auto simp: idle_but_def holds_def)
  qed (use s unparks_holds in \<open>auto simp: holds_def\<close>)
  then have two: "card {t. holds (pc_of s t) 0} = 2" by simp
  from control_blocks_are_counted [OF eager_lock.rwlock_axioms demo_initial run, of 0 2]
  show ?thesis using run s two by auto
qed

end
