(* ===== verification/Deadlock.thy ===== *)
theory Deadlock
  imports Handles
begin

text \<open>
  Commits cannot deadlock. A transaction takes the locks of its log in ascending order of
  address, because the log is an ordered map, so the thread that wants the highest requested lock
  is never behind another one. The only law of the locks this needs beyond exclusion is that a
  free lock is granted to somebody who wants it.
\<close>

definition can_step :: "grant \<Rightarrow> grant \<Rightarrow> sys \<Rightarrow> tid \<Rightarrow> bool" where
  "can_step may_read may_write s t \<longleftrightarrow>
     (\<exists>l w' u'. local_step t (closure (thr s t)) (\<lambda>x. may_read (view_lock s x) t)
        (\<lambda>x. may_write (view_lock s x) t) (shared s) (pc_of s t) l w' u')"

definition resting :: "sys \<Rightarrow> tid \<Rightarrow> bool" where
  "resting s t \<longleftrightarrow>
     pc_of s t = Idle \<or>
     (\<exists>c reads. pc_of s t = Parking c reads \<and> blocked (cbs (shared s) c) \<and> \<not> tokens (shared s) t)"

definition requests :: "pc \<Rightarrow> vcb_ref \<Rightarrow> bool" where
  "requests u x \<longleftrightarrow> read_request u = Some x \<or> write_request u = Some x"

lemma finite_vcb_ref: "finite (X :: vcb_ref set)"
proof (rule finite_subset [OF subset_UNIV])
  have "(UNIV :: vcb_ref set) = range VCB" by (auto simp: image_iff) (metis vcb_ref.exhaust)
  moreover have "finite (range VCB)" by (rule finite_imageI) simp
  ultimately show "finite (UNIV :: vcb_ref set)" by (rule ssubst)
qed

lemma one_request: "read_request u = Some x \<Longrightarrow> write_request u = None"
  by (cases u rule: read_request.cases) (auto split: lock_need.splits)

text \<open>A thread that holds guards only ever waits for a higher address.\<close>

lemma request_above_held:
  assumes "thread_ok \<Gamma> L w p0 u" and "x \<in> set (held_reads u) \<union> set (held_writes u)"
    and "requests u y"
  shows "x < y"
proof -
  from assms(2,3) obtain dn e todo rs ws wr v where u: "u = Locking dn ((y, e) # todo) rs ws wr v"
    by (cases u rule: read_request.cases)
      (auto simp: requests_def split: lock_need.splits if_splits)
  have "btm_ok (dn @ (y, e) # todo)" using assms(1) log_okD(1) by (auto simp: u)
  moreover have "x \<in> fst ` set dn"
    using assms(1,2) by (auto simp: u log_reads_def mem_log_writes image_iff) force+
  ultimately show ?thesis by (auto simp: btm_ok_def sorted_wrt_append)
qed

lemma request_step: "requests u x \<Longrightarrow> next_step t p0 w u \<noteq> None"
  by (auto simp: requests_def next_step_None)

lemma held_step: "x \<in> set (held_reads u) \<union> set (held_writes u) \<Longrightarrow> next_step t p0 w u \<noteq> None"
  unfolding next_step_None by (cases u) auto

lemma can_stepI:
  assumes "next_step t (closure (thr s t)) (shared s) (pc_of s t) \<noteq> None"
    and "\<And>x. read_request (pc_of s t) = Some x \<Longrightarrow> may_read (view_lock s x) t"
    and "\<And>x. write_request (pc_of s t) = Some x \<Longrightarrow> may_write (view_lock s x) t"
  shows "can_step may_read may_write s t"
proof -
  from assms(1) obtain l w' u' where
    "next_step t (closure (thr s t)) (shared s) (pc_of s t) = Some (l, w', u')" by auto
  then have "local_step t (closure (thr s t)) (\<lambda>x. may_read (view_lock s x) t)
      (\<lambda>x. may_write (view_lock s x) t) (shared s) (pc_of s t) l w' u'"
    by (rule next_step_sound) (rule assms(2,3), assumption)+
  then show ?thesis unfolding can_step_def by blast
qed

lemma resting_cannot_step:
  "resting s t \<Longrightarrow> \<not> can_step may_read may_write s t"
  by (auto simp: resting_def can_step_def elim: local_step.cases)

context rwlock_live
begin

lemma somebody_can_step:
  assumes ok: "sys_ok \<Gamma> L s" and handles: "handles_ok s" and busy: "\<not> resting s r"
  shows "\<exists>t. can_step may_read may_write s t"
proof (rule ccontr)
  assume none: "\<not> (\<exists>t. can_step may_read may_write s t)"
  let ?n = "\<lambda>t. next_step t (closure (thr s t)) (shared s) (pc_of s t)"
  define Q where "Q = {x. \<exists>t. requests (pc_of s t) x}"
  have req: "\<exists>x. requests (pc_of s t) x" if "?n t \<noteq> None" for t
    using can_stepI [OF that, of may_read may_write] none by (auto simp: requests_def)
  obtain t0 where "?n t0 \<noteq> None"
  proof (cases "?n r = None")
    case True
    have "\<forall>m. pc_of s r \<noteq> Crashed m"
      using sys_okD(4) [OF ok, of r] by auto
    with True busy obtain c reads where r: "pc_of s r = Parking c reads" "\<not> tokens (shared s) r"
      and "\<not> blocked (cbs (shared s) c)"
      unfolding next_step_None resting_def by blast
    with handles_okD(5) [OF handles, of r c] obtain u where "unparks (pc_of s u) = Some c" by auto
    then have "?n u \<noteq> None" by (auto simp: unparks_iff)
    then show thesis by (rule that)
  qed (rule that)
  from req [OF this] have "Q \<noteq> {}" unfolding Q_def by blast
  define x where "x = Max Q"
  have x: "x \<in> Q" and top: "y \<in> Q \<Longrightarrow> y \<le> x" for y
    using \<open>Q \<noteq> {}\<close> finite_vcb_ref [of Q] by (simp_all add: x_def)
  have free: "x \<notin> set (held_reads (pc_of s r)) \<union> set (held_writes (pc_of s r))" for r
  proof
    assume h: "x \<in> set (held_reads (pc_of s r)) \<union> set (held_writes (pc_of s r))"
    from req [OF held_step [OF h]] obtain y where y: "requests (pc_of s r) y" by blast
    then have "y \<in> Q" unfolding Q_def by blast
    from request_above_held [OF sys_okD(4) [OF ok] h y] top [OF this] show False by simp
  qed
  have "readers (view_lock s x) = {}" and "writers (view_lock s x) = {}"
    using free by (auto simp: view_lock_def)
  moreover have "want_read (view_lock s x) \<union> want_write (view_lock s x) \<noteq> {}"
    using x by (auto simp: Q_def requests_def view_lock_def)
  ultimately consider
      (r) t where "read_request (pc_of s t) = Some x" "may_read (view_lock s x) t"
    | (w) t where "write_request (pc_of s t) = Some x" "may_write (view_lock s x) t"
    using free_lock_granted [of "view_lock s x"] by (auto simp: view_lock_def)
  then show False
  proof cases
    case r
    then have "?n t \<noteq> None" by (intro request_step [of _ x]) (simp add: requests_def)
    from can_stepI [OF this, of may_read may_write] r one_request [OF r(1)] none show False by auto
  next
    case w
    then have "?n t \<noteq> None" by (intro request_step [of _ x]) (simp add: requests_def)
    moreover have "read_request (pc_of s t) = None"
      using w(1) one_request [of "pc_of s t"] by (cases "read_request (pc_of s t)") auto
    ultimately show False using can_stepI [of t s may_read may_write] w none by auto
  qed
qed

end

text \<open>
  C4. Deadlock freedom: in every reachable state of the concurrent system, with any locks that
  exclude as they should and grant a free lock to somebody who wants it, some thread can take a
  step, unless every thread is idle or parked in \<^verbatim>\<open>retry\<close> with its flag set and no token. (A thread
  that is parked although its flag is cleared has a token, or the one that cleared it has yet to
  \<^verbatim>\<open>unpark\<close>; the spurious returns of \<^verbatim>\<open>park\<close> do not count as steps here.)
\<close>

theorem commits_never_deadlock:
  assumes "rwlock_live may_read may_write" and "initial \<Gamma> L s"
    and "mrun may_read may_write \<Gamma> L s ls s'"
  shows "(\<exists>t. can_step may_read may_write s' t) \<longleftrightarrow> (\<exists>t. \<not> resting s' t)"
proof -
  have "rwlock may_read may_write" using assms(1) by (simp add: rwlock_live_def)
  from rwlock.simulation [OF this assms(3,2)] rwlock.handles_ok_run [OF this assms(3,2)]
  have "sys_ok \<Gamma> L s'" and "handles_ok s'" by blast+
  from rwlock_live.somebody_can_step [OF assms(1) this] resting_cannot_step show ?thesis by blast
qed

text \<open>A state with contention: thread 1 holds the lock that thread 2 waits for.\<close>

definition contention_events :: "event list" where
  "contention_events =
     [Start 1 incr_prog, Start 2 incr_prog, Go 1, Go 2, Go 1, Go 2, Go 1, Go 2, Go 1]"

lemma contention_run:
  "map_option (\<lambda>(ls, s). (held_writes (pc_of s 1), write_request (pc_of s 2), is_idle (pc_of s 1)))
     (run_schedule [1, 2] contention_events demo_sys) = Some ([VCB 16], Some (VCB 16), False)"
  by code_simp

lemma incr_ok: "prog_ok demo_types {VCB 16, VCB 64} incr_prog"
  by (simp add: incr_prog_def var_ok_def demo_x_def demo_types_def)

theorem commits_never_deadlock_witness:
  "\<exists>ls s. mrun eager_read writer_first_write demo_types {VCB 16, VCB 64} demo_sys ls s \<and>
    held_writes (pc_of s 1) = [VCB 16] \<and> write_request (pc_of s 2) = Some (VCB 16) \<and>
    (\<exists>t. can_step eager_read writer_first_write s t)"
proof -
  from contention_run obtain ls s
    where r: "run_schedule [1, 2] contention_events demo_sys = Some (ls, s)"
      and s: "held_writes (pc_of s 1) = [VCB 16]" "write_request (pc_of s 2) = Some (VCB 16)"
    by auto
  have "list_all (event_ok demo_types {VCB 16, VCB 64}) contention_events"
    using incr_ok by (simp add: contention_events_def)
  with schedule_mrun [OF r demo_idle]
  have run: "mrun eager_read writer_first_write demo_types {VCB 16, VCB 64} demo_sys ls s" by blast
  have "\<not> resting s 1" using s by (auto simp: resting_def)
  with commits_never_deadlock [OF eager_lock.rwlock_live_axioms demo_initial run] run s
  show ?thesis by blast
qed

end
