(* ===== verification/Wakeup.thy ===== *)
theory Wakeup
  imports Deadlock
begin

text \<open>
  No wake-up is lost: a transaction that sleeps in \<^verbatim>\<open>retry\<close> although a variable it read has changed
  is about to be woken. The invariant follows its control block from the waiting lists through
  the lists that committing threads have taken, against registration, comparison, the taking of
  a list, its clean-up in \<^verbatim>\<open>set_dead\<close>, and the end of other transactions.
\<close>

fun reads_of :: "pc \<Rightarrow> (vcb_ref \<times> arc) list" where
  "reads_of (Register c todo reads) = reads"
| "reads_of (Compare c x a todo reads) = reads"
| "reads_of (Asleep c reads) = reads"
| "reads_of (Parking c reads) = reads"
| "reads_of _ = []"

text \<open>The control blocks a thread has taken from a waiting list, and the variables it will wake.\<close>

fun taken :: "pc \<Rightarrow> cb_ref list" where
  "taken (Waking wr cs v) = cs"
| "taken (Notify KIdle c wr cs v) = c # cs"
| "taken (Notify k c wr cs v) = cs"
| "taken _ = []"

fun to_wake :: "pc \<Rightarrow> vcb_ref list" where
  "to_wake (DropReads rs ws wr v) = wr"
| "to_wake (Storing ws wr v) = wr"
| "to_wake (Waking wr cs v) = wr"
| "to_wake (Notify k c wr cs v) = wr"
| "to_wake _ = []"

fun comparing :: "pc \<Rightarrow> vcb_ref option" where
  "comparing (Compare c x a todo reads) = Some x"
| "comparing _ = None"

definition notified :: "sys \<Rightarrow> cb_ref \<Rightarrow> bool" where
  "notified s c \<longleftrightarrow> \<not> blocked (cbs (shared s) c) \<or> (\<exists>u. c \<in> set (taken (pc_of s u)))"

definition enlisted :: "sys \<Rightarrow> cb_ref \<Rightarrow> vcb_ref \<Rightarrow> bool" where
  "enlisted s c x \<longleftrightarrow> notified s c \<or> c \<in> set (waiters (shared s) x)"

definition watched :: "sys \<Rightarrow> cb_ref \<Rightarrow> vcb_ref \<Rightarrow> arc \<Rightarrow> bool" where
  "watched s c x a \<longleftrightarrow> notified s c \<or> c \<in> set (waiters (shared s) x) \<and>
     (value_arc (shared s) x = a \<or> (\<exists>u. x \<in> set (to_wake (pc_of s u))))"

subsection \<open>One step\<close>

text \<open>
  The disjuncts \<open>O1\<close> and \<open>O2\<close> stand for the other threads: one of them has taken the control block,
  or will wake the variable.
\<close>

lemma step_enlisted:
  assumes "local_step t p0 R W w u l w' u'" and "c < next_cb w" and "cb_alive w c"
    and "\<not> blocked (cbs w c) \<or> c \<in> set (taken u) \<or> O1 \<or> c \<in> set (waiters w x)"
  shows "\<not> blocked (cbs w' c) \<or> c \<in> set (taken u') \<or> O1 \<or> c \<in> set (waiters w' x)"
  using assms
  by (cases rule: local_step.cases)
    (auto dest!: read_world write_world cb_alloc_world simp: waiters_set_dead split: if_splits)

lemma step_watched:
  assumes "local_step t p0 R W w u l w' u'" and "c < next_cb w" and "cb_alive w c"
    and "\<And>x y. l \<noteq> Writes x y" and "set (map snd (to_store u)) \<subseteq> set (to_wake u)"
    and "\<not> blocked (cbs w c) \<or> c \<in> set (taken u) \<or> O1 \<or> c \<in> set (waiters w x) \<and>
      (value_arc w x = a \<or> x \<in> set (to_wake u) \<or> O2)"
  shows "\<not> blocked (cbs w' c) \<or> c \<in> set (taken u') \<or> O1 \<or> c \<in> set (waiters w' x) \<and>
    (value_arc w' x = a \<or> x \<in> set (to_wake u') \<or> O2)"
  using assms
  by (cases rule: local_step.cases)
    (auto dest!: read_world write_world cb_alloc_world simp: waiters_set_dead split: if_splits)

lemma step_reads:
  assumes "local_step t p0 R W w u l w' u'" and "owner u' = Some c" and "(x, a) \<in> set (reads_of u')"
  shows "owner u = Some c \<and> (x, a) \<in> set (reads_of u) \<or>
    owner u = Some c \<and> comparing u = Some x \<and> value_arc w x = a \<and> w' = w"
  using assms by (cases rule: local_step.cases) (auto split: if_splits)

lemma step_comparing:
  assumes "local_step t p0 R W w u l w' u'" and "owner u' = Some c" and "comparing u' = Some x"
  shows "c \<in> set (waiters w' x)"
  using assms by (cases rule: local_step.cases) (auto split: if_splits)

lemma step_stores:
  assumes "local_step t p0 R W w u l w' u'" and "set (map snd (to_store u)) \<subseteq> set (to_wake u)"
    and "thread_ok \<Gamma> L w p0 u"
  shows "set (map snd (to_store u')) \<subseteq> set (to_wake u')"
  using assms by (cases rule: local_step.cases) (auto split: if_splits)

subsection \<open>The invariant\<close>

definition wake_ok :: "sys \<Rightarrow> bool" where
  "wake_ok s \<longleftrightarrow>
     (\<forall>t. set (map snd (to_store (pc_of s t))) \<subseteq> set (to_wake (pc_of s t))) \<and>
     (\<forall>t c x a. owner (pc_of s t) = Some c \<and> (x, a) \<in> set (reads_of (pc_of s t)) \<longrightarrow>
        watched s c x a) \<and>
     (\<forall>t c x. owner (pc_of s t) = Some c \<and> comparing (pc_of s t) = Some x \<longrightarrow> enlisted s c x)"

lemma wake_okD:
  assumes "wake_ok s"
  shows "set (map snd (to_store (pc_of s t))) \<subseteq> set (to_wake (pc_of s t))"
    and "owner (pc_of s t) = Some c \<Longrightarrow> (x, a) \<in> set (reads_of (pc_of s t)) \<Longrightarrow> watched s c x a"
    and "owner (pc_of s t) = Some c \<Longrightarrow> comparing (pc_of s t) = Some x \<Longrightarrow> enlisted s c x"
  using assms unfolding wake_ok_def by blast+

text \<open>What the others contribute, split off from the stepping thread.\<close>

lemma ex_split: "(\<exists>u. P u) \<longleftrightarrow> P t \<or> (\<exists>u. u \<noteq> t \<and> P u)"
  by metis

lemma enlisted_split:
  "enlisted s c x \<longleftrightarrow> \<not> blocked (cbs (shared s) c) \<or> c \<in> set (taken (pc_of s t)) \<or>
    (\<exists>u. u \<noteq> t \<and> c \<in> set (taken (pc_of s u))) \<or> c \<in> set (waiters (shared s) x)"
  unfolding enlisted_def notified_def ex_split [of "\<lambda>u. c \<in> set (taken (pc_of s u))" t] by blast

lemma watched_split:
  "watched s c x a \<longleftrightarrow> \<not> blocked (cbs (shared s) c) \<or> c \<in> set (taken (pc_of s t)) \<or>
    (\<exists>u. u \<noteq> t \<and> c \<in> set (taken (pc_of s u))) \<or> c \<in> set (waiters (shared s) x) \<and>
     (value_arc (shared s) x = a \<or> x \<in> set (to_wake (pc_of s t)) \<or>
      (\<exists>u. u \<noteq> t \<and> x \<in> set (to_wake (pc_of s u))))"
  unfolding watched_def notified_def ex_split [of "\<lambda>u. c \<in> set (taken (pc_of s u))" t]
    ex_split [of "\<lambda>u. x \<in> set (to_wake (pc_of s u))" t]
  by blast

lemma stepped_simps:
  "shared (stepped s t w' u') = w'"
  "pc_of (stepped s t w' u') t = u'"
  "r \<noteq> t \<Longrightarrow> pc_of (stepped s t w' u') r = pc_of s r"
  by simp_all

lemma others_stepped:
  "(\<exists>r. r \<noteq> t \<and> c \<in> set (taken (pc_of (stepped s t w' u') r))) \<longleftrightarrow>
    (\<exists>r. r \<noteq> t \<and> c \<in> set (taken (pc_of s r)))"
  "(\<exists>r. r \<noteq> t \<and> x \<in> set (to_wake (pc_of (stepped s t w' u') r))) \<longleftrightarrow>
    (\<exists>r. r \<noteq> t \<and> x \<in> set (to_wake (pc_of s r)))"
  using stepped_simps(3) by metis+

lemma watched_stepped:
  assumes "local_step t p0 R W (shared s) (pc_of s t) l w' u'"
    and "c < next_cb (shared s)" and "cb_alive (shared s) c" and "\<And>x y. l \<noteq> Writes x y"
    and "set (map snd (to_store (pc_of s t))) \<subseteq> set (to_wake (pc_of s t))" and "watched s c x a"
  shows "watched (stepped s t w' u') c x a"
  using step_watched [OF assms(1-5) assms(6) [unfolded watched_split [of s c x a t]]]
  unfolding watched_split [of "stepped s t w' u'" c x a t] others_stepped stepped_simps .

lemma enlisted_stepped:
  assumes "local_step t p0 R W (shared s) (pc_of s t) l w' u'"
    and "c < next_cb (shared s)" and "cb_alive (shared s) c" and "enlisted s c x"
  shows "enlisted (stepped s t w' u') c x"
  using step_enlisted [OF assms(1-3) assms(4) [unfolded enlisted_split [of s c x t]]]
  unfolding enlisted_split [of "stepped s t w' u'" c x t] others_stepped stepped_simps .

lemma wake_ok_stepped:
  assumes step: "local_step t (closure (thr s t)) R W (shared s) (pc_of s t) l w' u'"
    and ok: "wake_ok s" and handles: "handles_ok s" and sok: "sys_ok \<Gamma> L s"
    and nw: "\<And>x y. l \<noteq> Writes x y"
  shows "wake_ok (stepped s t w' u')"
  unfolding wake_ok_def
proof (intro conjI allI impI; (elim conjE)?)
  have own: "c < next_cb (shared s)" "cb_alive (shared s) c" if "owner (pc_of s r) = Some c" for r c
    using handles_okD(1) [OF handles] holder_alive [OF handles] owner_holds [OF that] by blast+
  fix r
  show "set (map snd (to_store (pc_of (stepped s t w' u') r)))
      \<subseteq> set (to_wake (pc_of (stepped s t w' u') r))"
    using step_stores [OF step wake_okD(1) [OF ok] sys_okD(4) [OF sok]] wake_okD(1) [OF ok, of r]
    by (cases "r = t") simp_all
  fix c x
  show "watched (stepped s t w' u') c x a"
    if r: "owner (pc_of (stepped s t w' u') r) = Some c"
      and mem: "(x, a) \<in> set (reads_of (pc_of (stepped s t w' u') r))" for a
  proof -
    have "owner (pc_of s r) = Some c \<and> ((x, a) \<in> set (reads_of (pc_of s r)) \<or>
        comparing (pc_of s r) = Some x \<and> value_arc (shared s) x = a)"
      using step_reads [OF step, of c x a] r mem by (cases "r = t") auto
    then have o: "owner (pc_of s r) = Some c" and "watched s c x a"
      using wake_okD(2,3) [OF ok, of r c x] by (auto simp: watched_def enlisted_def)
    with watched_stepped [OF step own [OF o] nw wake_okD(1) [OF ok]] show ?thesis by blast
  qed
  show "enlisted (stepped s t w' u') c x"
    if r: "owner (pc_of (stepped s t w' u') r) = Some c"
      and cmp: "comparing (pc_of (stepped s t w' u') r) = Some x"
  proof (cases "r = t")
    case True
    with step_comparing [OF step, of c x] r cmp show ?thesis by (simp add: enlisted_def)
  next
    case False
    with r cmp have o: "owner (pc_of s r) = Some c" and "comparing (pc_of s r) = Some x"
      by simp_all
    with wake_okD(3) [OF ok] have "enlisted s c x" by blast
    with enlisted_stepped [OF step own [OF o]] show ?thesis by blast
  qed
qed

text \<open>
  Starting or abandoning a closure, starting an atomic write, and a spurious return from \<^verbatim>\<open>park\<close>
  change nothing the invariant speaks of.
\<close>

lemma wake_ok_same:
  assumes ok: "wake_ok s"
    and u': "owner (pc r) = owner (pc_of s t)" "reads_of (pc r) = reads_of (pc_of s t)"
      "comparing (pc r) = comparing (pc_of s t)" "taken (pc r) = taken (pc_of s t)"
      "to_wake (pc r) = to_wake (pc_of s t)" "to_store (pc r) = to_store (pc_of s t)"
    and w': "cbs w' = cbs (shared s)" "vcbs w' = vcbs (shared s)"
  shows "wake_ok (s\<lparr>shared := w', thr := (thr s)(t := r)\<rparr>)"
proof -
  let ?s = "s\<lparr>shared := w', thr := (thr s)(t := r)\<rparr>"
  have own: "owner (pc_of ?s v) = owner (pc_of s v)" and tk: "taken (pc_of ?s v) = taken (pc_of s v)"
    and tw: "to_wake (pc_of ?s v) = to_wake (pc_of s v)"
    and ts: "to_store (pc_of ?s v) = to_store (pc_of s v)"
    and rd: "reads_of (pc_of ?s v) = reads_of (pc_of s v)"
    and cm: "comparing (pc_of ?s v) = comparing (pc_of s v)" for v
    using u' by (cases "v = t"; simp)+
  have n: "notified ?s c \<longleftrightarrow> notified s c" for c unfolding notified_def tk by (simp add: w')
  have e: "enlisted ?s c x \<longleftrightarrow> enlisted s c x" for c x unfolding enlisted_def n by (simp add: w')
  have wa: "watched ?s c x a \<longleftrightarrow> watched s c x a" for c x a
    unfolding watched_def n tw by (simp add: w')
  show ?thesis using ok unfolding wake_ok_def own ts tw rd cm e wa .
qed

context rwlock
begin

lemma wake_ok_step:
  assumes "mstep may_read may_write \<Gamma> L s l s'" and "sys_ok \<Gamma> L s" and "handles_ok s"
    and "wake_ok s" and "\<And>x y. l \<noteq> Writes x y"
  shows "wake_ok s'"
  using assms(1)
proof cases
  case (m_local t w' u')
  from wake_ok_stepped [OF m_local(2) assms(4,3,2,5)] show ?thesis unfolding m_local(1) .
next
  case (m_start t p w')
  show ?thesis unfolding m_start(2)
    by (rule wake_ok_same [OF assms(4)])
      (use m_start in \<open>auto simp: TransactionGuard_new_def split: if_splits\<close>)
next
  case (m_write t v y)
  from wake_ok_same [OF assms(4), of "(thr s t)\<lparr>pc := AtomicWrite v y\<rparr>" t "shared s"] m_write
  show ?thesis by simp
next
  case (m_panic t p tx fs)
  show ?thesis unfolding m_panic(2) by (rule wake_ok_same [OF assms(4)]) (use m_panic in simp_all)
next
  case (m_spurious t c reads)
  from wake_ok_same [OF assms(4), of "(thr s t)\<lparr>pc := Asleep c reads\<rparr>" t "shared s"] m_spurious
  show ?thesis by simp
qed

lemma wake_ok_run:
  assumes "mrun may_read may_write \<Gamma> L s ls s'" and "initial \<Gamma> L s"
    and "\<And>x y. Writes x y \<notin> set ls"
  shows "wake_ok s'"
  using assms
proof induction
  case (mrun_nil s)
  then show ?case by (simp add: initial_def wake_ok_def)
next
  case (mrun_snoc s ls s' l s'')
  have "sys_ok \<Gamma> L s'" using simulation [OF mrun_snoc.hyps(1) mrun_snoc.prems(1)] by blast
  moreover note handles_ok_run [OF mrun_snoc.hyps(1) mrun_snoc.prems(1)]
  moreover have "wake_ok s'" using mrun_snoc by simp
  moreover have "l \<noteq> Writes x y" for x y using mrun_snoc.prems(2) [of x y] by auto
  ultimately show ?case by (rule wake_ok_step [OF mrun_snoc.hyps(2)])
qed

end

text \<open>The two program counters in \<^verbatim>\<open>ControlBlock::wait\<close>.\<close>

definition waiting :: "pc \<Rightarrow> cb_ref \<Rightarrow> (vcb_ref \<times> arc) list \<Rightarrow> bool" where
  "waiting u c reads \<longleftrightarrow> u = Asleep c reads \<or> u = Parking c reads"

lemma asleep_on_changed:
  assumes "rwlock may_read may_write" and "initial \<Gamma> L s"
    and "mrun may_read may_write \<Gamma> L s ls s'" and "\<And>x y. Writes x y \<notin> set ls"
    and "waiting (pc_of s' t) c reads" and "(x, a) \<in> set reads"
  shows "value_arc (shared s') x = a \<or> \<not> blocked (cbs (shared s') c) \<or>
      (\<exists>u. c \<in> set (taken (pc_of s' u)) \<or> x \<in> set (to_wake (pc_of s' u)))"
proof -
  have "wake_ok s'" by (rule rwlock.wake_ok_run [OF assms(1,3,2,4)])
  from wake_okD(2) [OF this, of t c x a] assms(5,6) have "watched s' c x a" by (auto simp: waiting_def)
  then show ?thesis unfolding watched_def notified_def by blast
qed

lemma stuck_on_current:
  assumes "rwlock_live may_read may_write" and "initial \<Gamma> L s"
    and "mrun may_read may_write \<Gamma> L s ls s'" and "\<And>x y. Writes x y \<notin> set ls"
    and "waiting (pc_of s' t) c reads" and "(x, a) \<in> set reads"
  shows "(\<exists>u. can_step may_read may_write s' u) \<or> value_arc (shared s') x = a"
proof -
  have rw: "rwlock may_read may_write" using assms(1) by (simp add: rwlock_live_def)
  from rwlock.simulation [OF rw assms(3,2)] rwlock.handles_ok_run [OF rw assms(3,2)]
  have ok: "sys_ok \<Gamma> L s'" "handles_ok s'" by blast+
  note 1 = asleep_on_changed [OF rw assms(2-6)]
  have "\<not> resting s' u" if "c \<in> set (taken (pc_of s' u)) \<or> x \<in> set (to_wake (pc_of s' u))" for u
    using that by (auto simp: resting_def)
  moreover have "\<not> resting s' t" if "\<not> blocked (cbs (shared s') c)"
    using that assms(5) by (auto simp: resting_def waiting_def)
  ultimately show ?thesis
    using 1 rwlock_live.somebody_can_step [OF assms(1) ok] by blast
qed

text \<open>
  C2. No wake-up is lost, in a run in which all writes are transactional. (After a \<^verbatim>\<open>write_atomic\<close> it is not
  true, as \<open>Waiting\<close> shows.) In such a run, whenever a transaction
  waits in \<^verbatim>\<open>ControlBlock::wait\<close> and a variable it read has changed, its flag is already cleared, or a
  committing thread has its control block in hand, or is about to take the waiting list of the
  variable; and whenever it is parked and its flag is cleared, it has a token or somebody is about
  to give it one. So if no thread can step any more, every waiting transaction has read exactly
  the values its variables still have.
\<close>

theorem no_wakeup_is_lost:
  assumes "rwlock_live may_read may_write" and "initial \<Gamma> L s"
    and "mrun may_read may_write \<Gamma> L s ls s'" and "\<And>x y. Writes x y \<notin> set ls"
    and "waiting (pc_of s' t) c reads" and "(x, a) \<in> set reads"
  shows "(value_arc (shared s') x = a \<or> \<not> blocked (cbs (shared s') c) \<or>
      (\<exists>u. c \<in> set (taken (pc_of s' u)) \<or> x \<in> set (to_wake (pc_of s' u)))) \<and>
    (blocked (cbs (shared s') c) \<or> pc_of s' t = Asleep c reads \<or> tokens (shared s') t \<or>
      (\<exists>u wr cs v. pc_of s' u = Notify KUnpark c wr cs v)) \<and>
    ((\<exists>u. can_step may_read may_write s' u) \<or> value_arc (shared s') x = a)"
proof -
  note rw = rwlock_live.axioms(1) [OF assms(1)]
  have "blocked (cbs (shared s') c) \<or> pc_of s' t = Asleep c reads \<or> tokens (shared s') t \<or>
      (\<exists>u wr cs v. pc_of s' u = Notify KUnpark c wr cs v)"
    using parked_cases [OF rwlock.handles_ok_run [OF rw assms(3,2)], of t c reads] assms(5)
    unfolding waiting_def by blast
  then show ?thesis using asleep_on_changed [OF rw assms(2-6)] stuck_on_current [OF assms] by blast
qed

text \<open>
  Thread 1 reads 42 and parks; thread 2 has committed and stored a new value, but has not woken
  anybody yet.
\<close>

definition wakeup_events :: "event list" where
  "wakeup_events = Start 1 block_prog # gos 1 6 @ Start 2 (put_prog demo_x 7) # gos 2 6"

fun is_write :: "label \<Rightarrow> bool" where
  "is_write (Writes x y) = True"
| "is_write _ = False"

lemma wakeup_run:
  "map_option (\<lambda>(ls, s). (sleep_state (pc_of s 1), value_arc (shared s) (VCB 16), list_ex is_write ls))
     (run_schedule [1, 2] wakeup_events demo_sys) = Some (Some (0, [(VCB 16, 0)]), 2, False)"
  by code_simp

lemma no_writes: "\<not> list_ex is_write ls \<Longrightarrow> Writes x y \<notin> set ls"
  by (auto simp: list_ex_iff)

theorem no_wakeup_is_lost_witness:
  "\<exists>ls s. mrun eager_read writer_first_write demo_types {VCB 16, VCB 64} demo_sys ls s \<and>
    pc_of s 1 = Parking 0 [(VCB 16, 0)] \<and> value_arc (shared s) (VCB 16) = 2 \<and>
    (\<exists>u. can_step eager_read writer_first_write s u)"
proof -
  from wakeup_run obtain ls s
    where r: "run_schedule [1, 2] wakeup_events demo_sys = Some (ls, s)"
      and s: "pc_of s 1 = Parking 0 [(VCB 16, 0)]" "value_arc (shared s) (VCB 16) = 2"
      and nw: "\<not> list_ex is_write ls"
    by (auto simp: sleep_state_iff)
  have "list_all (event_ok demo_types {VCB 16, VCB 64}) wakeup_events"
    using block_put_ok by (simp add: wakeup_events_def gos_def list_all_iff)
  with schedule_mrun [OF r demo_idle]
  have run: "mrun eager_read writer_first_write demo_types {VCB 16, VCB 64} demo_sys ls s" by blast
  from no_wakeup_is_lost [OF eager_lock.rwlock_live_axioms demo_initial run no_writes [OF nw],
      of 1 0 "[(VCB 16, 0)]"]
  show ?thesis using run s by (auto simp: waiting_def)
qed

end
