(* ===== verification/Progress.thy ===== *)
theory Progress
  imports Concurrency
begin

text \<open>
  Commits fail only because of other commits. As long as no other thread installs a value, the
  originals a running transaction has logged are the current ones, so its \<^verbatim>\<open>commit\<close> finds nothing
  changed. A failed commit is therefore always paid for by a transaction that has committed, or
  by an atomic write, in the course of the failed attempt: the system as a whole makes progress.
\<close>

fun frame_log :: "frame \<Rightarrow> Transaction" where
  "frame_log (First c p q k) = c"
| "frame_log (Second f k) = f"

text \<open>The originals in a thread's logs that are still to be checked are the current values.\<close>

fun up_to_date :: "world \<Rightarrow> pc \<Rightarrow> bool" where
  "up_to_date w (Run p tx fs) =
     (log_current w (vars tx) \<and> (\<forall>f \<in> set fs. log_current w (vars (frame_log f))))"
| "up_to_date w (Locking dn todo rs ws wr v) = log_checks w todo"
| "up_to_date w (Unlocking lk gs rs) = False"
| "up_to_date w _ = True"

lemma up_to_date_stable:
  assumes "up_to_date w u" and "\<And>x. value_arc w' x = value_arc w x"
  shows "up_to_date w' u"
  using assms by (cases u) (auto simp: log_current_def log_checks_def)

lemma log_current_new: "log_current w (vars Transaction_new)"
  by (simp add: log_current_def Transaction_new_def)

lemma log_current_combine:
  assumes "log_current w (vars tx)" and "log_current w (vars f)"
    and "btm_ok (vars tx)" and "btm_ok (vars f)"
  shows "log_current w (vars (Transaction_combine tx f))"
  using assms(1,2)
  by (auto simp: log_current_def get_combine [OF assms(3,4)] bind_eq_Some_conv obsolete_Some
      split: option.splits)

subsection \<open>The steps of the thread itself\<close>

lemma log_current_read:
  assumes "Transaction_read v (w, tx) = (r, w', tx')" and "log_current w (vars tx)"
    and "btm_ok (vars tx)"
  shows "log_current w' (vars tx')"
proof -
  let ?e = "snd (read_entry w (control_block v) (vars tx))"
  have w': "w' = w" and tx': "vars tx' = btm_insert (control_block v) ?e (vars tx)"
    using assms(1) by (auto simp: Transaction_read_eq split: may_panic.splits)
  have "a = value_arc w (control_block v)" if "into_read_value ?e = Some a" for a
    using that assms(2)
    by (auto simp: log_current_def read_entry_def lv.read_orig split: option.splits)
  with assms(2,3) show ?thesis by (auto simp: w' tx' log_current_def)
qed

lemma log_current_write:
  assumes "Transaction_write v y (w, tx) = (r, w', tx')" and "log_current w (vars tx)"
    and "btm_ok (vars tx)"
  shows "log_current w' (vars tx')"
proof -
  let ?e = "write_entry (next_arc (heap w)) (control_block v) (vars tx)"
  have w': "w' = snd (alloc_arc y w)"
    and tx': "vars tx' = btm_insert (control_block v) ?e (vars tx)"
    using assms(1) by (auto simp: Transaction_write_eq)
  have "a = value_arc w (control_block v)" if "into_read_value ?e = Some a" for a
    using that assms(2)
    by (auto simp: log_current_def write_entry_def lv.write_orig split: option.splits)
  with assms(2,3) show ?thesis by (auto simp: w' tx' log_current_def)
qed

lemma step_up_to_date:
  assumes step: "local_step t p0 R W w u l w' u'" and ok: "thread_ok \<Gamma> L w p0 u"
    and cur: "up_to_date w u"
  shows "up_to_date w' u'"
proof -
  have logs: "btm_ok (vars tx) \<and> (\<forall>f \<in> set fs. btm_ok (vars (frame_log f)))"
    if "u = Run p tx fs" for p tx fs
  proof -
    have "frames_ok \<Gamma> L w fs" and "log_ok \<Gamma> L w (vars tx)" using ok by (simp_all add: that)
    then show ?thesis
      by (induction fs rule: frames_ok.induct) (auto simp: log_okD(1))
  qed
  from step show ?thesis
  proof (cases rule: local_step.cases)
    case (run_read tx v x tx' k fs)
    then show ?thesis
      using cur logs log_current_read [OF run_read(5)] read_world [OF run_read(5)] by simp
  next
    case (run_write v y tx r tx' p fs)
    then show ?thesis
      using cur logs log_current_write [OF run_write(4)] write_world [OF run_write(4)]
      by (auto simp: log_current_def)
  next
    case (second_ok x tx f k fs)
    then show ?thesis using cur logs log_current_combine by auto
  next
    case (second_retry tx f k fs)
    then show ?thesis using cur logs log_current_combine by auto
  next
    case (commit_begin x tx)
    then show ?thesis using cur logs log_current_checks by (auto simp: btm_iter_def)
  qed (use cur in \<open>auto simp: log_current_new need_of_simps split: if_splits\<close>)
qed

text \<open>The steps that install a value: the second phase of a commit, and an atomic write.\<close>

lemma step_installs:
  assumes "local_step t p0 R W w u l w' u'" and "value_arc w' x \<noteq> value_arc w x"
  shows "(\<exists>a ws wr v. u = Storing ((a, x) # ws) wr v) \<or> (\<exists>y. l = Writes x y)"
  using assms
  by (cases rule: local_step.cases)
    (auto dest!: read_world write_world cb_alloc_world split: if_splits)

subsection \<open>Runs\<close>

text \<open>
  In the step from \<open>s1\<close> to \<open>s2\<close>, which is not one of thread \<open>t\<close>, a value is installed in \<open>x\<close>: by a
  transaction that has committed, or by an atomic write.
\<close>

definition installs_beside :: "tid \<Rightarrow> sys \<Rightarrow> label \<Rightarrow> sys \<Rightarrow> vcb_ref \<Rightarrow> bool" where
  "installs_beside t s1 l s2 x \<longleftrightarrow>
     thr s2 t = thr s1 t \<and> value_arc (shared s2) x \<noteq> value_arc (shared s1) x \<and>
     ((\<exists>u a ws wr v. u \<noteq> t \<and> pc_of s1 u = Storing ((a, x) # ws) wr v) \<or> (\<exists>y. l = Writes x y))"

lemma mstep_up_to_date:
  assumes step: "mstep may_read may_write \<Gamma> L s l s'" and ok: "sys_ok \<Gamma> L s"
    and cur: "up_to_date (shared s) (pc_of s t)"
  shows "up_to_date (shared s') (pc_of s' t) \<or> (\<exists>x. installs_beside t s l s' x)"
  using step
proof cases
  case (m_local u w' u')
  show ?thesis
  proof (cases "u = t")
    case True
    with m_local have "local_step t (closure (thr s t)) (\<lambda>x. may_read (view_lock s x) t)
        (\<lambda>x. may_write (view_lock s x) t) (shared s) (pc_of s t) l w' u'" by simp
    from step_up_to_date [OF this sys_okD(4) [OF ok] cur] m_local(1) True show ?thesis by simp
  next
    case False
    then have same: "thr s' t = thr s t" using m_local(1) by simp
    show ?thesis
    proof (cases "\<forall>x. value_arc (shared s') x = value_arc (shared s) x")
      case True
      with up_to_date_stable [OF cur] same show ?thesis by simp
    next
      case changed: False
      then obtain x where x: "value_arc w' x \<noteq> value_arc (shared s) x" using m_local(1) by auto
      from step_installs [OF m_local(2) x] False
      have "(\<exists>u a ws wr v. u \<noteq> t \<and> pc_of s u = Storing ((a, x) # ws) wr v) \<or> (\<exists>y. l = Writes x y)"
        by blast
      moreover have "value_arc (shared s') x \<noteq> value_arc (shared s) x" using x m_local(1) by simp
      ultimately have "installs_beside t s l s' x" using same by (simp add: installs_beside_def)
      then show ?thesis by blast
    qed
  qed
next
  case (m_start u p w')
  then have "value_arc w' x = value_arc (shared s) x" for x
    by (auto simp: TransactionGuard_new_def split: if_splits)
  then show ?thesis
    using up_to_date_stable [OF cur, of w'] m_start by (cases "u = t") (simp_all add: log_current_new)
next
  case (m_write u v y)
  then show ?thesis using cur by (cases "u = t") simp_all
next
  case (m_panic u p tx fs)
  then show ?thesis
    using up_to_date_stable [OF cur, of "TransactionGuard_drop u (shared s)"] by (cases "u = t") simp_all
next
  case (m_spurious u c reads)
  then show ?thesis using cur by (cases "u = t") simp_all
qed

context rwlock
begin

lemma sys_ok_run:
  assumes "mrun may_read may_write \<Gamma> L s ls s'" and "sys_ok \<Gamma> L s"
  shows "sys_ok \<Gamma> L s'"
  using assms by induction (auto intro: sys_ok_step)

lemma up_to_date_or_installed:
  assumes "mrun may_read may_write \<Gamma> L s ls s'" and "sys_ok \<Gamma> L s"
    and "up_to_date (shared s) (pc_of s t)"
  shows "up_to_date (shared s') (pc_of s' t) \<or>
    (\<exists>ls1 l ls2 s1 s2 x. ls = ls1 @ l # ls2 \<and> mrun may_read may_write \<Gamma> L s ls1 s1 \<and>
       mstep may_read may_write \<Gamma> L s1 l s2 \<and> mrun may_read may_write \<Gamma> L s2 ls2 s' \<and>
       installs_beside t s1 l s2 x)"
  using assms
proof induction
  case (mrun_nil s)
  then show ?case by simp
next
  case (mrun_snoc s ls s' l s'')
  from mrun_snoc.IH [OF mrun_snoc.prems] show ?case
  proof (elim disjE exE conjE)
    assume "up_to_date (shared s') (pc_of s' t)"
    from mstep_up_to_date [OF mrun_snoc.hyps(2) sys_ok_run [OF mrun_snoc.hyps(1) mrun_snoc.prems(1)]
        this]
    show ?thesis
    proof (elim disjE exE)
      fix x assume "installs_beside t s' l s'' x"
      with mrun_snoc.hyps mrun.mrun_nil [of may_read may_write \<Gamma> L s''] show ?thesis
        by (intro disjI2 exI [of _ ls] exI [of _ l] exI [of _ "[]"] exI [of _ s'] exI [of _ s'']
            exI [of _ x]) simp
    qed simp
  next
    fix ls1 k ls2 s1 s2 x
    assume 1: "ls = ls1 @ k # ls2" "mrun may_read may_write \<Gamma> L s ls1 s1"
        "mstep may_read may_write \<Gamma> L s1 k s2" "installs_beside t s1 k s2 x"
      and "mrun may_read may_write \<Gamma> L s2 ls2 s'"
    from mrun.mrun_snoc [OF this(5) mrun_snoc.hyps(2)] 1 show ?thesis
      by (intro disjI2 exI [of _ ls1] exI [of _ k] exI [of _ "ls2 @ [l]"] exI [of _ s1] exI [of _ s2]
          exI [of _ x]) simp
  qed
qed

end

text \<open>
  C6. A commit fails only if another thread has made progress: if a thread begins an attempt and
  its commit then finds a changed variable, some step in between, not one of this thread, has
  installed a value, and it was a store of a transaction past its commit or an atomic write.
\<close>

theorem commits_fail_only_after_other_commits:
  assumes "rwlock may_read may_write" and "initial \<Gamma> L s0"
    and "mrun may_read may_write \<Gamma> L s0 ls0 s" and "pc_of s t = Run p Transaction_new []"
    and "mrun may_read may_write \<Gamma> L s ls s'" and "pc_of s' t = Unlocking lk gs rs"
  shows "\<exists>ls1 l ls2 s1 s2 x. ls = ls1 @ l # ls2 \<and> mrun may_read may_write \<Gamma> L s ls1 s1 \<and>
    mstep may_read may_write \<Gamma> L s1 l s2 \<and> mrun may_read may_write \<Gamma> L s2 ls2 s' \<and>
    thr s2 t = thr s1 t \<and> value_arc (shared s2) x \<noteq> value_arc (shared s1) x \<and>
    ((\<exists>u a ws wr v. u \<noteq> t \<and> pc_of s1 u = Storing ((a, x) # ws) wr v) \<or> (\<exists>y. l = Writes x y))"
proof -
  from rwlock.simulation [OF assms(1,3,2)] have ok: "sys_ok \<Gamma> L s" by blast
  have "up_to_date (shared s) (pc_of s t)" by (simp add: assms(4) log_current_new)
  from rwlock.up_to_date_or_installed [OF assms(1,5) ok this] assms(6)
  show ?thesis unfolding installs_beside_def by auto
qed

text \<open>Two threads increment the same variable: the second one reads, the first one commits.\<close>

definition both_started :: "event list" where
  "both_started = [Start 1 incr_prog, Start 2 incr_prog]"

definition one_overtakes :: "event list" where
  "one_overtakes = [Go 1, Go 2] @ gos 1 9 @ gos 2 3"

fun unlocking :: "pc \<Rightarrow> (vcb_ref list \<times> vcb_ref list \<times> vcb_ref list) option" where
  "unlocking (Unlocking lk gs rs) = Some (lk, gs, rs)"
| "unlocking _ = None"

lemma unlocking_iff: "unlocking u = Some (lk, gs, rs) \<longleftrightarrow> u = Unlocking lk gs rs"
  by (cases u) auto

lemma overtaken_run:
  "map_option (\<lambda>(ls, s). (unlocking (pc_of s 2), value_arc (shared s) (VCB 16)))
     (run_schedule [1, 2] (both_started @ one_overtakes) demo_sys) =
   Some (Some ([], [VCB 16], []), 2)"
  by code_simp

theorem commits_fail_only_after_other_commits_witness:
  "\<exists>ls s s'. mrun eager_read writer_first_write demo_types {VCB 16, VCB 64} s ls s' \<and>
    pc_of s 2 = Run incr_prog Transaction_new [] \<and> pc_of s' 2 = Unlocking [] [VCB 16] [] \<and>
    (\<exists>(s1 :: sys) (s2 :: sys) x. thr s2 2 = thr s1 2 \<and> value_arc (shared s2) x \<noteq> value_arc (shared s1) x)"
proof -
  let ?run = "mrun eager_read writer_first_write demo_types {VCB 16, VCB 64}"
  from overtaken_run obtain ls0 s ls s' where
    1: "run_schedule [1, 2] both_started demo_sys = Some (ls0, s)" and
    2: "run_schedule [1, 2] one_overtakes s = Some (ls, s')" and
    end': "pc_of s' 2 = Unlocking [] [VCB 16] []"
    by (auto simp: run_schedule_append unlocking_iff split: option.splits)
  have start: "pc_of s 2 = Run incr_prog Transaction_new []"
    using 1 by (auto simp: both_started_def demo_sys_def TransactionGuard_new_def
        split: option.splits may_panic.splits if_splits)
  have "list_all (event_ok demo_types {VCB 16, VCB 64}) both_started"
    and ok: "list_all (event_ok demo_types {VCB 16, VCB 64}) one_overtakes"
    by (auto simp: both_started_def one_overtakes_def gos_def incr_prog_def var_ok_def demo_x_def
        demo_types_def list_all_iff)
  with schedule_mrun [OF 1 demo_idle] have r0: "?run demo_sys ls0 s" and i: "idle_but [1, 2] s"
    by blast+
  from schedule_mrun [OF 2 i ok] have r: "?run s ls s'" by blast
  from commits_fail_only_after_other_commits
    [OF eager_lock.rwlock_axioms demo_initial r0 start r end'] r start end'
  show ?thesis by blast
qed

end
