(* ===== verification/Anomalies.thy ===== *)
theory Anomalies
  imports Wakeup Progress "HOL-Library.Multiset"
begin

text \<open>
  Two behaviours of \<^verbatim>\<open>or\<close> that the reference semantics does not have, as concrete runs. Both come from
  reads of an abandoned first alternative: \<^verbatim>\<open>commit\<close> does not validate them, and \<^verbatim>\<open>combine\<close>
  forgets them when the second alternative has read the same variable.
\<close>

subsection \<open>A result that no serial order explains\<close>

text \<open>
  Initially \<open>x = 42\<close> and \<open>y = 0\<close>. Thread 1 retries its first alternative because \<open>x = 42\<close>; thread
  2 then sets \<open>x\<close> and \<open>y\<close> in one transaction; thread 1 reads the new \<open>y\<close> in its second alternative
  and commits.
\<close>

definition choice_prog :: prog where
  "choice_prog =
     OrElse (ReadVar demo_x (\<lambda>v. if v = VInt 42 then Done retry else Done (Inr (VInt 1))))
       (ReadVar demo_y (\<lambda>v. Done (Inr v))) (\<lambda>v. Done (Inr v))"

definition both_prog :: prog where
  "both_prog = WriteVar demo_x (VInt 7) (WriteVar demo_y (VInt 9) (Done (Inr VUnit)))"

definition choice_events :: "event list" where
  "choice_events = Start 1 choice_prog # gos 1 3 @ Start 2 both_prog # gos 2 13 @ gos 1 10"

abbreviation spec_semantics :: semantics where
  "spec_semantics \<equiv> \<lambda>p \<sigma> v \<sigma>'. spec p \<sigma> = (Inr v, \<sigma>')"

lemmas demo_spec_defs = spec_defs choice_prog_def both_prog_def demo_x_def demo_y_def

lemma choice_specs:
  "spec both_prog \<sigma> = (Inr VUnit, \<sigma>(VCB 16 := VInt 7, VCB 64 := VInt 9))"
  "spec choice_prog \<sigma> =
    (if \<sigma> (VCB 16) = VInt 42 then (Inr (\<sigma> (VCB 64)), \<sigma>) else (Inr (VInt 1), \<sigma>))"
proof -
  show "spec both_prog \<sigma> = (Inr VUnit, \<sigma>(VCB 16 := VInt 7, VCB 64 := VInt 9))"
    by (simp add: demo_spec_defs)
  show "spec choice_prog \<sigma> =
      (if \<sigma> (VCB 16) = VInt 42 then (Inr (\<sigma> (VCB 64)), \<sigma>) else (Inr (VInt 1), \<sigma>))"
    by (cases "\<sigma> (VCB 16) = VInt 42") (simp_all add: demo_spec_defs)
qed

text \<open>The thread and the value of a commit.\<close>

fun committed :: "label \<Rightarrow> (tid \<times> val) option" where
  "committed (Commits t p v) = Some (t, v)"
| "committed _ = None"

lemma committed_iff: "committed l = Some (t, v) \<longleftrightarrow> (\<exists>p. l = Commits t p v)"
  by (cases l) auto

lemma choice_run:
  "map_option (\<lambda>(ls, s).
       (map committed (visible ls),
        is_idle (pc_of s 1), is_idle (pc_of s 2)))
     (run_schedule [1, 2] choice_events demo_sys) =
   Some ([Some (2, VUnit), Some (1, VInt 9)], True, True)"
  by code_simp

lemma mset_pair: "mset xs = {#a, b#} \<longleftrightarrow> xs = [a, b] \<or> xs = [b, a]"
proof
  assume m: "mset xs = {#a, b#}"
  then have "length xs = 2" by (metis size_mset size_add_mset size_empty numeral_2_eq_2)
  then obtain c d where xs: "xs = [c, d]" by (auto simp: length_Suc_conv numeral_2_eq_2)
  with m show "xs = [a, b] \<or> xs = [b, a]" by (auto simp: add_eq_conv_ex)
qed (auto simp: add_mset_commute)

lemma visible_orders:
  assumes "mset ls' = mset ls" and "visible ls = [a, b]"
  shows "visible ls' = [a, b] \<or> visible ls' = [b, a]"
  using arg_cong [OF assms(1), of "filter_mset (\<lambda>l. l \<noteq> Tau)"] assms(2)
  by (simp add: visible_filter mset_pair flip: mset_filter)

lemma visible_mem: "l \<noteq> Tau \<Longrightarrow> l \<in> set (visible ls) \<longleftrightarrow> l \<in> set ls"
  by (simp add: visible_filter)

text \<open>
  C18. \<^verbatim>\<open>or\<close> is not serializable against its own meaning (the first alternative, or the second if
  the first one retries): there is a run whose committed transactions return values that no serial
  order of them returns. The first alternative's reads become \<^verbatim>\<open>ReadObsolete\<close>, which \<^verbatim>\<open>commit\<close> does
  not validate, so the second alternative is committed although the first one would no longer
  retry.
\<close>

theorem or_commits_unvalidated_choice:
  "\<exists>ls s. mrun eager_read writer_first_write demo_types {VCB 16, VCB 64} demo_sys ls s \<and>
    Commits 1 choice_prog (VInt 9) \<in> set ls \<and> (\<forall>t. pc_of s t = Idle) \<and>
    \<not> (\<exists>ls' \<sigma>. mset ls' = mset ls \<and> serial spec_semantics (contents demo_world) ls' \<sigma>)"
proof -
  from choice_run obtain ls s where r: "run_schedule [1, 2] choice_events demo_sys = Some (ls, s)"
    and vis: "map committed (visible ls) = [Some (2, VUnit), Some (1, VInt 9)]"
    and idle: "is_idle (pc_of s 1)" "is_idle (pc_of s 2)"
    by auto
  from vis obtain p q where pq: "visible ls = [Commits 2 p VUnit, Commits 1 q (VInt 9)]"
    by (auto simp: map_eq_Cons_conv committed_iff)
  have "p = both_prog" and "q = choice_prog"
    using schedule_commits [OF r, of 2 p VUnit] schedule_commits [OF r, of 1 q "VInt 9"] pq
      visible_mem [of _ ls]
    by (auto simp: choice_events_def gos_def demo_sys_def)
  then have v: "visible ls = [Commits 2 both_prog VUnit, Commits 1 choice_prog (VInt 9)]"
    using pq by simp
  have "\<not> serial spec_semantics (contents demo_world) ls' \<sigma>" if "mset ls' = mset ls" for ls' \<sigma>
    using visible_orders [OF that v] unfolding serial_visible [symmetric, of _ _ ls']
    by (auto simp: serial_step_simps choice_specs demo_contents)
  moreover have "list_all (event_ok demo_types {VCB 16, VCB 64}) choice_events"
    by (simp add: choice_events_def gos_def list_all_iff choice_prog_def both_prog_def var_ok_def
        demo_x_def demo_y_def demo_types_def)
  with schedule_mrun [OF r demo_idle]
  have "mrun eager_read writer_first_write demo_types {VCB 16, VCB 64} demo_sys ls s"
    and "idle_but [1, 2] s" by blast+
  moreover from this idle have "\<forall>t. pc_of s t = Idle"
    by (auto simp: idle_but_def is_idle_iff) metis
  moreover have "Commits 1 choice_prog (VInt 9) \<in> set ls"
    using v visible_mem [of "Commits 1 choice_prog (VInt 9)" ls] by simp
  ultimately show ?thesis by blast
qed

subsection \<open>A sleeper whose first alternative would succeed\<close>

text \<open>
  Thread 1 retries its first alternative because \<open>x\<close> is not 7; thread 2 sets \<open>x\<close> to 7; thread 1
  then reads the new \<open>x\<close> in its second alternative, which retries whatever it reads. The merged
  log keeps the second alternative's read of \<open>x\<close> only, so the transaction waits for \<open>x\<close> to differ
  from 7.
\<close>

definition pick_prog :: prog where
  "pick_prog =
     OrElse (ReadVar demo_x (\<lambda>v. if v = VInt 7 then Done (Inr v) else Done retry))
       (ReadVar demo_x (\<lambda>v. Done retry)) (\<lambda>v. Done (Inr v))"

text \<open>Up to the end of the second alternative, and the rest of the run.\<close>

definition pick_events :: "event list" where
  "pick_events = Start 1 pick_prog # gos 1 3 @ Start 2 (put_prog demo_x 7) # gos 2 9 @ gos 1 1"

definition sleep_events :: "event list" where
  "sleep_events = gos 1 6"

text \<open>The two logs that \<^verbatim>\<open>combine\<close> is about to merge when both alternatives retry.\<close>

fun merging :: "pc \<Rightarrow> ((vcb_ref, LogVar) btree_map \<times> (vcb_ref, LogVar) btree_map) option" where
  "merging (Run (Done (Inl Retry)) tx [Second f k]) = Some (vars tx, vars f)"
| "merging _ = None"

lemma merging_iff:
  "merging u = Some (m, m') \<longleftrightarrow>
    (\<exists>tx f k. u = Run (Done (Inl Retry)) tx [Second f k] \<and> vars tx = m \<and> vars f = m')"
  by (cases u rule: merging.cases) auto

lemma pick_run:
  "map_option (\<lambda>(ls, s). (merging (pc_of s 1), list_ex is_write ls))
     (run_schedule [1, 2] pick_events demo_sys) =
   Some (Some ([(VCB 16, Read 2)], [(VCB 16, Read 0)]), False)"
  by code_simp

lemma picked_run:
  "map_option (\<lambda>(ls, s).
       (sleep_state (pc_of s 1), blocked (cbs (shared s) 0), tokens (shared s) 1, is_idle (pc_of s 2),
        value_arc (shared s) (VCB 16), fst (spec pick_prog (contents (shared s))), list_ex is_write ls))
     (run_schedule [1, 2] (pick_events @ sleep_events) demo_sys) =
   Some (Some (0, [(VCB 16, 2)]), True, False, True, 2, Inr (VInt 7), False)"
  by code_simp

text \<open>
  C19. \<^verbatim>\<open>combine\<close> loses a wake-up: a transaction can sleep for ever although running it again would
  succeed. There is a run with transactional writes only in which thread 1 runs \<open>pick_prog\<close>, both
  alternatives have retried, the first one having read another box of \<open>x\<close> than the second one, and the log that
  \<^verbatim>\<open>combine\<close> merges from the two waits for the second read only. The run goes on to a state in which no thread can take a
  step, thread 1 is parked with just that read, which is current, and its closure, run on the contents
  of the variables, returns a value. A closure without \<^verbatim>\<open>or\<close> is never left in such a state by a run without
  \<^verbatim>\<open>write_atomic\<close> (\<open>Sleepers\<close>).
\<close>

theorem combine_can_lose_a_wakeup:
  "\<exists>ls1 s1 ls2 s2 tx f k a b c.
    mrun eager_read writer_first_write demo_types {VCB 16, VCB 64} demo_sys ls1 s1 \<and>
    mrun eager_read writer_first_write demo_types {VCB 16, VCB 64} s1 ls2 s2 \<and>
    (\<forall>x y. Writes x y \<notin> set (ls1 @ ls2)) \<and>
    closure (thr s1 1) = pick_prog \<and> pc_of s1 1 = Run (Done (Inl Retry)) tx [Second f k] \<and>
    waited_reads f = {(VCB 16, a)} \<and> waited_reads tx = {(VCB 16, b)} \<and> a \<noteq> b \<and>
    waited_reads (Transaction_combine tx f) = {(VCB 16, b)} \<and>
    closure (thr s2 1) = pick_prog \<and> pc_of s2 1 = Parking c [(VCB 16, b)] \<and>
    value_arc (shared s2) (VCB 16) = b \<and>
    (\<nexists>u. can_step eager_read writer_first_write s2 u) \<and>
    fst (spec pick_prog (contents (shared s2))) = Inr (VInt 7)"
proof -
  let ?run = "mrun eager_read writer_first_write demo_types {VCB 16, VCB 64}"
  from pick_run obtain ls1 s1 where
    1: "run_schedule [1, 2] pick_events demo_sys = Some (ls1, s1)" and
    m: "merging (pc_of s1 1) = Some ([(VCB 16, Read 2)], [(VCB 16, Read 0)])" and
    nw1: "\<not> list_ex is_write ls1"
    by auto
  from m obtain tx f k where pc1: "pc_of s1 1 = Run (Done (Inl Retry)) tx [Second f k]"
    and logs: "vars tx = [(VCB 16, Read 2)]" "vars f = [(VCB 16, Read 0)]"
    unfolding merging_iff by blast
  from picked_run [unfolded run_schedule_append 1] obtain ls2 s2 where
    2: "run_schedule [1, 2] sleep_events s1 = Some (ls2, s2)" and
    s2: "sleep_state (pc_of s2 1) = Some (0, [(VCB 16, 2)])" "blocked (cbs (shared s2) 0)"
      "\<not> tokens (shared s2) 1" "is_idle (pc_of s2 2)" "value_arc (shared s2) (VCB 16) = 2" and
    spec: "fst (spec pick_prog (contents (shared s2))) = Inr (VInt 7)" and
    nw: "\<not> list_ex is_write (ls1 @ ls2)"
    by auto
  have ok: "list_all (event_ok demo_types {VCB 16, VCB 64}) pick_events"
    "list_all (event_ok demo_types {VCB 16, VCB 64}) sleep_events"
    using block_put_ok(2)
    by (simp_all add: pick_events_def sleep_events_def gos_def list_all_iff pick_prog_def var_ok_def
        demo_x_def demo_types_def)
  from schedule_mrun [OF 1 demo_idle ok(1)] have r1: "?run demo_sys ls1 s1" and i: "idle_but [1, 2] s1"
    by blast+
  from schedule_mrun [OF 2 i ok(2)] have r2: "?run s1 ls2 s2" and idle: "idle_but [1, 2] s2" by blast+
  have cl: "closure (thr s1 1) = pick_prog"
    using schedule_started [OF 1 [unfolded pick_events_def]] by (auto simp: gos_def)
  then have cl2: "closure (thr s2 1) = pick_prog"
    using schedule_closure [OF 2, of 1] by (auto simp: sleep_events_def gos_def)
  have "waited_reads f = {(VCB 16, 0)}" and "waited_reads tx = {(VCB 16, 2)}"
    and "waited_reads (Transaction_combine tx f) = {(VCB 16, 2)}"
    by (auto simp: waited_reads_def Transaction_combine_def logs btm_get_def btm_iter_def btm_or_insert_def
        obsolete_def split: if_splits)
  moreover have "resting s2 u" for u
    using s2(1-4) idle unfolding sleep_state_iff is_idle_iff
    by (cases "u \<in> {1, 2}") (auto simp: resting_def idle_but_def)
  then have "\<nexists>u. can_step eager_read writer_first_write s2 u" using resting_cannot_step by blast
  ultimately show ?thesis
    using r1 r2 cl cl2 pc1 s2(1)[unfolded sleep_state_iff] s2(5) spec no_writes [OF nw]
    by (intro exI [of _ ls1] exI [of _ s1] exI [of _ ls2] exI [of _ s2] exI [of _ tx] exI [of _ f]
        exI [of _ k] exI [of _ 0] exI [of _ 2] conjI allI) simp_all
qed

subsection \<open>A torn state inside a closure\<close>














end
