(* ===== verification/TArc.thy ===== *)
theory TArc
  imports TVar_Ops
begin

text \<open>
  \<^verbatim>\<open>TArc<T>\<close> of \<^verbatim>\<open>tarc.rs\<close>: a variable of type \<^verbatim>\<open>Arc<T>\<close>. Its values are \<open>VArc T a\<close> with the address
  \<open>a\<close> of a box of its own. The copy-on-write helper depends on the strong count of that box, which
  is computed here: one for each live box that contains the \<^verbatim>\<open>Arc\<close> (current values of variables and
  boxes of the log; a box shared by both counts once) and one for each reference in \<open>held\<close>, which
  stands for local variables, other threads and references nested in other values.
\<close>

record TArc =
  inner :: TVar

subsection \<open>References\<close>

fun holds_arc :: "val \<Rightarrow> arc \<Rightarrow> bool" where
  "holds_arc (VArc T a) b \<longleftrightarrow> a = b"
| "holds_arc _ b \<longleftrightarrow> False"

definition entry_boxes :: "LogVar \<Rightarrow> arc list" where
  "entry_boxes e =
     (case into_read_value e of None \<Rightarrow> [] | Some a \<Rightarrow> [a]) @
     (case pending_value e of None \<Rightarrow> [] | Some a \<Rightarrow> [a])"

definition live_boxes :: "ctx \<Rightarrow> arc list" where
  "live_boxes c =
     remdups (map (value_arc (fst c)) (vcb_live (fst c)) @
       concat (map (\<lambda>(x, e). entry_boxes e) (btm_iter (vars (snd c)))))"

definition strong_count :: "arc list \<Rightarrow> ctx \<Rightarrow> arc \<Rightarrow> nat" where
  "strong_count held c a =
     count_list held a + length (filter (\<lambda>b. holds_arc (deref (heap (fst c)) b) a) (live_boxes c))"

text \<open>
  \<^verbatim>\<open>Arc::make_mut\<close> followed by the mutation \<open>f\<close>: a shared box is cloned, a box with weak references
  only is moved, and only a box without any other reference is changed in place.
\<close>

definition Arc_make_mut :: "nat \<Rightarrow> nat \<Rightarrow> (val \<Rightarrow> val) \<Rightarrow> arc \<Rightarrow> world \<Rightarrow> arc \<times> world" where
  "Arc_make_mut strong weak f a w =
     (if strong \<noteq> 1 \<or> weak \<noteq> 0 then alloc_arc (f (deref (heap w) a)) w
      else (a, w\<lparr>heap := (heap w)\<lparr>boxes := (boxes (heap w))(a := f (deref (heap w) a))\<rparr>\<rparr>))"

text \<open>A value known to be an \<^verbatim>\<open>Arc\<close> by its type.\<close>

fun with_arc :: "val \<Rightarrow> (tyid \<Rightarrow> arc \<Rightarrow> 'a action) \<Rightarrow> 'a action" where
  "with_arc (VArc T a) k = k T a"
| "with_arc _ k = (\<lambda>c. (Panic ''TVar has wrong type'', c))"

subsection \<open>The operations\<close>

definition TArc_new :: "vcb_ref \<Rightarrow> val \<Rightarrow> world \<Rightarrow> TArc \<times> world" where
  "TArc_new addr v w =
     (let (a, w1) = alloc_arc v w;
          (x, w2) = TVar_new addr (VArc (type_id v) a) w1
      in (\<lparr>inner = x\<rparr>, w2))"

definition TArc_from_arc :: "vcb_ref \<Rightarrow> val \<Rightarrow> world \<Rightarrow> TArc \<times> world" where
  "TArc_from_arc addr a w = (let (x, w1) = TVar_new addr a w in (\<lparr>inner = x\<rparr>, w1))"

definition TArc_read :: "TArc \<Rightarrow> val action" where
  "TArc_read self = TVar_read (inner self)"

definition TArc_read_atomic :: "TArc \<Rightarrow> world \<Rightarrow> val may_panic" where
  "TArc_read_atomic self w = read_atomic (inner self) w"

definition TArc_write :: "TArc \<Rightarrow> val \<Rightarrow> unit action" where
  "TArc_write self a = TVar_write (inner self) a"

definition TArc_write_val :: "TArc \<Rightarrow> val \<Rightarrow> unit action" where
  "TArc_write_val self v = (\<lambda>(w, tx).
     let (a, w1) = alloc_arc v w in TVar_write (inner self) (VArc (type_id v) a) (w1, tx))"

definition TArc_write_atomic :: "TArc \<Rightarrow> val \<Rightarrow> world \<Rightarrow> world" where
  "TArc_write_atomic self a w = write_atomic (inner self) a w"

definition TArc_replace :: "TArc \<Rightarrow> val \<Rightarrow> val action" where
  "TArc_replace self a = TVar_replace (inner self) a"

definition TArc_ref_eq :: "TArc \<Rightarrow> TArc \<Rightarrow> bool" where
  "TArc_ref_eq this other = ref_eq (inner this) (inner other)"

definition TArc_as_tvar :: "TArc \<Rightarrow> TVar" where
  "TArc_as_tvar self = inner self"

definition TArc_clone :: "TArc \<Rightarrow> TArc" where
  "TArc_clone self = \<lparr>inner = inner self\<rparr>"

definition TArc_modify_cow :: "arc list \<Rightarrow> nat \<Rightarrow> TArc \<Rightarrow> (val \<Rightarrow> val) \<Rightarrow> unit action" where
  "TArc_modify_cow held weak self f =
     bind_action (TArc_read self) (\<lambda>current. with_arc current (\<lambda>T a (w, tx).
       let (next, w1) = Arc_make_mut (1 + strong_count held (w, tx) a) weak f a w
       in TArc_write self (VArc T next) (w1, tx)))"

definition TArc_update :: "TArc \<Rightarrow> (val \<Rightarrow> val) \<Rightarrow> unit action" where
  "TArc_update self f =
     bind_action (TArc_read self) (\<lambda>current. with_arc current (\<lambda>T a (w, tx).
       let (next, w1) = alloc_arc (f (deref (heap w) a)) w
       in TArc_write self (VArc T next) (w1, tx)))"

subsection \<open>Boxes behind boxes\<close>

text \<open>Every \<^verbatim>\<open>Arc\<close> stored in a box points to an allocated box of its type.\<close>

definition val_ok :: "arena \<Rightarrow> val \<Rightarrow> bool" where
  "val_ok h v \<longleftrightarrow> (case v of VArc T a \<Rightarrow> allocated h a \<and> type_id (deref h a) = T | _ \<Rightarrow> True)"

definition arena_ok :: "arena \<Rightarrow> bool" where
  "arena_ok h \<longleftrightarrow> (\<forall>b < next_arc h. val_ok h (deref h b))"

lemma arena_okD: "arena_ok h \<Longrightarrow> allocated h b \<Longrightarrow> val_ok h (deref h b)"
  by (simp add: arena_ok_def allocated_def)

lemma val_ok_mono: "val_ok h v \<Longrightarrow> extends h h' \<Longrightarrow> val_ok h' v"
  by (auto simp: val_ok_def extends_allocated extends_deref split: val.splits)

lemma arena_ok_Arc_new:
  assumes "arena_ok h" and "val_ok h v"
  shows "arena_ok (snd (Arc_new v h))"
  unfolding arena_ok_def
proof (intro allI impI)
  fix b assume "b < next_arc (snd (Arc_new v h))"
  then have "b = next_arc h \<or> b < next_arc h" by auto
  then have "val_ok h (deref (snd (Arc_new v h)) b)"
    using assms by (auto simp: deref_Arc_new arena_ok_def)
  then show "val_ok (snd (Arc_new v h)) (deref (snd (Arc_new v h)) b)"
    by (rule val_ok_mono) simp
qed

subsection \<open>Reading keeps a reference in the log\<close>

lemma live_box_counted:
  assumes "b \<in> set (live_boxes c)" and "holds_arc (deref (heap (fst c)) b) a"
  shows "0 < strong_count held c a"
proof -
  have "filter (\<lambda>b. holds_arc (deref (heap (fst c)) b) a) (live_boxes c) \<noteq> []"
    using assms by (auto simp: filter_empty_conv)
  then show ?thesis by (simp add: strong_count_def)
qed

lemma log_box_live:
  assumes "btm_ok (vars tx)" and "btm_get (vars tx) x = Some e" and "b \<in> set (entry_boxes e)"
  shows "b \<in> set (live_boxes (w, tx))"
  using btm.iter_mem [OF assms(1), of x e] assms(2,3) by (force simp: live_boxes_def)

lemma Transaction_read_typed:
  assumes "ctx_ok \<Gamma> L (w, tx)" and "var_ok \<Gamma> L v"
  obtains tx' where "Transaction_read v (w, tx) =
      (Return (Inr (view w (vars tx) (control_block v))), w, tx')"
    and "ctx_ok \<Gamma> L (w, tx')" and "view w (vars tx') = view w (vars tx)"
    and "seen_arc w (vars tx) (control_block v) \<in> set (live_boxes (w, tx'))"
proof -
  let ?x = "control_block v"
  from refinesE [OF refines_read [OF assms(2)] assms(1)] obtain r w1 tx'
    where R: "Transaction_read v (w, tx) = (Return r, w1, tx')" and ok: "ctx_ok \<Gamma> L (w1, tx')"
      and S: "spec_read ?x (view w (vars tx)) = (r, view w1 (vars tx'))" by blast
  have w1: "w1 = w" using R by (simp add: Transaction_read_eq split: may_panic.splits)
  let ?e = "snd (read_entry w ?x (vars tx))"
  have tx': "tx' = tx\<lparr>vars := btm_insert ?x ?e (vars tx)\<rparr>"
    using R by (auto simp: Transaction_read_eq w1 split: may_panic.splits)
  have "fst (read_entry w ?x (vars tx)) \<in> set (entry_boxes ?e)"
  proof (cases "btm_get (vars tx) ?x")
    case (Some e)
    then show ?thesis by (cases e) (simp_all add: read_entry_def entry_boxes_def)
  qed (simp add: read_entry_def entry_boxes_def)
  moreover have "btm_get (vars tx') ?x = Some ?e" using ctx_okD(5) [OF assms(1)] by (simp add: tx')
  ultimately have "fst (read_entry w ?x (vars tx)) \<in> set (live_boxes (w, tx'))"
    by (intro log_box_live [OF ctx_okD(5) [OF ok]])
  then have live: "seen_arc w (vars tx) ?x \<in> set (live_boxes (w, tx'))"
    by (simp only: read_entry_current(1) [OF assms(1)])
  have r: "r = Inr (view w (vars tx) ?x)" and v: "view w (vars tx') = view w (vars tx)"
    using S unfolding spec_read_def w1 by (metis prod.inject)+
  show thesis by (rule that [OF R [unfolded r w1] ok [unfolded w1] v live])
qed

lemma arc_value:
  assumes "type_id v = TyArc T"
  obtains a where "v = VArc T a"
  using assms by (cases v) auto

text \<open>What a \<^verbatim>\<open>TArc\<close> holds, as its transaction sees it.\<close>

lemma TArc_view:
  assumes "ctx_ok \<Gamma> L (w, tx)" and "var_ok \<Gamma> L (inner self)" and "marker (inner self) = TyArc T"
    and "arena_ok (heap w)"
  obtains a where "view w (vars tx) (control_block (inner self)) = VArc T a"
    and "deref (heap w) (seen_arc w (vars tx) (control_block (inner self))) = VArc T a"
    and "allocated (heap w) a" and "type_id (deref (heap w) a) = T"
proof -
  let ?x = "control_block (inner self)"
  have x: "?x \<in> L" and \<Gamma>: "\<Gamma> ?x = TyArc T" using assms(2,3) by (simp_all add: var_ok_def)
  note s = seen_arc_typed [OF assms(1) x]
  from s \<Gamma> have "type_id (deref (heap w) (seen_arc w (vars tx) ?x)) = TyArc T"
    by (simp add: arc_typed_def)
  then obtain a where a: "deref (heap w) (seen_arc w (vars tx) ?x) = VArc T a" by (rule arc_value)
  from s have "allocated (heap w) (seen_arc w (vars tx) ?x)" by (simp add: arc_typed_def)
  from arena_okD [OF assms(4) this] a have "allocated (heap w) a" "type_id (deref (heap w) a) = T"
    by (simp_all add: val_ok_def)
  with a that view_live [OF assms(1) x] show thesis by simp
qed

lemma modify_cow_eq_update:
  assumes "ctx_ok \<Gamma> L (w, tx)" and "var_ok \<Gamma> L (inner self)" and "marker (inner self) = TyArc T"
    and "arena_ok (heap w)"
  shows "TArc_modify_cow held weak self f (w, tx) = TArc_update self f (w, tx)"
proof -
  let ?x = "control_block (inner self)"
  from TArc_view [OF assms] obtain a where v: "view w (vars tx) ?x = VArc T a"
    and d: "deref (heap w) (seen_arc w (vars tx) ?x) = VArc T a" by blast
  from Transaction_read_typed [OF assms(1,2)] obtain tx'
    where R: "Transaction_read (inner self) (w, tx) = (Return (Inr (view w (vars tx) ?x)), w, tx')"
      and live: "seen_arc w (vars tx) ?x \<in> set (live_boxes (w, tx'))" by blast
  have "0 < strong_count held (w, tx') a"
    using live_box_counted [OF live, of a held] d by simp
  then show ?thesis
    by (simp add: TArc_modify_cow_def TArc_update_def TArc_read_def TVar_read_def bind_action_def
        R v Arc_make_mut_def)
qed

text \<open>
  C31. \<^verbatim>\<open>modify_cow\<close> and \<^verbatim>\<open>update\<close>: in any transaction and whatever other references there are, both
  do the same, because the log keeps a reference to the box that was read and \<^verbatim>\<open>make_mut\<close> therefore
  always clones: the variable's \<^verbatim>\<open>Arc\<close> is replaced by one to a new box with the function applied, the
  old box, which readers may hold, is not touched, and no other variable changes.
\<close>

theorem modify_cow_clones:
  fixes w :: world and tx :: Transaction
  assumes "ctx_ok \<Gamma> L (w, tx)" and "arena_ok (heap w)" and "var_ok \<Gamma> L (inner self)"
    and "marker (inner self) = TyArc T" and "\<And>v. type_id v = T \<Longrightarrow> val_ok (heap w) v \<Longrightarrow>
      type_id (f v) = T \<and> val_ok (heap w) (f v)"
  shows "TArc_modify_cow held weak self f (w, tx) = TArc_update self f (w, tx) \<and>
    (\<exists>a b w' tx'. TArc_update self f (w, tx) = (Return (Inr ()), w', tx') \<and>
       ctx_ok \<Gamma> L (w', tx') \<and> arena_ok (heap w') \<and> only_allocates w w' \<and>
       view w (vars tx) (control_block (inner self)) = VArc T a \<and> allocated (heap w) a \<and>
       \<not> allocated (heap w) b \<and> deref (heap w') b = f (deref (heap w) a) \<and>
       deref (heap w') a = deref (heap w) a \<and>
       view w' (vars tx') = (view w (vars tx))(control_block (inner self) := VArc T b))"
proof -
  let ?x = "control_block (inner self)"
  from TArc_view [OF assms(1,3,4,2)] obtain a where v: "view w (vars tx) ?x = VArc T a"
    and al: "allocated (heap w) a" and ty: "type_id (deref (heap w) a) = T" by blast
  from Transaction_read_typed [OF assms(1,3)] obtain tx1
    where R: "Transaction_read (inner self) (w, tx) = (Return (Inr (view w (vars tx) ?x)), w, tx1)"
      and ok1: "ctx_ok \<Gamma> L (w, tx1)" and v1: "view w (vars tx1) = view w (vars tx)" by blast
  let ?y = "f (deref (heap w) a)" and ?b = "next_arc (heap w)"
  let ?w = "snd (alloc_arc ?y w)"
  have ok2: "ctx_ok \<Gamma> L (?w, tx1)" by (rule ctx_ok_only_allocates [OF ok1]) simp
  have v2: "view ?w (vars tx1) = view w (vars tx)"
    using view_only_allocates [OF ok1, of ?w] v1 by simp
  have "type_id (VArc T ?b) = marker (inner self)" using assms(4) by simp
  from refinesE [OF refines_write [OF assms(3) this] ok2] obtain r w' tx'
    where W: "Transaction_write (inner self) (VArc T ?b) (?w, tx1) = (Return r, w', tx')"
      and ok': "ctx_ok \<Gamma> L (w', tx')" and al': "only_allocates ?w w'"
      and S: "spec_write ?x (VArc T ?b) (view ?w (vars tx1)) = (r, view w' (vars tx'))" by blast
  have w': "w' = snd (alloc_arc (VArc T ?b) ?w)" using W by (simp add: Transaction_write_eq)
  have b: "deref (heap w') ?b = ?y" by (simp add: w' deref_Arc_new)
  have fy: "type_id ?y = T" "val_ok (heap w) ?y"
    using assms(5) [OF ty arena_okD [OF assms(2) al]] by simp_all
  have h: "arena_ok (heap ?w)" using arena_ok_Arc_new [OF assms(2) fy(2)] by simp
  have "val_ok (heap ?w) (VArc T ?b)" using fy(1) by (simp add: val_ok_def)
  from arena_ok_Arc_new [OF h this] have h': "arena_ok (heap w')" by (simp add: w')
  have alw: "only_allocates w w'" by (rule only_allocates_trans [OF _ al']) simp
  then have "deref (heap w') a = deref (heap w) a"
    by (intro extends_deref [OF only_allocatesD(1) al])
  moreover have "TArc_update self f (w, tx) = (Return r, w', tx')"
    using W by (simp add: TArc_update_def TArc_read_def TVar_read_def bind_action_def R v
        TArc_write_def TVar_write_def split_def)
  moreover have "r = Inr ()" and "view w' (vars tx') = (view w (vars tx))(?x := VArc T ?b)"
    using S by (simp_all add: spec_write_def v2)
  ultimately show ?thesis
    using modify_cow_eq_update [OF assms(1,3,4,2)] ok' h' alw v al b not_allocated_next by blast
qed

text \<open>A world with one \<^verbatim>\<open>TArc\<close> holding 21, whose box somebody else references too.\<close>

definition tarc_world :: world where
  "tarc_world = snd (TArc_new (VCB 32) (VInt 21) empty_world)"

definition demo_tarc :: TArc where
  "demo_tarc = fst (TArc_new (VCB 32) (VInt 21) empty_world)"

lemma tarc_world_simps [simp]:
  "heap tarc_world = snd (Arc_new (VArc TyInt 0) (snd (Arc_new (VInt 21) empty_arena)))"
  "vcb_live tarc_world = [VCB 32]"
  "value_arc tarc_world (VCB 32) = 1"
  "inner demo_tarc = \<lparr>control_block = VCB 32, marker = TyArc TyInt\<rparr>"
  by (simp_all add: tarc_world_def demo_tarc_def TArc_new_def Let_def split_def TVar_new_def
      VarControlBlock_new_def empty_world_def empty_arena_def)

lemma empty_arena_simps [simp]: "next_arc empty_arena = 0" "\<not> allocated empty_arena a"
  by (simp_all add: empty_arena_def allocated_def)

lemma tarc_arena_ok: "arena_ok (heap tarc_world)"
  by (auto simp: arena_ok_def val_ok_def deref_Arc_new less_Suc_eq)

lemma tarc_ctx_ok: "ctx_ok (\<lambda>_. TyArc TyInt) {VCB 32} (tarc_world, Transaction_new)"
  by (simp add: ctx_ok_def world_ok_def log_ok_def log_current_def Transaction_new_def arc_typed_def
      deref_Arc_new)

lemma tarc_view: "view tarc_world (vars Transaction_new) (VCB 32) = VArc TyInt 0"
  by (simp add: view_def seen_arc_def Transaction_new_def deref_Arc_new)

theorem modify_cow_clones_witness:
  "\<exists>b w' tx'. TArc_modify_cow [0] 1 demo_tarc val_succ (tarc_world, Transaction_new) =
      (Return (Inr ()), w', tx') \<and>
    b \<noteq> 0 \<and> deref (heap w') b = VInt 22 \<and> deref (heap w') 0 = VInt 21 \<and>
    view w' (vars tx') (VCB 32) = VArc TyInt b"
proof -
  have v: "var_ok (\<lambda>_. TyArc TyInt) {VCB 32} (inner demo_tarc)" by (simp add: var_ok_def)
  have ok: "type_id (val_succ x) = TyInt \<and> val_ok (heap tarc_world) (val_succ x)"
    if "type_id x = TyInt" for x
    using that by (cases x) (simp_all add: val_ok_def)
  note m = modify_cow_clones [OF tarc_ctx_ok tarc_arena_ok v, of TyInt val_succ "[0]" 1]
  from m ok obtain a b w' tx' where "TArc_modify_cow [0] 1 demo_tarc val_succ (tarc_world, Transaction_new) =
      (Return (Inr ()), w', tx')" and a: "view tarc_world (vars Transaction_new) (VCB 32) = VArc TyInt a"
    and "\<not> allocated (heap tarc_world) b" and "deref (heap w') b = val_succ (deref (heap tarc_world) a)"
    and "deref (heap w') a = deref (heap tarc_world) a"
    and "view w' (vars tx') = (view tarc_world (vars Transaction_new))(VCB 32 := VArc TyInt b)"
    by auto
  moreover have "a = 0" using a tarc_view by simp
  ultimately show ?thesis by (auto simp: deref_Arc_new)
qed

subsection \<open>Reading, writing and replacing\<close>

interpretation tarc_cell: store_cell \<Gamma> L "\<lambda>s. var_ok \<Gamma> L (inner s)" "\<lambda>s. control_block (inner s)"
    "\<lambda>s x. type_id x = marker (inner s)" TArc_read TArc_write
  for \<Gamma> L
  by unfold_locales
    (auto simp: TArc_read_def TArc_write_def TVar_read_def TVar_write_def store_typed_def var_ok_def
      intro: refines_read refines_write)

lemma TArc_replace_eq:
  "TArc_replace self a =
    bind_action (TArc_read self) (\<lambda>old. bind_action (TArc_write self a) (\<lambda>_. return_action (Inr old)))"
  by (simp add: TArc_replace_def TVar_replace_def TArc_read_def TArc_write_def)

text \<open>
  C33. The other operations of a \<^verbatim>\<open>TArc\<close>: a transactional read returns the \<^verbatim>\<open>Arc\<close> itself and allocates
  nothing, so the value behind it is never cloned; \<^verbatim>\<open>write\<close> and \<^verbatim>\<open>replace\<close> install the given \<^verbatim>\<open>Arc\<close>;
  \<^verbatim>\<open>write_val\<close> installs a new box with the value; clones and \<^verbatim>\<open>as_tvar\<close> name the same variable.
\<close>

theorem tarc_operations:
  fixes w :: world and tx :: Transaction
  assumes "ctx_ok \<Gamma> L (w, tx)" and "var_ok \<Gamma> L (inner self)" and "marker (inner self) = TyArc T"
    and "type_id v = T" and "type_id a = TyArc T"
  shows "(\<exists>tx'. TArc_read self (w, tx) =
      (Return (Inr (view w (vars tx) (control_block (inner self)))), w, tx')) \<and>
    refines \<Gamma> L (TArc_write self a) (spec_write (control_block (inner self)) a) \<and>
    refines \<Gamma> L (TArc_replace self a)
      (\<lambda>s. (Inr (s (control_block (inner self))), s(control_block (inner self) := a))) \<and>
    (\<exists>b w' tx'. TArc_write_val self v (w, tx) = (Return (Inr ()), w', tx') \<and>
       ctx_ok \<Gamma> L (w', tx') \<and> \<not> allocated (heap w) b \<and> deref (heap w') b = v \<and>
       view w' (vars tx') = (view w (vars tx))(control_block (inner self) := VArc T b)) \<and>
    TArc_ref_eq (TArc_clone self) self \<and> ref_eq (TArc_as_tvar self) (inner self)"
proof -
  let ?x = "control_block (inner self)" and ?b = "next_arc (heap w)"
  let ?w = "snd (alloc_arc v w)"
  from Transaction_read_typed [OF assms(1,2)] have 1: "\<exists>tx'. TArc_read self (w, tx) =
      (Return (Inr (view w (vars tx) ?x)), w, tx')"
    by (metis TArc_read_def TVar_read_def)
  have 2: "refines \<Gamma> L (TArc_write self a) (spec_write ?x a)"
    by (rule tarc_cell.wr_spec [OF assms(2)]) (simp add: assms(3,5))
  have 3: "refines \<Gamma> L (TArc_replace self a) (\<lambda>s. (Inr (s ?x), s(?x := a)))"
    unfolding TArc_replace_eq
    by (rule tarc_cell.replace_spec [OF assms(2)]) (simp add: assms(3,5))
  have ok: "ctx_ok \<Gamma> L (?w, tx)" by (rule ctx_ok_only_allocates [OF assms(1)]) simp
  have view: "view ?w (vars tx) = view w (vars tx)" by (rule view_only_allocates [OF assms(1)]) simp
  have "type_id (VArc T ?b) = marker (inner self)" using assms(3) by simp
  from refinesE [OF refines_write [OF assms(2) this] ok] obtain r w' tx'
    where W: "Transaction_write (inner self) (VArc T ?b) (?w, tx) = (Return r, w', tx')"
      and ok': "ctx_ok \<Gamma> L (w', tx')" and al: "only_allocates ?w w'"
      and S: "spec_write ?x (VArc T ?b) (view ?w (vars tx)) = (r, view w' (vars tx'))" by blast
  have "deref (heap w') ?b = v" using extends_deref [OF only_allocatesD(1) [OF al], of ?b] by simp
  moreover have "TArc_write_val self v (w, tx) = (Return r, w', tx')"
    using W assms(4) by (simp add: TArc_write_val_def TVar_write_def split_def Let_def)
  moreover have "r = Inr ()" and "view w' (vars tx') = (view w (vars tx))(?x := VArc T ?b)"
    using S by (simp_all add: spec_write_def view)
  ultimately have 4: "\<exists>b w' tx'. TArc_write_val self v (w, tx) = (Return (Inr ()), w', tx') \<and>
       ctx_ok \<Gamma> L (w', tx') \<and> \<not> allocated (heap w) b \<and> deref (heap w') b = v \<and>
       view w' (vars tx') = (view w (vars tx))(?x := VArc T b)"
    using ok' not_allocated_next by blast
  show ?thesis
    using 1 2 3 4 by (simp add: TArc_ref_eq_def TArc_clone_def ref_eq_def TArc_as_tvar_def)
qed

theorem tarc_operations_witness:
  "\<exists>tx'. TArc_read demo_tarc (tarc_world, Transaction_new) = (Return (Inr (VArc TyInt 0)), tarc_world, tx')"
proof -
  have "var_ok (\<lambda>_. TyArc TyInt) {VCB 32} (inner demo_tarc)" by (simp add: var_ok_def)
  from tarc_operations [OF tarc_ctx_ok this, of TyInt "VInt 3" "VArc TyInt 0"] tarc_view
  show ?thesis by auto
qed

end
