(* ===== verification/TWeak.thy ===== *)
theory TWeak
  imports TArc
begin

text \<open>
  \<^verbatim>\<open>TWeak<T>\<close> of \<^verbatim>\<open>tweak.rs\<close>: a variable of type \<^verbatim>\<open>Weak<T>\<close>. Its values are \<open>VWeak T None\<close> for
  \<^verbatim>\<open>Weak::new()\<close> and \<open>VWeak T (Some a)\<close> for a downgraded \<^verbatim>\<open>Arc\<close>; upgrading succeeds while the box has
  a strong reference.
\<close>

record TWeak =
  inner :: TVar

fun Arc_downgrade :: "val \<Rightarrow> val" where
  "Arc_downgrade (VArc T a) = VWeak T (Some a)"
| "Arc_downgrade v = v"

fun Weak_upgrade :: "arc list \<Rightarrow> ctx \<Rightarrow> val \<Rightarrow> val option" where
  "Weak_upgrade held c (VWeak T (Some a)) =
     (if 0 < strong_count held c a then Some (VArc T a) else None)"
| "Weak_upgrade held c _ = None"

definition TWeak_from_weak :: "vcb_ref \<Rightarrow> val \<Rightarrow> world \<Rightarrow> TWeak \<times> world" where
  "TWeak_from_weak addr v w = (let (x, w1) = TVar_new addr v w in (\<lparr>inner = x\<rparr>, w1))"

definition TWeak_new :: "vcb_ref \<Rightarrow> tyid \<Rightarrow> world \<Rightarrow> TWeak \<times> world" where
  "TWeak_new addr T w = (let (x, w1) = TVar_new addr (VWeak T None) w in (\<lparr>inner = x\<rparr>, w1))"

definition TWeak_default :: "vcb_ref \<Rightarrow> tyid \<Rightarrow> world \<Rightarrow> TWeak \<times> world" where
  "TWeak_default addr T w = TWeak_new addr T w"

definition TWeak_downgrade :: "vcb_ref \<Rightarrow> TArc \<Rightarrow> TWeak action" where
  "TWeak_downgrade addr src =
     bind_action (TArc_read src) (\<lambda>arc. \<lambda>(w, tx).
       let (t, w1) = TWeak_from_weak addr (Arc_downgrade arc) w in (Return (Inr t), w1, tx))"

definition TWeak_read :: "TWeak \<Rightarrow> val action" where
  "TWeak_read self = TVar_read (inner self)"

definition TWeak_read_atomic :: "TWeak \<Rightarrow> world \<Rightarrow> val may_panic" where
  "TWeak_read_atomic self w = read_atomic (inner self) w"

definition TWeak_upgrade :: "arc list \<Rightarrow> TWeak \<Rightarrow> val option action" where
  "TWeak_upgrade held self =
     bind_action (TWeak_read self) (\<lambda>v c. (Return (Inr (Weak_upgrade held c v)), c))"

definition TWeak_write :: "TWeak \<Rightarrow> val \<Rightarrow> unit action" where
  "TWeak_write self v = TVar_write (inner self) v"

definition TWeak_write_arc :: "TWeak \<Rightarrow> val \<Rightarrow> unit action" where
  "TWeak_write_arc self a = TVar_write (inner self) (Arc_downgrade a)"

definition TWeak_clear :: "TWeak \<Rightarrow> tyid \<Rightarrow> unit action" where
  "TWeak_clear self T = TVar_write (inner self) (VWeak T None)"

definition TWeak_ref_eq :: "TWeak \<Rightarrow> TWeak \<Rightarrow> bool" where
  "TWeak_ref_eq this other = ref_eq (inner this) (inner other)"

definition TWeak_as_tvar :: "TWeak \<Rightarrow> TVar" where
  "TWeak_as_tvar self = inner self"

definition TWeak_clone :: "TWeak \<Rightarrow> TWeak" where
  "TWeak_clone self = \<lparr>inner = inner self\<rparr>"

subsection \<open>Weak references hold nothing\<close>

definition holders :: "ctx \<Rightarrow> arc \<Rightarrow> arc set" where
  "holders c a = {b \<in> set (live_boxes c). holds_arc (deref (heap (fst c)) b) a}"

lemma strong_count_eq: "strong_count held c a = count_list held a + card (holders c a)"
proof -
  have "distinct (filter (\<lambda>b. holds_arc (deref (heap (fst c)) b) a) (live_boxes c))"
    by (simp add: live_boxes_def)
  from distinct_card [OF this] show ?thesis by (simp add: strong_count_def holders_def)
qed

lemma mem_live_boxes:
  assumes "btm_ok (vars tx)"
  shows "b \<in> set (live_boxes (w, tx)) \<longleftrightarrow> b \<in> value_arc w ` set (vcb_live w) \<or>
    (\<exists>x e. btm_get (vars tx) x = Some e \<and> b \<in> set (entry_boxes e))"
  using btm.iter_mem [OF assms] by (force simp: live_boxes_def)

lemma entry_boxes_typed: "entry_ok w T e \<Longrightarrow> b \<in> set (entry_boxes e) \<Longrightarrow> arc_typed w T b"
  by (cases e) (auto simp: entry_boxes_def)

lemma weak_holds_nothing: "type_id v = TyWeak T \<Longrightarrow> \<not> holds_arc v a"
  by (cases v) simp_all

lemma live_boxes_allocated:
  assumes "ctx_ok \<Gamma> L (w, tx)" and "b \<in> set (live_boxes (w, tx))"
  shows "allocated (heap w) b"
  using assms(2) unfolding mem_live_boxes [OF ctx_okD(5) [OF assms(1)]]
proof (elim disjE exE conjE)
  fix x e assume "btm_get (vars tx) x = Some e" and "b \<in> set (entry_boxes e)"
  from entry_boxes_typed [OF log_okD(2) [OF ctx_okD(3) [OF assms(1)] this(1)] this(2)]
  show ?thesis by (simp add: arc_typed_def)
qed (use world_okD [OF ctx_okD(1) [OF assms(1)]] in \<open>auto simp: arc_typed_def\<close>)

lemma holders_only_allocates:
  assumes "ctx_ok \<Gamma> L (w, tx)" and "only_allocates w w'"
  shows "holders (w', tx) a = holders (w, tx) a"
proof -
  have "live_boxes (w', tx) = live_boxes (w, tx)"
    by (simp add: live_boxes_def only_allocatesD [OF assms(2)])
  moreover have "deref (heap w') b = deref (heap w) b" if "b \<in> set (live_boxes (w, tx))" for b
    by (rule extends_deref [OF only_allocatesD(1) [OF assms(2)] live_boxes_allocated [OF assms(1) that]])
  ultimately show ?thesis by (auto simp: holders_def)
qed

text \<open>Changing the log's entry of a weak variable changes no strong count.\<close>

lemma holders_insert:
  assumes "ctx_ok \<Gamma> L (w, tx)" and "\<Gamma> x = TyWeak T" and "entry_ok w (\<Gamma> x) e"
  shows "holders (w, tx\<lparr>vars := btm_insert x e (vars tx)\<rparr>) a = holders (w, tx) a"
proof -
  let ?tx = "tx\<lparr>vars := btm_insert x e (vars tx)\<rparr>"
  note ok = ctx_okD(5) [OF assms(1)]
  have ok': "btm_ok (vars ?tx)" using ok by (simp add: btm_ok_insert)
  have none: "\<not> holds_arc (deref (heap w) b) a" if "entry_ok w (\<Gamma> x) e'" "b \<in> set (entry_boxes e')" for b e'
    using entry_boxes_typed [OF that] assms(2) by (intro weak_holds_nothing) (simp add: arc_typed_def)
  have old: "entry_ok w (\<Gamma> x) e'" if "btm_get (vars tx) x = Some e'" for e'
    using log_okD(2) [OF ctx_okD(3) [OF assms(1)] that] .
  have "b \<in> set (live_boxes (w, ?tx)) \<longleftrightarrow> b \<in> set (live_boxes (w, tx))"
    if "holds_arc (deref (heap w) b) a" for b
  proof -
    have "btm_get (vars tx) y = Some e' \<and> b \<in> set (entry_boxes e') \<longleftrightarrow>
        btm_get (vars ?tx) y = Some e' \<and> b \<in> set (entry_boxes e')" for y e'
      using that none [OF assms(3), of b] none [OF old, of e' b] ok by (cases "y = x") auto
    then show ?thesis unfolding mem_live_boxes [OF ok] mem_live_boxes [OF ok'] by simp
  qed
  then show ?thesis by (auto simp: holders_def)
qed

lemma TWeak_read_effect:
  assumes "ctx_ok \<Gamma> L (w, tx)" and "var_ok \<Gamma> L (inner self)" and "marker (inner self) = TyWeak T"
  obtains tx' where "TWeak_read self (w, tx) =
      (Return (Inr (view w (vars tx) (control_block (inner self)))), w, tx')"
    and "\<And>a. holders (w, tx') a = holders (w, tx) a"
proof -
  let ?x = "control_block (inner self)"
  from Transaction_read_typed [OF assms(1,2)] obtain tx'
    where R: "Transaction_read (inner self) (w, tx) = (Return (Inr (view w (vars tx) ?x)), w, tx')"
    by blast
  then have tx': "tx' = tx\<lparr>vars := btm_insert ?x (snd (read_entry w ?x (vars tx))) (vars tx)\<rparr>"
    by (auto simp: Transaction_read_eq split: may_panic.splits)
  have x: "\<Gamma> ?x = TyWeak T" "?x \<in> L" using assms(2,3) by (simp_all add: var_ok_def)
  have "holders (w, tx') a = holders (w, tx) a" for a
    unfolding tx' by (rule holders_insert [OF assms(1) x(1) entry_ok_read_entry [OF assms(1) x(2)]])
  with R that show thesis by (simp add: TWeak_read_def TVar_read_def)
qed

lemma TWeak_write_effect:
  assumes "ctx_ok \<Gamma> L (w, tx)" and "var_ok \<Gamma> L (inner self)" and "marker (inner self) = TyWeak T"
    and "type_id v = TyWeak T"
  obtains w' tx' where "TWeak_write self v (w, tx) = (Return (Inr ()), w', tx')"
    and "ctx_ok \<Gamma> L (w', tx')" and "view w' (vars tx') (control_block (inner self)) = v"
    and "\<And>a. holders (w', tx') a = holders (w, tx) a"
proof -
  let ?x = "control_block (inner self)"
  have "type_id v = marker (inner self)" using assms(3,4) by simp
  from refinesE [OF refines_write [OF assms(2) this] assms(1)] obtain r w' tx'
    where W: "Transaction_write (inner self) v (w, tx) = (Return r, w', tx')"
      and ok: "ctx_ok \<Gamma> L (w', tx')" and al: "only_allocates w w'"
      and S: "spec_write ?x v (view w (vars tx)) = (r, view w' (vars tx'))" by blast
  let ?e = "write_entry (next_arc (heap w)) ?x (vars tx)"
  have tx': "tx' = tx\<lparr>vars := btm_insert ?x ?e (vars tx)\<rparr>"
    using W by (simp add: Transaction_write_eq)
  have x: "\<Gamma> ?x = TyWeak T" using assms(2,3) by (simp add: var_ok_def)
  have e: "entry_ok w' (\<Gamma> ?x) ?e"
    using log_okD(2) [OF ctx_okD(3) [OF ok], of ?x ?e] ctx_okD(5) [OF assms(1)] by (simp add: tx')
  have "holders (w', tx') a = holders (w, tx) a" for a
    unfolding tx' holders_insert [OF ctx_ok_only_allocates [OF assms(1) al] x e]
    by (rule holders_only_allocates [OF assms(1) al])
  moreover have "r = Inr ()" and "view w' (vars tx') = (view w (vars tx))(?x := v)"
    using S by (simp_all add: spec_write_def)
  ultimately show thesis using that [of w' tx'] W ok by (simp add: TWeak_write_def TVar_write_def)
qed

lemma TWeak_upgrade_effect:
  assumes "ctx_ok \<Gamma> L (w, tx)" and "var_ok \<Gamma> L (inner self)" and "marker (inner self) = TyWeak T"
    and "view w (vars tx) (control_block (inner self)) = VWeak T r"
  shows "\<exists>tx'. TWeak_upgrade held self (w, tx) =
    (Return (Inr (case r of None \<Rightarrow> None
       | Some a \<Rightarrow> if 0 < strong_count held (w, tx) a then Some (VArc T a) else None)), w, tx')"
proof -
  from TWeak_read_effect [OF assms(1-3)] obtain tx' where R: "TWeak_read self (w, tx) =
      (Return (Inr (VWeak T r)), w, tx')" and h: "\<And>a. holders (w, tx') a = holders (w, tx) a"
    by (metis assms(4))
  have "strong_count held (w, tx') a = strong_count held (w, tx) a" for a
    by (simp add: strong_count_eq h)
  then show ?thesis
    by (cases r) (simp_all add: TWeak_upgrade_def bind_action_def R)
qed

text \<open>
  C32. A weak reference keeps nothing alive and upgrading asks for life: after \<^verbatim>\<open>write_arc\<close> an upgrade
  in the same transaction returns the \<^verbatim>\<open>Arc\<close> exactly if its box had a strong reference before, after
  \<^verbatim>\<open>clear\<close> it returns nothing, and neither changes the strong count of any box.
\<close>

theorem weak_references_hold_nothing:
  fixes w :: world and tx :: Transaction
  assumes "ctx_ok \<Gamma> L (w, tx)" and "var_ok \<Gamma> L (inner self)" and "marker (inner self) = TyWeak T"
  shows "(\<exists>w' tx' tx''. TWeak_write_arc self (VArc T a) (w, tx) = (Return (Inr ()), w', tx') \<and>
      TWeak_upgrade held self (w', tx') = (Return (Inr
        (if 0 < strong_count held (w, tx) a then Some (VArc T a) else None)), w', tx'') \<and>
      (\<forall>b. strong_count held (w', tx') b = strong_count held (w, tx) b)) \<and>
    (\<exists>w' tx' tx''. TWeak_clear self T (w, tx) = (Return (Inr ()), w', tx') \<and>
      TWeak_upgrade held self (w', tx') = (Return (Inr None), w', tx'') \<and>
      (\<forall>b. strong_count held (w', tx') b = strong_count held (w, tx) b))"
proof
  from TWeak_write_effect [OF assms, of "VWeak T (Some a)"] obtain w' tx'
    where W: "TWeak_write self (VWeak T (Some a)) (w, tx) = (Return (Inr ()), w', tx')"
      and ok: "ctx_ok \<Gamma> L (w', tx')"
      and v: "view w' (vars tx') (control_block (inner self)) = VWeak T (Some a)"
      and h: "\<And>a. holders (w', tx') a = holders (w, tx) a" by auto
  from TWeak_upgrade_effect [OF ok assms(2,3) v, of held] W
  show "\<exists>w' tx' tx''. TWeak_write_arc self (VArc T a) (w, tx) = (Return (Inr ()), w', tx') \<and>
      TWeak_upgrade held self (w', tx') = (Return (Inr
        (if 0 < strong_count held (w, tx) a then Some (VArc T a) else None)), w', tx'') \<and>
      (\<forall>b. strong_count held (w', tx') b = strong_count held (w, tx) b)"
    by (auto simp: TWeak_write_arc_def TWeak_write_def strong_count_eq h)
next
  from TWeak_write_effect [OF assms, of "VWeak T None"] obtain w' tx'
    where W: "TWeak_write self (VWeak T None) (w, tx) = (Return (Inr ()), w', tx')"
      and ok: "ctx_ok \<Gamma> L (w', tx')"
      and v: "view w' (vars tx') (control_block (inner self)) = VWeak T None"
      and h: "\<And>a. holders (w', tx') a = holders (w, tx) a" by auto
  from TWeak_upgrade_effect [OF ok assms(2,3) v, of held] W
  show "\<exists>w' tx' tx''. TWeak_clear self T (w, tx) = (Return (Inr ()), w', tx') \<and>
      TWeak_upgrade held self (w', tx') = (Return (Inr None), w', tx'') \<and>
      (\<forall>b. strong_count held (w', tx') b = strong_count held (w, tx) b)"
    by (auto simp: TWeak_clear_def TWeak_write_def strong_count_eq h)
qed

subsection \<open>Downgrading a \<^verbatim>\<open>TArc\<close>\<close>

text \<open>Creating a variable inside a transaction keeps its log well typed and current.\<close>

lemma ctx_ok_TVar_new:
  assumes "ctx_ok \<Gamma> L (w, tx)" and "addr \<notin> L" and "type_id v = \<Gamma> addr"
  shows "ctx_ok \<Gamma> (insert addr L) (snd (TVar_new addr v w), tx)"
proof (rule ctx_okI)
  let ?w = "snd (TVar_new addr v w)"
  note ok = ctx_okD [OF assms(1)]
  have "\<Gamma>(addr := type_id v) = \<Gamma>" using assms(3) by (simp add: fun_eq_iff)
  then show "world_ok \<Gamma> ?w"
    using world_ok_TVar_new [OF ok(1), of addr v] assms(2) ok(2) by simp
  show "set (vcb_live ?w) = insert addr L" using ok(2) by simp
  have "log_ok \<Gamma> L ?w (vars tx)" by (rule log_ok_mono [OF ok(3)]) simp
  then show "log_ok \<Gamma> (insert addr L) ?w (vars tx)" by (auto simp: log_ok_def)
  have "x \<noteq> addr" if "btm_get (vars tx) x = Some e" for x e
    using log_okD(3) [OF ok(3) that] assms(2) by auto
  with ok(4) show "log_current ?w (vars tx)" by (auto simp: log_current_def)
qed

text \<open>
  Downgrading a \<^verbatim>\<open>TArc\<close> and upgrading the result: in the same transaction the upgrade returns
  the very \<^verbatim>\<open>Arc\<close> that the \<^verbatim>\<open>TArc\<close> holds, whoever else holds references, because the log keeps the
  box it was read from.
\<close>

theorem downgrade_then_upgrade:
  fixes w :: world and tx :: Transaction
  assumes "ctx_ok \<Gamma> L (w, tx)" and "arena_ok (heap w)" and "var_ok \<Gamma> L (TArc.inner src)"
    and "marker (TArc.inner src) = TyArc T" and "addr \<notin> L" and "\<Gamma> addr = TyWeak T"
  shows "\<exists>a weak w' tx' tx''.
    view w (vars tx) (control_block (TArc.inner src)) = VArc T a \<and>
    TWeak_downgrade addr src (w, tx) = (Return (Inr weak), w', tx') \<and>
    TWeak_upgrade held weak (w', tx') = (Return (Inr (Some (VArc T a))), w', tx'')"
proof -
  let ?x = "control_block (TArc.inner src)"
  from TArc_view [OF assms(1,3,4,2)] obtain a where v: "view w (vars tx) ?x = VArc T a"
    and d: "deref (heap w) (seen_arc w (vars tx) ?x) = VArc T a" by blast
  from Transaction_read_typed [OF assms(1,3)] obtain tx1
    where R: "Transaction_read (TArc.inner src) (w, tx) = (Return (Inr (view w (vars tx) ?x)), w, tx1)"
      and ok1: "ctx_ok \<Gamma> L (w, tx1)" and live: "seen_arc w (vars tx) ?x \<in> set (live_boxes (w, tx1))"
    by blast
  let ?W = "VWeak T (Some a)"
  let ?w = "snd (TVar_new addr ?W w)"
  let ?t = "\<lparr>inner = fst (TVar_new addr ?W w)\<rparr>"
  have D: "TWeak_downgrade addr src (w, tx) = (Return (Inr ?t), ?w, tx1)"
    by (simp add: TWeak_downgrade_def TArc_read_def TVar_read_def bind_action_def R v
        TWeak_from_weak_def split_def Let_def)
  have ok2: "ctx_ok \<Gamma> (insert addr L) (?w, tx1)"
    by (rule ctx_ok_TVar_new [OF ok1 assms(5)]) (simp add: assms(6))
  have tv: "var_ok \<Gamma> (insert addr L) (TWeak.inner ?t)" and tm: "marker (TWeak.inner ?t) = TyWeak T"
    using assms(6) by (simp_all add: var_ok_def)
  have nolog: "btm_get (vars tx1) addr = None"
    using log_okD(3) [OF ctx_okD(3) [OF ok1], of addr] assms(5)
    by (cases "btm_get (vars tx1) addr") auto
  have tw: "view ?w (vars tx1) (control_block (TWeak.inner ?t)) = ?W"
    by (simp add: view_def seen_arc_def nolog)
  have "value_arc ?w ` set (vcb_live ?w) \<supseteq> value_arc w ` set (vcb_live w)"
    using assms(5) ctx_okD(2) [OF assms(1)] by auto
  then have live': "seen_arc w (vars tx) ?x \<in> set (live_boxes (?w, tx1))"
    using live ctx_okD(5) [OF ok1] by (auto simp: mem_live_boxes)
  have "deref (heap ?w) (seen_arc w (vars tx) ?x) = VArc T a"
    using d live_boxes_allocated [OF ok1 live] by (simp add: deref_Arc_new_old)
  then have "0 < strong_count held (?w, tx1) a"
    using live_box_counted [OF live', of a held] by simp
  with TWeak_upgrade_effect [OF ok2 tv tm tw, of held] D v show ?thesis by auto
qed

subsection \<open>Witnesses\<close>

theorem downgrade_then_upgrade_witness:
  "\<exists>weak w' tx' tx''.
    TWeak_downgrade (VCB 48) demo_tarc (tarc_world, Transaction_new) = (Return (Inr weak), w', tx') \<and>
    TWeak_upgrade [] weak (w', tx') = (Return (Inr (Some (VArc TyInt 0))), w', tx'')"
proof -
  let ?\<Gamma> = "(\<lambda>_. TyArc TyInt)(VCB 48 := TyWeak TyInt)"
  have ok: "ctx_ok ?\<Gamma> {VCB 32} (tarc_world, Transaction_new)"
    using tarc_ctx_ok by (simp add: ctx_ok_def world_ok_def log_ok_def Transaction_new_def)
  have v: "var_ok ?\<Gamma> {VCB 32} (TArc.inner demo_tarc)" by (simp add: var_ok_def)
  from downgrade_then_upgrade [OF ok tarc_arena_ok v, of TyInt "VCB 48" "[]"] tarc_view
  show ?thesis by simp
qed

definition weak_world :: world where
  "weak_world = snd (TWeak_new (VCB 48) TyInt empty_world)"

definition demo_weak :: TWeak where
  "demo_weak = fst (TWeak_new (VCB 48) TyInt empty_world)"

lemma weak_world_simps [simp]:
  "heap weak_world = snd (Arc_new (VWeak TyInt None) empty_arena)"
  "vcb_live weak_world = [VCB 48]"
  "value_arc weak_world (VCB 48) = 0"
  "inner demo_weak = \<lparr>control_block = VCB 48, marker = TyWeak TyInt\<rparr>"
  by (simp_all add: weak_world_def demo_weak_def TWeak_new_def Let_def split_def TVar_new_def
      VarControlBlock_new_def empty_world_def empty_arena_def)

theorem weak_references_hold_nothing_witness:
  "\<exists>w' tx' tx''. TWeak_write_arc demo_weak (VArc TyInt 5) (weak_world, Transaction_new) =
      (Return (Inr ()), w', tx') \<and>
    TWeak_upgrade [5] demo_weak (w', tx') = (Return (Inr (Some (VArc TyInt 5))), w', tx'')"
proof -
  have ok: "ctx_ok (\<lambda>_. TyWeak TyInt) {VCB 48} (weak_world, Transaction_new)"
    by (simp add: ctx_ok_def world_ok_def log_ok_def log_current_def Transaction_new_def
        arc_typed_def deref_Arc_new)
  have "var_ok (\<lambda>_. TyWeak TyInt) {VCB 48} (inner demo_weak)" by (simp add: var_ok_def)
  from weak_references_hold_nothing [OF ok this, of TyInt 5 "[5]"]
  show ?thesis by (auto simp: strong_count_def)
qed

end
