(* ===== verification/Termination.thy ===== *)
theory Termination
  imports Schedule
begin

text \<open>
  One attempt of a transaction ends or parks, whatever the other threads do to the shared world
  between its steps: a thread that is never blocked reaches the end of its closure, of \<^verbatim>\<open>commit\<close>, of
  \<^verbatim>\<open>wait_for_change\<close>, or \<^verbatim>\<open>park\<close>. (Others could unpark it again and again without clearing its flag; the
  loop of \<^verbatim>\<open>ControlBlock::wait\<close> then parks each time.) No measure in the natural numbers exists, since a variable may hold any value
  when it is read and a waiting list may have any length when it is taken; the steps of an
  attempt are shown to be well-founded instead.
\<close>

text \<open>
  The program counters after which an attempt is over: \<^verbatim>\<open>with_control\<close> asks the control function
  after a failure, a commit has failed and dropped its guards, a wait has returned.
\<close>

fun ends_attempt :: "pc \<Rightarrow> bool" where
  "ends_attempt (Run (Done (Inl Failure)) tx []) = True"
| "ends_attempt (Unlocking [] [] []) = True"
| "ends_attempt (Dying c []) = True"
| "ends_attempt _ = False"

fun in_park :: "pc \<Rightarrow> bool" where
  "in_park (Parking c reads) = True"
| "in_park _ = False"

text \<open>
  A step of the thread within an attempt, in any world and with any lock grants. The sequence is cut where the thread
  is inside \<^verbatim>\<open>park\<close>: how often the loop of \<^verbatim>\<open>ControlBlock::wait\<close> parks again depends on others.
\<close>

definition attempt_step :: "tid \<Rightarrow> prog \<Rightarrow> pc \<Rightarrow> pc \<Rightarrow> bool" where
  "attempt_step t p0 u u' \<longleftrightarrow>
     \<not> ends_attempt u \<and> \<not> in_park u \<and> (\<exists>R W w l w'. local_step t p0 R W w u l w' u')"

abbreviation ends :: "tid \<Rightarrow> prog \<Rightarrow> pc \<Rightarrow> bool" where
  "ends t p0 \<equiv> Wellfounded.accp (\<lambda>u' u. attempt_step t p0 u u')"

text \<open>A program counter ends if all its successors do.\<close>

lemma endsI:
  assumes "\<And>R W w l w' u'. local_step t p0 R W w u l w' u' \<Longrightarrow> \<not> ends_attempt u \<Longrightarrow> \<not> in_park u \<Longrightarrow>
    ends t p0 u'"
  shows "ends t p0 u"
  by (rule accp.accI) (use assms in \<open>auto simp: attempt_step_def\<close>)

inductive_cases local_stepE: "local_step t p0 R W w u l w' u'"

lemma over_ends: "ends_attempt u \<Longrightarrow> ends t p0 u"
  by (rule endsI) simp

lemma idle_ends: "ends t p0 Idle"
  by (rule endsI) (auto elim: local_stepE)

lemma crashed_ends: "ends t p0 (Crashed m)"
  by (rule endsI) (auto elim: local_stepE)

subsection \<open>The phases of commit and of waiting\<close>

lemma notify_ends:
  assumes "ends t p0 (Waking wr cs v)"
  shows "ends t p0 (Notify k c wr cs v)"
proof -
  have release: "ends t p0 (Notify k c wr cs v)" if "k = KWoke \<or> k = KSkipped" for k
    by (rule endsI) (use that in \<open>auto elim: local_stepE intro: assms\<close>)
  have "ends t p0 (Notify KUnpark c wr cs v)"
    by (rule endsI) (auto elim: local_stepE intro: release)
  then have "ends t p0 (Notify KIdle c wr cs v)"
    by - (rule endsI, auto elim!: local_stepE intro: release)
  with \<open>ends t p0 (Notify KUnpark c wr cs v)\<close> release show ?thesis by (cases k) simp_all
qed

lemma waking_ends: "ends t p0 (Waking wr cs v)"
proof (induction wr arbitrary: cs)
  case Nil
  show ?case
  proof (induction cs)
    case Nil
    show ?case by (rule endsI) (auto elim: local_stepE intro: idle_ends)
  next
    case (Cons c cs)
    show ?case by (rule endsI) (auto elim: local_stepE intro: Cons.IH notify_ends)
  qed
next
  case (Cons x wr)
  note outer = Cons.IH
  show ?case
  proof (induction cs)
    case Nil
    show ?case by (rule endsI) (auto elim: local_stepE intro: outer)
  next
    case (Cons c cs)
    show ?case by (rule endsI) (auto elim: local_stepE intro: Cons.IH notify_ends)
  qed
qed

lemma storing_ends: "ends t p0 (Storing ws wr v)"
  by (induction ws) (rule endsI, auto elim!: local_stepE intro: waking_ends)+

lemma drop_reads_ends: "ends t p0 (DropReads rs ws wr v)"
  by (induction rs) (rule endsI, auto elim!: local_stepE intro: storing_ends)+

lemma unlocking_ends: "ends t p0 (Unlocking lk gs rs)"
proof (induction lk)
  case Nil
  show ?case
  proof (induction gs)
    case Nil
    show ?case by (induction rs) (auto intro: over_ends endsI elim!: local_stepE)
  next
    case (Cons x gs)
    show ?case by (rule endsI) (auto elim!: local_stepE intro: Cons.IH)
  qed
next
  case (Cons x lk)
  show ?case by (rule endsI) (auto elim!: local_stepE intro: Cons.IH)
qed

lemma locking_ends: "ends t p0 (Locking dn todo rs ws wr v)"
  by (induction todo arbitrary: dn rs ws wr)
    (rule endsI, auto elim!: local_stepE intro: drop_reads_ends unlocking_ends)+

lemma dying_ends: "ends t p0 (Dying c xs)"
proof (induction xs)
  case Nil
  show ?case by (simp add: over_ends)
next
  case (Cons x xs)
  have "ends t p0 (Cleaning c x xs)" by (rule endsI) (auto elim!: local_stepE intro: Cons.IH)
  with Cons.IH show ?case by - (rule endsI, auto elim!: local_stepE split: if_splits)
qed

lemma parking_ends: "ends t p0 (Parking c reads)"
  by (rule endsI) simp

lemma asleep_ends: "ends t p0 (Asleep c reads)"
  by (rule endsI) (auto elim!: local_stepE intro: dying_ends parking_ends)

lemma register_ends: "ends t p0 (Register c todo reads)"
proof (induction todo arbitrary: reads)
  case Nil
  show ?case by (rule endsI) (auto elim!: local_stepE intro: asleep_ends)
next
  case (Cons e todo)
  have "ends t p0 (Compare c x a todo reads)" for x a
    by (rule endsI) (auto elim!: local_stepE intro: Cons.IH dying_ends)
  then show ?case by - (rule endsI, auto elim!: local_stepE intro: Cons.IH)
qed

lemma atomic_write_ends: "ends t p0 (AtomicWrite v y)"
  by (rule endsI) (auto elim!: local_stepE intro: idle_ends)

subsection \<open>The closure\<close>

text \<open>A closure ends if its continuation does, with any result and any log.\<close>

lemma run_ends:
  assumes "\<And>r tx. ends t p0 (Run (Done r) tx fs)"
  shows "ends t p0 (Run p tx fs)"
  using assms
proof (induction p arbitrary: tx fs)
  case (Done r)
  then show ?case by blast
next
  case (ReadVar v k)
  note IH = ReadVar.IH [OF rangeI ReadVar.prems]
  show ?case by (rule endsI) (auto elim!: local_stepE intro: IH crashed_ends)
next
  case (WriteVar v y p)
  note IH = WriteVar.IH [OF WriteVar.prems]
  show ?case by (rule endsI) (auto elim!: local_stepE intro: IH)
next
  case (OrElse p q k)
  note k = OrElse.IH(3) [OF rangeI OrElse.prems]
  have second: "ends t p0 (Run (Done r) tx (Second f k # fs))" for r tx f
    by (rule endsI) (auto elim!: local_stepE intro: k OrElse.prems)
  note q = OrElse.IH(2) [OF second]
  have first: "ends t p0 (Run (Done r) tx (First c p q k # fs))" for r tx c
    by (rule endsI) (auto elim!: local_stepE intro: k q OrElse.prems)
  note p = OrElse.IH(1) [OF first]
  show ?case by (rule endsI) (auto elim!: local_stepE intro: p)
qed

lemma result_ends: "ends t p0 (Run (Done r) tx [])"
proof (cases "r = Inl Failure")
  case True
  then show ?thesis by (simp add: over_ends)
next
  case False
  then show ?thesis
    by - (rule endsI, auto elim!: local_stepE intro: locking_ends register_ends idle_ends)
qed

lemma stack_ends: "ends t p0 (Run (Done r) tx fs)"
proof (induction fs arbitrary: r tx)
  case Nil
  show ?case by (rule result_ends)
next
  case (Cons f fs)
  note any = run_ends [OF Cons.IH]
  have second: "ends t p0 (Run (Done r) tx (Second g k # fs))" for r tx g k
    by (rule endsI) (auto elim!: local_stepE intro: any)
  note any2 = run_ends [OF second]
  show ?case
    by (cases f) (simp_all add: second, rule endsI, auto elim!: local_stepE intro: any any2)
qed

lemma every_pc_ends: "ends t p0 u"
  by (cases u)
    (auto intro: idle_ends crashed_ends waking_ends storing_ends drop_reads_ends unlocking_ends
      locking_ends dying_ends asleep_ends parking_ends notify_ends register_ends atomic_write_ends
      run_ends [OF stack_ends] endsI elim!: local_stepE)

text \<open>
  C5. Every attempt terminates: the steps of a thread between the start of an attempt and its end
  are well-founded, where the sequence is cut each time the thread parks (the loop around \<^verbatim>\<open>park\<close> is outside), so there is no infinite sequence of them, for any closure, any log and any
  interference of other threads with the shared world; an attempt that has ended returns to its
  caller or begins again with an empty log; and before its end a thread whose lock requests are
  granted always has a step, unless it is parked without a token.
\<close>

theorem attempts_terminate:
  "wfp (\<lambda>u' u. attempt_step t p0 u u') \<and>
   (\<forall>us. \<exists>i. \<not> attempt_step t p0 (us i) (us (Suc i))) \<and>
   {u'. \<exists>u R W w l w'. ends_attempt u \<and> local_step t p0 R W w u l w' u'} \<subseteq>
     {Idle, Run p0 Transaction_new []} \<and>
   (\<forall>w u. (\<exists>l w' u'. local_step t p0 (\<lambda>_. True) (\<lambda>_. True) w u l w' u') \<or> u = Idle \<or>
      (\<exists>m. u = Crashed m) \<or> (\<exists>c reads. u = Parking c reads \<and> \<not> tokens w t))"
proof (intro conjI allI)
  show wf: "wfp (\<lambda>u' u. attempt_step t p0 u u')" by (rule accp_wfpI) (simp add: every_pc_ends)
  show "\<exists>i. \<not> attempt_step t p0 (us i) (us (Suc i))" for us
    using wf by (simp add: wfp_def wf_iff_no_infinite_down_chain)
  show "{u'. \<exists>u R W w l w'. ends_attempt u \<and> local_step t p0 R W w u l w' u'} \<subseteq>
      {Idle, Run p0 Transaction_new []}"
    by (auto elim!: local_stepE)
  show "(\<exists>l w' u'. local_step t p0 (\<lambda>_. True) (\<lambda>_. True) w u l w' u') \<or> u = Idle \<or>
      (\<exists>m. u = Crashed m) \<or> (\<exists>c reads. u = Parking c reads \<and> \<not> tokens w t)" for w u
  proof (cases "next_step t p0 w u")
    case None
    then show ?thesis by (simp add: next_step_None)
  next
    case (Some r)
    obtain l w' u' where "r = (l, w', u')" by (cases r)
    with Some next_step_sound [of t p0 w u l w' u' "\<lambda>_. True" "\<lambda>_. True"] show ?thesis by blast
  qed
qed

end
