(* ===== verification/Alone.thy ===== *)
theory Alone
  imports Termination Progress Deadlock
begin

text \<open>
  The steps of one thread while the others do nothing. If no other thread holds or wants a lock, it can go
  on until it has returned to its caller or is parked in \<^verbatim>\<open>retry\<close>: the running attempt may have been
  spoilt by commits of the past, the next one can not be.
\<close>

primrec never_fails :: "prog \<Rightarrow> bool" where
  "never_fails (Done r) = (r \<noteq> Inl Failure)"
| "never_fails (ReadVar v k) = (\<forall>x. never_fails (k x))"
| "never_fails (WriteVar v x p) = never_fails p"
| "never_fails (OrElse p q k) = (never_fails p \<and> never_fails q \<and> (\<forall>x. never_fails (k x)))"

fun frame_fails_not :: "frame \<Rightarrow> bool" where
  "frame_fails_not (First c p q k) = (never_fails p \<and> never_fails q \<and> (\<forall>x. never_fails (k x)))"
| "frame_fails_not (Second f k) = (\<forall>x. never_fails (k x))"

definition todo_current :: "world \<Rightarrow> (vcb_ref \<times> LogVar) list \<Rightarrow> bool" where
  "todo_current w todo \<longleftrightarrow>
     (\<forall>(x, e) \<in> set todo. \<forall>a. into_read_value e = Some a \<longrightarrow> value_arc w x = a)"

text \<open>An attempt in which everything read so far is current, and which nothing can spoil but others.\<close>

fun unspoilt :: "world \<Rightarrow> pc \<Rightarrow> bool" where
  "unspoilt w (Run p tx fs) =
     (never_fails p \<and> (\<forall>f \<in> set fs. frame_fails_not f) \<and> up_to_date w (Run p tx fs))"
| "unspoilt w (Register c todo reads) = (blocked (cbs w c) \<and> todo_current w todo)"
| "unspoilt w (Compare c x a todo reads) =
     (blocked (cbs w c) \<and> value_arc w x = a \<and> todo_current w todo)"
| "unspoilt w (Asleep c reads) = blocked (cbs w c)"
| "unspoilt w (Parking c reads) = blocked (cbs w c)"
| "unspoilt w (Dying c xs) = False"
| "unspoilt w (Cleaning c x xs) = False"
| "unspoilt w u = up_to_date w u"

lemma unspoilt_up_to_date: "unspoilt w u \<Longrightarrow> up_to_date w u"
  by (cases u) auto

lemma unspoilt_goes_on: "unspoilt w u \<Longrightarrow> \<not> ends_attempt u"
  by (cases u rule: ends_attempt.cases) auto

lemma unspoilt_start: "never_fails p \<Longrightarrow> unspoilt w (Run p Transaction_new [])"
  by (simp add: log_current_new)

lemma step_unspoilt:
  assumes step: "local_step t p0 R W w u l w' u'" and ok: "thread_ok \<Gamma> L w p0 u"
    and un: "unspoilt w u"
  shows "unspoilt w' u'"
proof -
  have up: "up_to_date w' u'" by (rule step_up_to_date [OF step ok unspoilt_up_to_date [OF un]])
  from step show ?thesis
  proof (cases rule: local_step.cases)
    case (wait_begin c tx)
    have "btm_ok (vars tx)" using ok wait_begin log_okD(1) by auto
    then have "todo_current w (btm_iter (vars tx))"
      using un wait_begin by (auto simp: todo_current_def log_current_def btm.iter_mem)
    moreover have "c = next_cb w" "cbs w' = (cbs w)(next_cb w := ControlBlock_new t)"
      "vcbs w' = vcbs w"
      using cb_alloc_simps [of t w] by (simp_all add: wait_begin(4))
    ultimately show ?thesis
      by (simp add: wait_begin(3) todo_current_def ControlBlock_new_def)
  qed (use un up in \<open>auto simp: todo_current_def\<close>)
qed

lemma attempt_restarts:
  "local_step t p0 R W w u l w' u' \<Longrightarrow> ends_attempt u \<Longrightarrow> u' \<in> {Idle, Run p0 Transaction_new []}"
  by (auto elim!: local_stepE)

subsection \<open>One thread of the system\<close>

definition alone_step :: "grant \<Rightarrow> grant \<Rightarrow> tid \<Rightarrow> sys \<Rightarrow> sys \<Rightarrow> bool" where
  "alone_step may_read may_write t s s' \<longleftrightarrow>
     (\<exists>l w' u'. local_step t (closure (thr s t))
        (\<lambda>x. may_read (view_lock s x) t) (\<lambda>x. may_write (view_lock s x) t)
        (shared s) (pc_of s t) l w' u' \<and>
      s' = s\<lparr>shared := w', thr := (thr s)(t := (thr s t)\<lparr>pc := u'\<rparr>)\<rparr>)"

definition others_quiet :: "tid \<Rightarrow> sys \<Rightarrow> bool" where
  "others_quiet t s \<longleftrightarrow> (\<forall>u x. u \<noteq> t \<longrightarrow> \<not> requests (pc_of s u) x \<and>
     x \<notin> set (held_reads (pc_of s u)) \<union> set (held_writes (pc_of s u)))"

lemma can_alone: "can_step may_read may_write s t \<longleftrightarrow> (\<exists>s'. alone_step may_read may_write t s s')"
  unfolding can_step_def alone_step_def by blast

lemma alone_mstep:
  "alone_step may_read may_write t s s' \<Longrightarrow> \<exists>l. mstep may_read may_write \<Gamma> L s l s'"
  unfolding alone_step_def by (auto intro: m_local)

lemma alone_others:
  "alone_step may_read may_write t s s' \<Longrightarrow>
    closure (thr s' u) = closure (thr s u) \<and> (u \<noteq> t \<longrightarrow> pc_of s' u = pc_of s u)"
  unfolding alone_step_def by auto

lemma alone_quiet: "alone_step may_read may_write t s s' \<Longrightarrow> others_quiet t s \<Longrightarrow> others_quiet t s'"
  using alone_others [of may_read may_write t s s'] by (simp add: others_quiet_def)

lemma alone_local:
  assumes "alone_step may_read may_write t s s'"
  obtains R W l where
    "local_step t (closure (thr s t)) R W (shared s) (pc_of s t) l (shared s') (pc_of s' t)"
  using assms unfolding alone_step_def by auto

text \<open>No infinite descent from an accessible point.\<close>

lemma accp_no_chain:
  assumes "Wellfounded.accp r s" shows "\<not> (ss 0 = s \<and> (\<forall>i. r (ss (Suc i)) (ss i)))"
  using assms
proof (induction s arbitrary: ss rule: accp.induct)
  case (accI s)
  have "r (ss 1) s \<and> (\<forall>i. r (ss (Suc (Suc i))) (ss (Suc i)))"
    if "ss 0 = s" "\<forall>i. r (ss (Suc i)) (ss i)" using that by auto
  with accI.IH [of "ss 1" "\<lambda>i. ss (Suc i)"] show ?case by auto
qed

context rwlock
begin

abbreviation finishes :: "tid \<Rightarrow> sys \<Rightarrow> bool" where
  "finishes t \<equiv> Wellfounded.accp (\<lambda>s' s. alone_step may_read may_write t s s')"

lemma alone_ok: "alone_step may_read may_write t s s' \<Longrightarrow> sys_ok \<Gamma> L s \<Longrightarrow> sys_ok \<Gamma> L s'"
  using alone_mstep sys_ok_step by blast

end

text \<open>A thread that has returned, or is parked and has no token, waits for others to do something.\<close>

definition stopped :: "sys \<Rightarrow> tid \<Rightarrow> bool" where
  "stopped s t \<longleftrightarrow>
     pc_of s t = Idle \<or> (\<exists>c reads. pc_of s t = Parking c reads \<and> \<not> tokens (shared s) t)"

lemma resting_stopped: "resting s t \<Longrightarrow> stopped s t"
  by (auto simp: resting_def stopped_def)

lemma stopped_cannot_step: "stopped s t \<Longrightarrow> \<not> can_step may_read may_write s t"
  by (auto simp: stopped_def can_step_def elim: local_step.cases)

context rwlock_live
begin

lemma alone_can_step:
  assumes ok: "sys_ok \<Gamma> L s" and quiet: "others_quiet t s" and busy: "\<not> stopped s t"
  shows "can_step may_read may_write s t"
proof -
  note th = sys_okD(4) [OF ok, of t]
  have only: "u = t" if "requests (pc_of s u) x" for u x
    using quiet that unfolding others_quiet_def by blast
  have unheld: "x \<notin> set (held_reads (pc_of s u)) \<union> set (held_writes (pc_of s u))"
    if "requests (pc_of s t) x" for u x
    using quiet request_above_held [OF th _ that, of x] unfolding others_quiet_def
    by (cases "u = t") auto
  have free: "readers (view_lock s x) = {} \<and> writers (view_lock s x) = {}"
    if "requests (pc_of s t) x" for x
    using unheld [OF that] by (simp add: view_lock_def)
  have want: "want_read (view_lock s x) = {u. u = t \<and> read_request (pc_of s t) = Some x}"
    "want_write (view_lock s x) = {u. u = t \<and> write_request (pc_of s t) = Some x}" for x
    using only [of _ x] unfolding requests_def by (auto simp: view_lock_def)
  show ?thesis
  proof (rule can_stepI)
    have "\<forall>m. pc_of s t \<noteq> Crashed m" using th by auto
    with busy show "next_step t (closure (thr s t)) (shared s) (pc_of s t) \<noteq> None"
      unfolding next_step_None stopped_def by blast
    show "may_read (view_lock s x) t" if r: "read_request (pc_of s t) = Some x" for x
      using free_lock_granted [of "view_lock s x"] free [of x] want [of x] r one_request [OF r]
      by (auto simp: requests_def)
    show "may_write (view_lock s x) t" if r: "write_request (pc_of s t) = Some x" for x
      using free_lock_granted [of "view_lock s x"] free [of x] want [of x] r
        one_request [of "pc_of s t" x] by (auto simp: requests_def)
  qed
qed

lemma alone_reaches:
  assumes "(alone_step may_read may_write t)\<^sup>*\<^sup>* s s'" and "sys_ok \<Gamma> L s" and "others_quiet t s"
  shows "sys_ok \<Gamma> L s' \<and> others_quiet t s'"
  using assms by induction (auto intro: alone_ok alone_quiet)

lemma alone_rests:
  "finishes t s \<Longrightarrow> sys_ok \<Gamma> L s \<Longrightarrow> others_quiet t s \<Longrightarrow>
    \<exists>s'. (alone_step may_read may_write t)\<^sup>*\<^sup>* s s' \<and> stopped s' t"
proof (induction s rule: accp.induct)
  case (accI s)
  show ?case
  proof (cases "stopped s t")
    case False
    from alone_can_step [OF accI.prems False] obtain s1 where a: "alone_step may_read may_write t s s1"
      unfolding can_alone by blast
    from accI.IH [OF a alone_ok [OF a accI.prems(1)] alone_quiet [OF a accI.prems(2)]] a show ?thesis
      by (meson converse_rtranclp_into_rtranclp)
  qed blast
qed

end

text \<open>
  Thread 2 has read a variable that thread 1 has then changed; its commit has failed, and thread 1
  has returned.
\<close>

lemma spoilt_run:
  "map_option (\<lambda>(ls, s). (unlocking (pc_of s 2), is_idle (pc_of s 1)))
     (run_schedule [1, 2] (both_started @ one_overtakes) demo_sys) =
   Some (Some ([], [VCB 16], []), True)"
  by code_simp

lemma both_closures:
  assumes "run_schedule [1, 2] (both_started @ evs) demo_sys = Some (ls, s)"
    and "\<And>t p. Start t p \<notin> set evs" and "t \<in> {1, 2}"
  shows "closure (thr s t) = incr_prog"
proof -
  from assms(1) obtain ls1 s1 ls2 where "run_schedule [1, 2] both_started demo_sys = Some (ls1, s1)"
    and 2: "run_schedule [1, 2] evs s1 = Some (ls2, s)"
    unfolding run_schedule_append [of "[1, 2]" both_started] by (auto split: option.splits)
  then have "closure (thr s1 1) = incr_prog \<and> closure (thr s1 2) = incr_prog"
    by (auto simp: both_started_def split: option.splits pc.splits may_panic.splits if_splits)
  with schedule_closure [OF 2, of t] assms(2,3) show ?thesis by auto
qed

lemma incr_never_fails: "never_fails incr_prog"
  by (simp add: incr_prog_def)

end
