(* ===== verification/Livelock.thy ===== *)
theory Livelock
  imports Alone "HOL-Library.Multiset"
begin

text \<open>
  Concurrent runs come to rest. As long as no thread starts anything new, finitely many threads
  can not keep each other busy for ever: there are only as many commits as running transactions,
  between two commits the committed ones have only finitely many stores and wake-ups left, and
  between two of these every other thread comes to an end as if it were alone. The measure is
  therefore lexicographic: the number of transactions that have not committed, the
  multiset of the positions of the threads past their commit, and the multiset of the positions of
  the others, each with the bits whether its attempt has been spoilt and whether it has a \<^verbatim>\<open>park\<close> token.
\<close>

subsection \<open>The order\<close>

fun before_commit :: "pc \<Rightarrow> bool" where
  "before_commit (Run p tx fs) = True"
| "before_commit (Locking dn todo rs ws wr v) = True"
| "before_commit (Unlocking lk gs rs) = True"
| "before_commit (Register c todo reads) = True"
| "before_commit (Compare c x a todo reads) = True"
| "before_commit (Asleep c reads) = True"
| "before_commit (Parking c reads) = True"
| "before_commit (Dying c xs) = True"
| "before_commit (Cleaning c x xs) = True"
| "before_commit u = False"

type_synonym place = "tid \<times> prog \<times> bool \<times> bool \<times> pc"

definition place_order :: "(place \<times> place) set" where
  "place_order = same_fst (\<lambda>_. True) (\<lambda>t. same_fst (\<lambda>_. True) (\<lambda>p.
     {(False, True)} <*lex*> {(False, True)} <*lex*> {(u', u). attempt_step t p u u'}))"

lemma wf_place_order: "wf place_order"
  unfolding place_order_def
proof (intro wf_same_fst wf_lex_prod)
  show "wf {(False, True)}" and "wf {(False, True)}" by (simp_all add: wf_insert)
  show "wf {(u', u). attempt_step t p u u'}" for t p
    using accp_wfpI [of "\<lambda>u' u. attempt_step t p u u'"] every_pc_ends by (simp add: wfp_def)
qed

lemma place_order_iff [simp]:
  "((t, p, b', k', u'), (t, p, b, k, u)) \<in> place_order \<longleftrightarrow>
     (\<not> b' \<and> b) \<or> b' = b \<and> ((\<not> k' \<and> k) \<or> k' = k \<and> attempt_step t p u u')"
  by (auto simp: place_order_def same_fst_def)

text \<open>Elements that get smaller or stay, one of them smaller, make a smaller multiset.\<close>

lemma mult_pointwise:
  assumes T: "finite T" and le: "\<And>t. t \<in> T \<Longrightarrow> (g t, f t) \<in> r \<or> g t = f t"
    and less: "t \<in> T" "(g t, f t) \<in> r"
  shows "(image_mset g (mset_set T), image_mset f (mset_set T)) \<in> mult r"
proof -
  define S where "S = {u \<in> T. (g u, f u) \<in> r}"
  have S: "finite S" "S \<subseteq> T" "t \<in> S" using T less by (auto simp: S_def)
  have split: "mset_set T = mset_set (T - S) + mset_set S"
    using S T mset_set_Union [of "T - S" S] by (simp add: Un_absorb2 Int_commute Diff_disjoint)
  have same: "image_mset g (mset_set (T - S)) = image_mset f (mset_set (T - S))"
    by (rule image_mset_cong) (use le T in \<open>auto simp: S_def\<close>)
  show ?thesis
    unfolding split image_mset_union same
  proof (rule one_step_implies_mult)
    show "image_mset f (mset_set S) \<noteq> {#}" using S by (auto simp: mset_set_empty_iff)
    show "\<forall>k \<in> set_mset (image_mset g (mset_set S)). \<exists>j \<in> set_mset (image_mset f (mset_set S)). (k, j) \<in> r"
      using S by (auto simp: S_def)
  qed
qed

subsection \<open>The measure\<close>

definition busy :: "sys \<Rightarrow> tid set" where
  "busy s = {t. before_commit (pc_of s t)}"

definition late_place :: "sys \<Rightarrow> tid \<Rightarrow> place" where
  "late_place s t =
     (t, closure (thr s t), False, False, if before_commit (pc_of s t) then Idle else pc_of s t)"

definition early_place :: "sys \<Rightarrow> tid \<Rightarrow> place" where
  "early_place s t =
     (t, closure (thr s t), before_commit (pc_of s t) \<and> \<not> unspoilt (shared s) (pc_of s t),
      before_commit (pc_of s t) \<and> tokens (shared s) t,
      if before_commit (pc_of s t) then pc_of s t else Idle)"

definition activity :: "tid set \<Rightarrow> sys \<Rightarrow> nat \<times> place multiset \<times> place multiset" where
  "activity T s =
     (card (busy s \<inter> T), image_mset (late_place s) (mset_set T), image_mset (early_place s) (mset_set T))"

abbreviation activity_order ::
    "((nat \<times> place multiset \<times> place multiset) \<times> (nat \<times> place multiset \<times> place multiset)) set" where
  "activity_order \<equiv> less_than <*lex*> mult place_order <*lex*> mult place_order"

lemma wf_activity: "wf activity_order"
  by (intro wf_lex_prod wf_less_than wf_mult wf_place_order)

subsection \<open>The steps of one thread\<close>

lemma late_goes_on: "\<not> before_commit u \<Longrightarrow> \<not> ends_attempt u \<and> \<not> in_park u"
  by (cases u rule: ends_attempt.cases) auto

lemma late_stays: "local_step t p0 R W w u l w' u' \<Longrightarrow> \<not> before_commit u \<Longrightarrow> \<not> before_commit u'"
  by (auto elim!: local_stepE)

text \<open>Before its commit a thread installs nothing and clears no flag.\<close>

lemma early_installs_nothing:
  assumes "local_step t p0 R W w u l w' u'" and "before_commit u"
  shows "value_arc w' x = value_arc w x"
proof (rule ccontr)
  assume "value_arc w' x \<noteq> value_arc w x"
  from step_installs [OF assms(1) this] assms(2) obtain y where "l = Writes x y" by auto
  with assms show False by (auto elim: local_stepE)
qed

lemma early_wakes_nobody:
  assumes "local_step t p0 R W w u l w' u'" and "before_commit u" and "blocked (cbs w c)"
  shows "blocked (cbs w' c)"
  using assms
  by (cases rule: local_step.cases)
    (auto dest!: read_world write_world cb_alloc_world simp: ControlBlock_new_def)

text \<open>It unparks nobody, and it takes its own token when it returns from \<^verbatim>\<open>park\<close>, and only then.\<close>

lemma early_tokens:
  assumes "local_step t p0 R W w u l w' u'" and "before_commit u"
  shows "tokens w' = (if in_park u then (tokens w)(t := False) else tokens w)"
    and "in_park u \<Longrightarrow> tokens w t \<and> cbs w' = cbs w \<and> (\<exists>c reads. u = Parking c reads \<and> u' = Asleep c reads)"
  using assms
  by (cases rule: local_step.cases; auto dest!: read_world write_world cb_alloc_world)+

lemma unspoilt_stable:
  assumes "unspoilt w u" and "\<And>x. value_arc w' x = value_arc w x"
    and "\<And>c. blocked (cbs w c) \<Longrightarrow> blocked (cbs w' c)"
  shows "unspoilt w' u"
  using assms up_to_date_stable [of w u w'] by (cases u) (auto simp: todo_current_def)

subsection \<open>Every step makes the measure smaller\<close>

definition quiet_beyond :: "tid set \<Rightarrow> sys \<Rightarrow> bool" where
  "quiet_beyond T s \<longleftrightarrow> (\<forall>t. t \<notin> T \<longrightarrow> pc_of s t = Idle)"

definition nobody_fails :: "sys \<Rightarrow> bool" where
  "nobody_fails s \<longleftrightarrow> (\<forall>t. before_commit (pc_of s t) \<longrightarrow> never_fails (closure (thr s t)))"

lemma early_step:
  assumes st: "local_step t p R W w u l w' u'" and ok: "thread_ok \<Gamma> L w p u"
    and p: "never_fails p" and u: "before_commit u" "before_commit u'"
  shows "((t, p, \<not> unspoilt w' u', tokens w' t, u'), (t, p, \<not> unspoilt w u, tokens w t, u)) \<in> place_order"
proof (cases "in_park u")
  case True
  with early_tokens [OF st u(1)] show ?thesis by auto
next
  case park: False
  note tok = early_tokens(1) [OF st u(1)]
  show ?thesis
  proof (cases "ends_attempt u")
    case True
    with attempt_restarts [OF st this] u unspoilt_start [OF p, of w'] unspoilt_goes_on [of w u]
    show ?thesis by auto
  next
    case False
    with st park have "attempt_step t p u u'" unfolding attempt_step_def by blast
    with step_unspoilt [OF st ok] tok park show ?thesis by auto
  qed
qed

context rwlock
begin

lemma activity_decreases:
  assumes a: "alone_step may_read may_write t s s'" and ok: "sys_ok \<Gamma> L s" and T: "finite T"
    and t: "t \<in> T" and n: "before_commit (pc_of s t) \<Longrightarrow> never_fails (closure (thr s t))"
  shows "(activity T s', activity T s) \<in> activity_order"
proof -
  from a obtain R W l where
    st: "local_step t (closure (thr s t)) R W (shared s) (pc_of s t) l (shared s') (pc_of s' t)"
    by (rule alone_local)
  note others = alone_others [OF a]
  note th = sys_okD(4) [OF ok, of t]
  consider (early) "before_commit (pc_of s t)" "before_commit (pc_of s' t)"
    | (commits) "before_commit (pc_of s t)" "\<not> before_commit (pc_of s' t)"
    | (late) "\<not> before_commit (pc_of s t)" "\<not> before_commit (pc_of s' t)"
    using late_stays [OF st] by blast
  then show ?thesis
  proof cases
    case early
    have "busy s' = busy s" using others early by (auto simp: busy_def) metis+
    moreover have "late_place s' = late_place s"
      using others early by (auto simp: late_place_def fun_eq_iff) metis+
    moreover have "(image_mset (early_place s') (mset_set T), image_mset (early_place s) (mset_set T))
        \<in> mult place_order"
    proof (rule mult_pointwise [where t = t, OF T _ t])
      show "(early_place s' t, early_place s t) \<in> place_order"
        using early_step [OF st th _ early] n early others [of t]
        by (simp add: early_place_def)
      show "(early_place s' u, early_place s u) \<in> place_order \<or> early_place s' u = early_place s u" for u
      proof (cases "u = t")
        case False
        have "unspoilt (shared s) (pc_of s u) \<Longrightarrow> unspoilt (shared s') (pc_of s u)"
          by (rule unspoilt_stable [OF _ early_installs_nothing [OF st early(1)]
                early_wakes_nobody [OF st early(1)]])
        moreover have "tokens (shared s') u = tokens (shared s) u"
          using early_tokens(1) [OF st early(1)] False by simp
        ultimately show ?thesis using False others [of u] by (auto simp: early_place_def)
      qed (use \<open>(early_place s' t, early_place s t) \<in> place_order\<close> in simp)
    qed
    ultimately show ?thesis by (simp add: activity_def)
  next
    case commits
    have "busy s' \<inter> T \<subset> busy s \<inter> T" using others commits t by (auto simp: busy_def) metis+
    then have "card (busy s' \<inter> T) < card (busy s \<inter> T)" using T by (intro psubset_card_mono) auto
    then show ?thesis by (simp add: activity_def)
  next
    case late
    have "busy s' = busy s" using others late by (auto simp: busy_def) metis+
    moreover have "attempt_step t (closure (thr s t)) (pc_of s t) (pc_of s' t)"
      using st late_goes_on [OF late(1)] unfolding attempt_step_def by blast
    then have less: "(late_place s' t, late_place s t) \<in> place_order"
      using others [of t] late by (simp add: late_place_def)
    have "(image_mset (late_place s') (mset_set T), image_mset (late_place s) (mset_set T))
        \<in> mult place_order"
    proof (rule mult_pointwise [where t = t, OF T _ t])
      show "(late_place s' u, late_place s u) \<in> place_order \<or> late_place s' u = late_place s u" for u
        using less others [of u] by (cases "u = t") (simp_all add: late_place_def)
    qed (rule less)
    ultimately show ?thesis by (simp add: activity_def)
  qed
qed

text \<open>A panic removes a transaction.\<close>

lemma unwinding_decreases:
  assumes "pc_of s t = Run p tx fs" and "finite T" and "t \<in> T"
    and "s' = s\<lparr>shared := w', thr := (thr s)(t := (thr s t)\<lparr>pc := Idle\<rparr>)\<rparr>"
  shows "(activity T s', activity T s) \<in> activity_order"
proof -
  have "pc_of s' u = (if u = t then Idle else pc_of s u)" for u unfolding assms(4) by simp
  then have "busy s' = busy s - {t}" by (auto simp: busy_def)
  moreover have "t \<in> busy s" using assms(1) by (simp add: busy_def)
  ultimately have "busy s' \<inter> T \<subset> busy s \<inter> T" using assms(3) by blast
  then have "card (busy s' \<inter> T) < card (busy s \<inter> T)" using assms(2) by (intro psubset_card_mono) auto
  then show ?thesis by (simp add: activity_def)
qed

end

subsection \<open>Runs in which nobody starts anything\<close>

text \<open>A step in which nobody starts anything, and nobody returns from \<^verbatim>\<open>park\<close> without taking a token.\<close>

definition work_step ::
    "grant \<Rightarrow> grant \<Rightarrow> tyenv \<Rightarrow> vcb_ref set \<Rightarrow> sys \<Rightarrow> sys \<Rightarrow> bool" where
  "work_step may_read may_write \<Gamma> L s s' \<longleftrightarrow>
     (\<exists>l. mstep may_read may_write \<Gamma> L s l s') \<and> (\<forall>t. pc_of s t = Idle \<longrightarrow> pc_of s' t = Idle) \<and>
     (\<forall>t. in_park (pc_of s t) \<longrightarrow>
        pc_of s' t = pc_of s t \<or> tokens (shared s) t \<and> \<not> tokens (shared s') t)"

text \<open>
  A step in which nobody starts anything, and one in which \<^verbatim>\<open>park\<close> returns for no reason: its thread
  leaves \<^verbatim>\<open>park\<close> without taking a token. The \<open>work_step\<close>s are the former without the latter.
\<close>

definition calm_step ::
    "grant \<Rightarrow> grant \<Rightarrow> tyenv \<Rightarrow> vcb_ref set \<Rightarrow> sys \<Rightarrow> sys \<Rightarrow> bool" where
  "calm_step may_read may_write \<Gamma> L s s' \<longleftrightarrow>
     (\<exists>l. mstep may_read may_write \<Gamma> L s l s') \<and> (\<forall>t. pc_of s t = Idle \<longrightarrow> pc_of s' t = Idle)"

definition spurious_return :: "sys \<Rightarrow> sys \<Rightarrow> bool" where
  "spurious_return s s' \<longleftrightarrow>
     (\<exists>t. in_park (pc_of s t) \<and> pc_of s' t \<noteq> pc_of s t \<and> \<not> (tokens (shared s) t \<and> \<not> tokens (shared s') t))"

lemma work_step_iff:
  "work_step may_read may_write \<Gamma> L s s' \<longleftrightarrow>
     calm_step may_read may_write \<Gamma> L s s' \<and> \<not> spurious_return s s'"
  by (auto simp: work_step_def calm_step_def spurious_return_def)

text \<open>What stays true while nobody starts anything.\<close>

definition working :: "tyenv \<Rightarrow> vcb_ref set \<Rightarrow> tid set \<Rightarrow> sys \<Rightarrow> bool" where
  "working \<Gamma> L T s \<longleftrightarrow> sys_ok \<Gamma> L s \<and> handles_ok s \<and> quiet_beyond T s \<and> nobody_fails s"

lemma work_cases:
  assumes "work_step may_read may_write \<Gamma> L s s'"
  obtains (local) t where "alone_step may_read may_write t s s'"
    | (unwind) t p tx fs where "pc_of s t = Run p tx fs"
      "s' = s\<lparr>shared := TransactionGuard_drop t (shared s), thr := (thr s)(t := (thr s t)\<lparr>pc := Idle\<rparr>)\<rparr>"
proof -
  from assms obtain l where "mstep may_read may_write \<Gamma> L s l s'"
    and idle: "pc_of s t = Idle \<Longrightarrow> pc_of s' t = Idle"
    and park: "in_park (pc_of s t) \<Longrightarrow>
      pc_of s' t = pc_of s t \<or> tokens (shared s) t \<and> \<not> tokens (shared s') t" for t
    unfolding work_step_def by blast
  from this(1) show thesis
  proof cases
    case (m_local t w' u')
    then show ?thesis by (intro local) (auto simp: alone_step_def)
  next
    case (m_start t p w')
    with idle [of t] show ?thesis by simp
  next
    case (m_write t v y)
    with idle [of t] show ?thesis by simp
  next
    case (m_panic t p tx fs)
    then show ?thesis by (intro unwind)
  next
    case (m_spurious t c reads)
    with park [of t] show ?thesis by simp
  qed
qed

context rwlock
begin

lemma work_decreases:
  assumes "work_step may_read may_write \<Gamma> L s s'" and "working \<Gamma> L T s" and "finite T"
  shows "(activity T s', activity T s) \<in> activity_order"
  using assms(1)
proof (cases rule: work_cases)
  case (local t)
  then have "pc_of s t \<noteq> Idle" by (auto elim!: alone_local local_stepE)
  with assms(2) have "t \<in> T" by (auto simp: working_def quiet_beyond_def)
  with activity_decreases [OF local _ assms(3)] assms(2) show ?thesis
    unfolding working_def nobody_fails_def by blast
next
  case (unwind t p tx fs)
  with assms(2) have "t \<in> T" by (auto simp: working_def quiet_beyond_def)
  with unwinding_decreases [OF unwind(1) assms(3) _ unwind(2)] show ?thesis by blast
qed

lemma work_working:
  assumes "work_step may_read may_write \<Gamma> L s s'" and "working \<Gamma> L T s"
  shows "working \<Gamma> L T s'"
proof -
  have "sys_ok \<Gamma> L s'" and "handles_ok s'" and "quiet_beyond T s'"
    using assms sys_ok_step handles_ok_step by (auto simp: working_def work_step_def quiet_beyond_def)
  moreover from assms(1) have "nobody_fails s'"
  proof (cases rule: work_cases)
    case (local t)
    then obtain R W l where
      "local_step t (closure (thr s t)) R W (shared s) (pc_of s t) l (shared s') (pc_of s' t)"
      by (rule alone_local)
    from late_stays [OF this] have "before_commit (pc_of s' u) \<Longrightarrow> before_commit (pc_of s u)" for u
      using alone_others [OF local, of u] by (cases "u = t") auto
    with assms(2) alone_others [OF local] show ?thesis by (auto simp: working_def nobody_fails_def)
  next
    case (unwind t p tx fs)
    with assms(2) show ?thesis by (auto simp: working_def nobody_fails_def)
  qed
  ultimately show ?thesis unfolding working_def by blast
qed

lemma calm_working:
  assumes "calm_step may_read may_write \<Gamma> L s s'" and "working \<Gamma> L T s"
  shows "working \<Gamma> L T s'"
proof (cases "spurious_return s s'")
  case False
  with assms work_working show ?thesis by (simp add: work_step_iff)
next
  case True
  from assms(1) obtain l where m: "mstep may_read may_write \<Gamma> L s l s'"
    and idle: "\<And>t. pc_of s t = Idle \<Longrightarrow> pc_of s' t = Idle"
    unfolding calm_step_def by blast
  have "sys_ok \<Gamma> L s'" and "handles_ok s'" and "quiet_beyond T s'"
    using assms(2) sys_ok_step [OF m] handles_ok_step [OF m] idle
    by (auto simp: working_def quiet_beyond_def)
  moreover from m have "nobody_fails s'"
  proof cases
    case (m_local t w' u')
    from True obtain u where u: "in_park (pc_of s u)" "pc_of s' u \<noteq> pc_of s u"
      and tok: "\<not> (tokens (shared s) u \<and> \<not> tokens (shared s') u)"
      unfolding spurious_return_def by blast
    with m_local(1) have "u = t" by (simp split: if_splits)
    moreover from u have "before_commit (pc_of s u)" by (cases "pc_of s u") auto
    ultimately have False using early_tokens [OF m_local(2)] u(1) tok m_local(1) by simp
    then show ?thesis ..
  next
    case (m_start t p w')
    with idle [of t] show ?thesis by simp
  qed (use assms(2) in \<open>auto simp: working_def nobody_fails_def\<close>)
  ultimately show ?thesis unfolding working_def by blast
qed

lemma work_ends:
  assumes "working \<Gamma> L T s" and "finite T"
  shows "Wellfounded.accp (\<lambda>s' s. work_step may_read may_write \<Gamma> L s s') s"
  using wf_inv_image [OF wf_activity, of "activity T"] assms(1)
proof (induction s rule: wf_induct_rule)
  case (less s)
  show ?case
    by (rule accp.accI)
      (use less work_decreases [OF _ less.prems assms(2)] work_working [OF _ less.prems] in \<open>simp add: in_inv_image\<close>)
qed

end

text \<open>
  So an infinite run in which nobody starts anything has spurious returns for ever: after each of
  its steps there is a later one.
\<close>

lemma calm_chain_spurious:
  fixes ss :: "nat \<Rightarrow> sys"
  assumes "rwlock may_read may_write" and "working \<Gamma> L T (ss 0)" and "finite T"
    and steps: "\<And>i. calm_step may_read may_write \<Gamma> L (ss i) (ss (Suc i))"
  shows "\<exists>i \<ge> n. spurious_return (ss i) (ss (Suc i))"
proof (rule ccontr)
  assume "\<not> ?thesis"
  then have "work_step may_read may_write \<Gamma> L (ss (n + i)) (ss (n + Suc i))" for i
    using steps [of "n + i"] by (simp add: work_step_iff)
  moreover have "working \<Gamma> L T (ss i)" for i
    by (induction i) (use assms(2) rwlock.calm_working [OF assms(1) steps] in auto)
  ultimately show False
    using accp_no_chain [OF rwlock.work_ends [OF assms(1) _ assms(3)], of \<Gamma> L "ss n" "\<lambda>i. ss (n + i)"] by simp
qed

lemma alone_work:
  assumes a: "alone_step may_read may_write t s s'"
  shows "work_step may_read may_write \<Gamma> L s s'"
  unfolding work_step_def
proof (intro conjI allI impI)
  from a obtain R W l where
    st: "local_step t (closure (thr s t)) R W (shared s) (pc_of s t) l (shared s') (pc_of s' t)"
    by (rule alone_local)
  show "\<exists>l. mstep may_read may_write \<Gamma> L s l s'" by (rule alone_mstep [OF a])
  show "pc_of s' u = Idle" if "pc_of s u = Idle" for u
    using that st alone_others [OF a, of u] by (cases "u = t") (auto elim: local_stepE)
  show "pc_of s' u = pc_of s u \<or> tokens (shared s) u \<and> \<not> tokens (shared s') u" if "in_park (pc_of s u)" for u
    using that alone_others [OF a, of u] early_tokens [OF st]
    by (cases "u = t"; cases "pc_of s u") auto
qed

context rwlock_live
begin

lemma work_rests:
  "Wellfounded.accp (\<lambda>s' s. work_step may_read may_write \<Gamma> L s s') s \<Longrightarrow> working \<Gamma> L T s \<Longrightarrow>
    \<exists>s'. (work_step may_read may_write \<Gamma> L)\<^sup>*\<^sup>* s s' \<and> (\<forall>t. resting s' t)"
proof (induction s rule: accp.induct)
  case (accI s)
  show ?case
  proof (cases "\<forall>t. resting s t")
    case False
    from accI.prems have ok: "sys_ok \<Gamma> L s" "handles_ok s" by (simp_all add: working_def)
    from False somebody_can_step [OF ok] obtain t where "can_step may_read may_write s t" by blast
    then obtain s1 where a: "alone_step may_read may_write t s s1" unfolding can_alone by blast
    have w: "work_step may_read may_write \<Gamma> L s s1" by (rule alone_work [OF a])
    from accI.IH [OF w work_working [OF w accI.prems]] w show ?thesis
      by (meson converse_rtranclp_into_rtranclp)
  qed blast
qed

end

subsection \<open>One thread alone\<close>

context rwlock
begin

lemma alone_ends:
  assumes "sys_ok \<Gamma> L s" and "never_fails (closure (thr s t))"
  shows "finishes t s"
  using wf_inv_image [OF wf_activity, of "activity {t}"] assms
proof (induction s rule: wf_induct_rule)
  case (less s)
  show ?case
  proof (rule accp.accI)
    fix s' assume a: "alone_step may_read may_write t s s'"
    have "(s', s) \<in> inv_image activity_order (activity {t})"
      using activity_decreases [OF a less.prems(1), of "{t}"] less.prems(2) by simp
    then show "finishes t s'"
      by (rule less.IH) (use alone_ok [OF a less.prems(1)] alone_others [OF a, of t] less.prems(2) in simp_all)
  qed
qed

end

text \<open>
  Obstruction freedom: from any reachable state in which no other thread holds or wants a
  lock, a transaction whose closure does not fail, left alone, makes only finitely many steps,
  whatever the others have committed before; it can always go on until it has returned to its
  caller or is parked in \<^verbatim>\<open>retry\<close> without a token, and it gets there.
\<close>

theorem transactions_alone_finish:
  assumes "rwlock_live may_read may_write" and "initial \<Gamma> L s0"
    and "mrun may_read may_write \<Gamma> L s0 ls s"
    and "others_quiet t s" and "never_fails (closure (thr s t))"
  shows "\<not> (\<exists>ss. ss 0 = s \<and> (\<forall>i. alone_step may_read may_write t (ss i) (ss (Suc i)))) \<and>
    (\<exists>s'. (alone_step may_read may_write t)\<^sup>*\<^sup>* s s' \<and> stopped s' t) \<and>
    (\<forall>s'. (alone_step may_read may_write t)\<^sup>*\<^sup>* s s' \<longrightarrow>
       stopped s' t \<noteq> (\<exists>s''. alone_step may_read may_write t s' s''))"
proof -
  note live = assms(1)
  have rw: "rwlock may_read may_write" using live by (simp add: rwlock_live_def)
  from rwlock.simulation [OF rw assms(3,2)] have ok: "sys_ok \<Gamma> L s" by blast
  note fin = rwlock.alone_ends [OF rw ok assms(5)]
  have "\<not> (\<exists>ss. ss 0 = s \<and> (\<forall>i. alone_step may_read may_write t (ss i) (ss (Suc i))))"
    using accp_no_chain [OF fin] by blast
  moreover note rwlock_live.alone_rests [OF live fin ok assms(4)]
  moreover have "stopped s' t \<noteq> (\<exists>s''. alone_step may_read may_write t s' s'')"
    if "(alone_step may_read may_write t)\<^sup>*\<^sup>* s s'" for s'
    using rwlock_live.alone_reaches [OF live that ok assms(4)] rwlock_live.alone_can_step [OF live]
      stopped_cannot_step [of s' t may_read may_write] unfolding can_alone by blast
  ultimately show ?thesis by blast
qed

theorem transactions_alone_finish_witness:
  "\<exists>ls s. mrun eager_read writer_first_write demo_types {VCB 16, VCB 64} demo_sys ls s \<and>
    pc_of s 2 = Unlocking [] [VCB 16] [] \<and>
    (\<exists>s'. (alone_step eager_read writer_first_write 2)\<^sup>*\<^sup>* s s' \<and> stopped s' 2)"
proof -
  let ?evs = "both_started @ one_overtakes"
  from spoilt_run obtain ls s where r: "run_schedule [1, 2] ?evs demo_sys = Some (ls, s)"
    and s: "pc_of s 2 = Unlocking [] [VCB 16] []" "pc_of s 1 = Idle"
    by (auto simp: unlocking_iff is_idle_iff)
  have "list_all (event_ok demo_types {VCB 16, VCB 64}) ?evs"
    using incr_ok by (simp add: both_started_def one_overtakes_def gos_def list_all_iff)
  with schedule_mrun [OF r demo_idle]
  have run: "mrun eager_read writer_first_write demo_types {VCB 16, VCB 64} demo_sys ls s"
    and "idle_but [1, 2] s" by blast+
  with s(2) have "pc_of s u = Idle" if "u \<noteq> 2" for u
    using that by (cases "u = 1") (simp_all add: idle_but_def)
  then have "others_quiet 2 s" by (simp add: others_quiet_def requests_def)
  moreover have "never_fails (closure (thr s 2))"
    using both_closures [OF r, of 2] incr_never_fails by (simp add: one_overtakes_def gos_def)
  ultimately show ?thesis
    using transactions_alone_finish [OF eager_lock.rwlock_live_axioms demo_initial run] run s(1) by blast
qed

subsection \<open>All threads\<close>

text \<open>
  C7. The system comes to rest: from any reachable state in which finitely many threads are not
  idle and no running closure fails, there is no infinite run in which nobody starts anything new
  and \<^verbatim>\<open>park\<close> returns only with a token, however the steps interleave and whichever closures panic; and
  the system can always go on to a state in which every thread has returned or is parked in
  \<^verbatim>\<open>retry\<close> with its flag set. \<^verbatim>\<open>park\<close> may also return for no reason, and the loop of \<^verbatim>\<open>wait\<close> then calls it again:
  an infinite run in which nobody starts anything new has infinitely many of these returns. So
  transactions can not keep each other busy for ever.
\<close>

theorem runs_come_to_rest:
  assumes "rwlock_live may_read may_write" and "initial \<Gamma> L s0"
    and "mrun may_read may_write \<Gamma> L s0 ls s"
    and "finite {t. pc_of s t \<noteq> Idle}"
    and "\<And>t. before_commit (pc_of s t) \<Longrightarrow> never_fails (closure (thr s t))"
  shows "\<not> (\<exists>ss. ss 0 = s \<and> (\<forall>i. work_step may_read may_write \<Gamma> L (ss i) (ss (Suc i)))) \<and>
    (\<forall>ss n. ss 0 = s \<and> (\<forall>i. calm_step may_read may_write \<Gamma> L (ss i) (ss (Suc i))) \<longrightarrow>
       (\<exists>i \<ge> n. spurious_return (ss i) (ss (Suc i)))) \<and>
    (\<exists>s'. (work_step may_read may_write \<Gamma> L)\<^sup>*\<^sup>* s s' \<and> (\<forall>t. resting s' t))"
proof -
  have rw: "rwlock may_read may_write" using assms(1) by (simp add: rwlock_live_def)
  from rwlock.simulation [OF rw assms(3,2)] rwlock.handles_ok_run [OF rw assms(3,2)] assms(5)
  have w: "working \<Gamma> L {t. pc_of s t \<noteq> Idle} s"
    by (auto simp: working_def quiet_beyond_def nobody_fails_def)
  note acc = rwlock.work_ends [OF rw w assms(4)]
  have "\<exists>i \<ge> n. spurious_return (ss i) (ss (Suc i))"
    if "ss 0 = s" and "\<And>i. calm_step may_read may_write \<Gamma> L (ss i) (ss (Suc i))" for ss n
    using calm_chain_spurious [where ss = ss, OF rw _ assms(4) that(2)] w that(1) by simp
  moreover have "\<not> (\<exists>ss. ss 0 = s \<and> (\<forall>i. work_step may_read may_write \<Gamma> L (ss i) (ss (Suc i))))"
    using accp_no_chain [OF acc] by blast
  ultimately show ?thesis using rwlock_live.work_rests [OF assms(1) acc w] by blast
qed

text \<open>Two increments under way: thread 1 has the lock that thread 2 wants.\<close>

theorem runs_come_to_rest_witness:
  "\<exists>ls s. mrun eager_read writer_first_write demo_types {VCB 16, VCB 64} demo_sys ls s \<and>
    held_writes (pc_of s 1) = [VCB 16] \<and> write_request (pc_of s 2) = Some (VCB 16) \<and>
    (\<exists>s'. (work_step eager_read writer_first_write demo_types {VCB 16, VCB 64})\<^sup>*\<^sup>* s s' \<and>
       (\<forall>t. resting s' t))"
proof -
  let ?evs = "[Go 1, Go 2, Go 1, Go 2, Go 1, Go 2, Go 1]"
  have evs: "contention_events = both_started @ ?evs"
    by (simp add: contention_events_def both_started_def)
  from contention_run obtain ls s
    where r: "run_schedule [1, 2] contention_events demo_sys = Some (ls, s)"
      and s: "held_writes (pc_of s 1) = [VCB 16]" "write_request (pc_of s 2) = Some (VCB 16)"
    by auto
  have "list_all (event_ok demo_types {VCB 16, VCB 64}) contention_events"
    using incr_ok by (simp add: contention_events_def)
  with schedule_mrun [OF r demo_idle]
  have run: "mrun eager_read writer_first_write demo_types {VCB 16, VCB 64} demo_sys ls s"
    and idle: "idle_but [1, 2] s" by blast+
  have "{t. pc_of s t \<noteq> Idle} \<subseteq> {1, 2}" using idle by (auto simp: idle_but_def)
  then have fin: "finite {t. pc_of s t \<noteq> Idle}" by (rule finite_subset) simp
  have "never_fails (closure (thr s t))" if "before_commit (pc_of s t)" for t
  proof -
    have "t \<in> {1, 2}" using that idle by (auto simp: idle_but_def)
    with both_closures [OF r [unfolded evs]] incr_never_fails show ?thesis by simp
  qed
  from runs_come_to_rest [OF eager_lock.rwlock_live_axioms demo_initial run fin this] run s
  show ?thesis by blast
qed

end
