(* ===== verification/Panics.thy ===== *)
theory Panics
  imports Livelock Anomalies
begin

text \<open>
  The nesting flag and panics in concurrent runs. The thread-local flag is set exactly while its
  thread is inside \<^verbatim>\<open>with_control\<close>, through failed commits, waiting, and panics of the closure; a
  panic leaves nothing behind.
\<close>

subsection \<open>The nesting flag\<close>

definition flags_ok :: "sys \<Rightarrow> bool" where
  "flags_ok s \<longleftrightarrow> (\<forall>t. running (shared s) t \<longleftrightarrow> in_transaction (pc_of s t))"

lemma step_flags:
  assumes "local_step t p0 R W w u l w' u'"
  shows "running w' = running w \<and> in_transaction u' = in_transaction u \<or>
    running w' = (running w)(t := False) \<and> (u' = Idle \<or> (\<exists>m. u' = Crashed m))"
  using assms
proof (cases rule: local_step.cases)
  case (store_one a x ws wr v)
  then show ?thesis by (simp add: write_back_def update_vcb_def)
next
  case (atomic_store v y)
  then show ?thesis by simp
qed (auto dest!: read_world write_world cb_alloc_world simp: update_vcb_def)

context rwlock
begin

lemma flags_ok_step:
  assumes step: "mstep may_read may_write \<Gamma> L s l s'" and ok: "sys_ok \<Gamma> L s" and fl: "flags_ok s"
  shows "flags_ok s'"
  using step
proof cases
  case (m_local t w' u')
  have "thread_ok \<Gamma> L (shared s') (closure (thr s' t)) (pc_of s' t)"
    by (rule sys_okD(4) [OF sys_ok_step [OF step ok]])
  then have "u' \<noteq> Crashed m" for m using m_local(1) by auto
  with step_flags [OF m_local(2)] fl m_local(1) show ?thesis by (auto simp: flags_ok_def)
next
  case (m_start t p w')
  with fl show ?thesis
    by (auto simp: flags_ok_def TransactionGuard_new_def split: if_splits)
qed (use fl in \<open>auto simp: flags_ok_def\<close>)

lemma flags_ok_run:
  assumes "mrun may_read may_write \<Gamma> L s ls s'" and "initial \<Gamma> L s" and "\<And>t. \<not> running (shared s) t"
  shows "flags_ok s'"
  using assms
proof induction
  case (mrun_nil s)
  then show ?case by (simp add: flags_ok_def initial_def)
next
  case (mrun_snoc s ls s' l s'')
  have "sys_ok \<Gamma> L s'" using simulation [OF mrun_snoc.hyps(1) mrun_snoc.prems(1)] by blast
  with mrun_snoc flags_ok_step show ?case by blast
qed

end

text \<open>
  C27. The nesting flag is right at every moment: in any concurrent run from a state with no flag
  set, the flag of a thread is set exactly while the thread is inside a transaction, from
  its start to the return, the abort or the panic, through all failed commits and all waiting; so a
  thread may start a transaction exactly if it is not inside one, and a nested one panics.
\<close>

theorem nesting_flag_tracks_transactions:
  assumes "rwlock may_read may_write" and "initial \<Gamma> L s" and "\<And>t. \<not> running (shared s) t"
    and "mrun may_read may_write \<Gamma> L s ls s'"
  shows "running (shared s') t = in_transaction (pc_of s' t) \<and>
    ((\<exists>w'. TransactionGuard_new t (shared s') = Return w') \<longleftrightarrow> \<not> in_transaction (pc_of s' t))"
  using rwlock.flags_ok_run [OF assms(1,4,2,3)]
  by (auto simp: flags_ok_def TransactionGuard_new_def)

text \<open>Thread 1 has committed and returned, thread 2 is about to run its closure again.\<close>

lemma demo_no_flags: "\<not> running (shared demo_sys) t"
  by (simp add: demo_sys_def demo_not_running)

theorem nesting_flag_tracks_transactions_witness:
  "\<exists>ls s. mrun eager_read writer_first_write demo_types {VCB 16, VCB 64} demo_sys ls s \<and>
    pc_of s 1 = Idle \<and> pc_of s 2 = Unlocking [] [VCB 16] [] \<and>
    \<not> running (shared s) 1 \<and> running (shared s) 2"
proof -
  let ?evs = "both_started @ one_overtakes"
  from spoilt_run obtain ls s where r: "run_schedule [1, 2] ?evs demo_sys = Some (ls, s)"
    and s: "pc_of s 2 = Unlocking [] [VCB 16] []" "pc_of s 1 = Idle"
    by (auto simp: unlocking_iff is_idle_iff)
  have "list_all (event_ok demo_types {VCB 16, VCB 64}) ?evs"
    using incr_ok by (simp add: both_started_def one_overtakes_def gos_def list_all_iff)
  with schedule_mrun [OF r demo_idle]
  have run: "mrun eager_read writer_first_write demo_types {VCB 16, VCB 64} demo_sys ls s" by blast
  note flag = nesting_flag_tracks_transactions
    [OF eager_lock.rwlock_axioms demo_initial demo_no_flags run]
  from flag [of 1] flag [of 2] run s show ?thesis by auto
qed

subsection \<open>Panics\<close>

text \<open>A thread comes into a transaction by starting one, with an empty log.\<close>

lemma enters_by_start:
  assumes step: "mstep may_read may_write \<Gamma> L s l s'"
    and "\<not> in_transaction (pc_of s t)" and "in_transaction (pc_of s' t)"
  shows "thr s' t = \<lparr>closure = closure (thr s' t), pc = Run (closure (thr s' t)) Transaction_new []\<rparr>"
  using step
proof cases
  case (m_local u w' u')
  have "in_transaction u' \<Longrightarrow> in_transaction (pc_of s u)"
    using m_local(2) by (auto elim: local_stepE)
  with m_local(1) assms(2,3) show ?thesis by (auto split: if_splits)
next
  case (m_start u p w')
  with assms(2,3) show ?thesis by (auto split: if_splits)
qed (use assms(2,3) in \<open>auto split: if_splits\<close>)

lemma keeps_closure:
  assumes "mstep may_read may_write \<Gamma> L s l s'" and "in_transaction (pc_of s t)"
  shows "closure (thr s' t) = closure (thr s t)"
  using assms by cases auto

lemma transaction_began:
  assumes "mrun may_read may_write \<Gamma> L s ls s'"
    and "\<not> in_transaction (pc_of s t)" and "in_transaction (pc_of s' t)"
  shows "\<exists>ls1 ls2 s1. ls = ls1 @ ls2 \<and> mrun may_read may_write \<Gamma> L s ls1 s1 \<and>
    mrun may_read may_write \<Gamma> L s1 ls2 s' \<and>
    thr s1 t = \<lparr>closure = closure (thr s' t), pc = Run (closure (thr s' t)) Transaction_new []\<rparr>"
  using assms
proof induction
  case (mrun_nil s)
  then show ?case by simp
next
  case (mrun_snoc s ls s' l s'')
  show ?case
  proof (cases "in_transaction (pc_of s' t)")
    case True
    from mrun_snoc.IH [OF mrun_snoc.prems(1) True] obtain ls1 ls2 s1 where
      1: "ls = ls1 @ ls2" "mrun may_read may_write \<Gamma> L s ls1 s1" and
      2: "mrun may_read may_write \<Gamma> L s1 ls2 s'"
        "thr s1 t = \<lparr>closure = closure (thr s' t), pc = Run (closure (thr s' t)) Transaction_new []\<rparr>"
      by blast
    have "mrun may_read may_write \<Gamma> L s1 (ls2 @ [l]) s''" by (rule mrun.mrun_snoc [OF 2(1) mrun_snoc.hyps(2)])
    with 1 2(2) keeps_closure [OF mrun_snoc.hyps(2) True] show ?thesis
      by (intro exI [of _ ls1] exI [of _ "ls2 @ [l]"] exI [of _ s1]) simp
  next
    case False
    from enters_by_start [OF mrun_snoc.hyps(2) False mrun_snoc.prems(2)]
      mrun.mrun_snoc [OF mrun_snoc.hyps] mrun.mrun_nil [of may_read may_write \<Gamma> L s'']
    show ?thesis by (intro exI [of _ "ls @ [l]"] exI [of _ "[]"] exI [of _ s'']) simp
  qed
qed

lemma committed_in_transaction:
  assumes "mstep may_read may_write \<Gamma> L s (Commits t q v) s'"
  shows "in_transaction (pc_of s t) \<and> in_transaction (pc_of s' t) \<and> closure (thr s' t) = q"
  using assms
proof cases
  case (m_local u w' u')
  then show ?thesis by (auto elim!: local_stepE)
qed

lemma commit_began:
  assumes "mrun may_read may_write \<Gamma> L s ls s'" and "\<not> in_transaction (pc_of s t)"
    and "Commits t q v \<in> set ls"
  shows "\<exists>ls1 ls2 s1. ls = ls1 @ ls2 \<and> mrun may_read may_write \<Gamma> L s ls1 s1 \<and>
    mrun may_read may_write \<Gamma> L s1 ls2 s' \<and> Commits t q v \<in> set ls2 \<and>
    thr s1 t = \<lparr>closure = q, pc = Run q Transaction_new []\<rparr>"
  using assms
proof induction
  case (mrun_nil s)
  then show ?case by simp
next
  case (mrun_snoc s ls s' l s'')
  show ?case
  proof (cases "Commits t q v \<in> set ls")
    case True
    from mrun_snoc.IH [OF mrun_snoc.prems(1) True] obtain ls1 ls2 s1 where
      1: "ls = ls1 @ ls2" "mrun may_read may_write \<Gamma> L s ls1 s1" and
      2: "mrun may_read may_write \<Gamma> L s1 ls2 s'" "Commits t q v \<in> set ls2"
        "thr s1 t = \<lparr>closure = q, pc = Run q Transaction_new []\<rparr>"
      by blast
    have "mrun may_read may_write \<Gamma> L s1 (ls2 @ [l]) s''" by (rule mrun.mrun_snoc [OF 2(1) mrun_snoc.hyps(2)])
    with 1 2(2,3) show ?thesis
      by (intro exI [of _ ls1] exI [of _ "ls2 @ [l]"] exI [of _ s1]) simp
  next
    case False
    with mrun_snoc.prems(2) have l: "l = Commits t q v" by simp
    note c = committed_in_transaction [OF mrun_snoc.hyps(2) [unfolded l]]
    from transaction_began [OF mrun_snoc.hyps(1) mrun_snoc.prems(1)] c
      keeps_closure [OF mrun_snoc.hyps(2), of t]
    obtain ls1 ls2 s1 where 1: "ls = ls1 @ ls2" "mrun may_read may_write \<Gamma> L s ls1 s1"
      "mrun may_read may_write \<Gamma> L s1 ls2 s'" "thr s1 t = \<lparr>closure = q, pc = Run q Transaction_new []\<rparr>"
      by auto
    from mrun.mrun_snoc [OF 1(3) mrun_snoc.hyps(2)] 1 l show ?thesis
      by (intro exI [of _ ls1] exI [of _ "ls2 @ [l]"] exI [of _ s1]) simp
  qed
qed

text \<open>
  C28. A panic in a closure is transaction-safe: wherever in the closure it happens, in any state of
  a concurrent run, the thread holds no guard, every variable keeps its box, its waiting list and
  so its contents, and no other thread is touched; nothing the closure has done is ever committed,
  because whatever the thread commits later it has started anew, with an empty log; and it can start
  any transaction again at once.
\<close>

theorem panics_are_transaction_safe:
  assumes "pc_of s t = Run p tx fs"
  shows "\<exists>s'. mstep may_read may_write \<Gamma> L s Tau s' \<and> pc_of s' t = Idle \<and>
    held_reads (pc_of s t) = [] \<and> held_writes (pc_of s t) = [] \<and>
    vcbs (shared s') = vcbs (shared s) \<and> contents (shared s') = contents (shared s) \<and>
    cbs (shared s') = cbs (shared s) \<and> (\<forall>u. u \<noteq> t \<longrightarrow> thr s' u = thr s u) \<and>
    (\<forall>ls s'' q v. mrun may_read may_write \<Gamma> L s' ls s'' \<longrightarrow> Commits t q v \<in> set ls \<longrightarrow>
       (\<exists>ls1 ls2 s1. ls = ls1 @ ls2 \<and> mrun may_read may_write \<Gamma> L s' ls1 s1 \<and>
          mrun may_read may_write \<Gamma> L s1 ls2 s'' \<and> Commits t q v \<in> set ls2 \<and>
          thr s1 t = \<lparr>closure = q, pc = Run q Transaction_new []\<rparr>)) \<and>
    (\<forall>q. prog_ok \<Gamma> L q \<longrightarrow> (\<exists>s''. mstep may_read may_write \<Gamma> L s' Tau s'' \<and>
       thr s'' t = \<lparr>closure = q, pc = Run q Transaction_new []\<rparr>))"
proof -
  let ?w = "TransactionGuard_drop t (shared s)"
  let ?s = "s\<lparr>shared := ?w, thr := (thr s)(t := (thr s t)\<lparr>pc := Idle\<rparr>)\<rparr>"
  have 1: "mstep may_read may_write \<Gamma> L s Tau ?s" by (rule m_panic) (rule assms)
  have 2: "contents (shared ?s) = contents (shared s)"
    by (simp add: contents_def view_def seen_arc_def fun_eq_iff)
  have 3: "\<exists>s''. mstep may_read may_write \<Gamma> L ?s Tau s'' \<and>
      thr s'' t = \<lparr>closure = q, pc = Run q Transaction_new []\<rparr>" if q: "prog_ok \<Gamma> L q" for q
  proof (intro exI conjI)
    let ?w2 = "?w\<lparr>running := (running ?w)(t := True)\<rparr>"
    let ?s2 = "?s\<lparr>shared := ?w2, thr := (thr ?s)(t := \<lparr>closure = q, pc = Run q Transaction_new []\<rparr>)\<rparr>"
    have "TransactionGuard_new t (shared ?s) = Return ?w2" by (simp add: TransactionGuard_new_def)
    with q show "mstep may_read may_write \<Gamma> L ?s Tau ?s2" by (intro m_start) simp_all
    show "thr ?s2 t = \<lparr>closure = q, pc = Run q Transaction_new []\<rparr>" by simp
  qed
  have out: "\<not> in_transaction (pc_of ?s t)" by simp
  show ?thesis
    by (intro exI [of _ ?s] conjI allI impI 1 2 3 commit_began [OF _ out]) (simp_all add: assms)
qed

text \<open>Thread 1 panics after its read and write, and increments the variable in a second attempt.\<close>

definition panic_events :: "event list" where
  "panic_events = Start 1 incr_prog # gos 1 2"

definition recover_events :: "event list" where
  "recover_events = Unwind 1 # Start 1 incr_prog # gos 1 10"

fun in_closure :: "pc \<Rightarrow> bool" where
  "in_closure (Run p tx fs) = True"
| "in_closure _ = False"

lemma in_closure_iff: "in_closure u \<longleftrightarrow> (\<exists>p tx fs. u = Run p tx fs)"
  by (cases u) auto

lemma panic_run:
  "map_option (\<lambda>(ls, s). in_closure (pc_of s 1)) (run_schedule [1, 2] panic_events demo_sys) = Some True"
  by code_simp

lemma recover_run:
  "map_option (\<lambda>(ls, s). (map committed (visible ls), contents (shared s) (VCB 16), is_idle (pc_of s 1)))
     (run_schedule [1, 2] (panic_events @ recover_events) demo_sys) =
   Some ([Some (1, VInt 42)], VInt 43, True)"
  by code_simp

theorem panics_are_transaction_safe_witness:
  "\<exists>ls (s :: sys) p tx fs s'. mrun eager_read writer_first_write demo_types {VCB 16, VCB 64} demo_sys ls s \<and>
    pc_of s 1 = Run p tx fs \<and>
    mstep eager_read writer_first_write demo_types {VCB 16, VCB 64} s Tau s' \<and> pc_of s' 1 = Idle \<and>
    contents (shared s') = contents (shared s)"
proof -
  let ?mstep = "mstep eager_read writer_first_write demo_types {VCB 16, VCB 64}"
  from panic_run obtain ls s p tx fs where r: "run_schedule [1, 2] panic_events demo_sys = Some (ls, s)"
    and s: "pc_of s 1 = Run p tx fs" by (auto simp: in_closure_iff)
  have "list_all (event_ok demo_types {VCB 16, VCB 64}) panic_events"
    using incr_ok by (simp add: panic_events_def gos_def list_all_iff)
  with schedule_mrun [OF r demo_idle]
  have run: "mrun eager_read writer_first_write demo_types {VCB 16, VCB 64} demo_sys ls s" by blast
  from panics_are_transaction_safe [OF s, of eager_read writer_first_write demo_types "{VCB 16, VCB 64}"]
  obtain s' where "?mstep s Tau s'" "pc_of s' 1 = Idle" "contents (shared s') = contents (shared s)"
    by blast
  with run s show ?thesis by blast
qed

end
