(* ===== verification/Typing.thy ===== *)
theory Typing
  imports Concurrency
begin

text \<open>
  Type safety of concurrent runs. The code stores every value as \<^verbatim>\<open>dyn Any\<close> and casts it back at
  each access; a failed cast is a panic. The marker of a handle is the only type information
  left, so what is proved is that the world, the logs and the values on their way into a
  variable always carry the types the handles promise.
\<close>

lemma read_returns_marker:
  "Transaction_read v (w, tx) = (Return (Inr y), w', tx') \<Longrightarrow> type_id y = marker v"
  by (auto simp: Transaction_read_eq Transaction_downcast_def downcast_ref_def
      split: may_panic.splits option.splits if_splits)

text \<open>
  C17. In every reachable state of a concurrent run, each live variable holds a value of its type,
  an atomic read of any handle returns such a value, a read in a closure finds one and leaves the
  thread with a well-typed log and rest of its closure, and every value a commit is about to store has the type
  of its variable. No cast fails.
\<close>

theorem reachable_states_are_typed:
  assumes "rwlock may_read may_write" and "initial \<Gamma> L s"
    and "mrun may_read may_write \<Gamma> L s ls s'"
  shows "world_ok \<Gamma> (shared s') \<and> set (vcb_live (shared s')) = L \<and>
    (\<forall>v. var_ok \<Gamma> L v \<longrightarrow>
       (\<exists>y. read_atomic v (shared s') = Return y \<and> type_id y = marker v)) \<and>
    (\<forall>t v k tx fs. pc_of s' t = Run (ReadVar v k) tx fs \<longrightarrow>
       (\<exists>y tx'. Transaction_read v (shared s', tx) = (Return (Inr y), shared s', tx') \<and>
          type_id y = marker v \<and> prog_ok \<Gamma> L (k y) \<and> log_ok \<Gamma> L (shared s') (vars tx'))) \<and>
    (\<forall>t a x ws wr v. pc_of s' t = Storing ((a, x) # ws) wr v \<longrightarrow>
       x \<in> L \<and> arc_typed (shared s') (\<Gamma> x) a)"
proof -
  from rwlock.simulation [OF assms(1,3,2)] have ok: "sys_ok \<Gamma> L s'" by blast
  note w = sys_okD(1,2) [OF ok] and thread = sys_okD(4) [OF ok]
  have "\<exists>y. read_atomic v (shared s') = Return y \<and> type_id y = marker v" if "var_ok \<Gamma> L v" for v
  proof -
    have h: "handle_ok \<Gamma> (shared s') v" using that w(2) by (simp add: handle_ok_def var_ok_def)
    with world_okD [OF w(1)] show ?thesis
      by (simp add: read_atomic_typed [OF w(1)] handle_ok_def arc_typed_def)
  qed
  moreover have "\<exists>y tx'. Transaction_read v (shared s', tx) = (Return (Inr y), shared s', tx') \<and>
      type_id y = marker v \<and> prog_ok \<Gamma> L (k y) \<and> log_ok \<Gamma> L (shared s') (vars tx')"
    if "pc_of s' t = Run (ReadVar v k) tx fs" for t v k tx fs
  proof -
    have "run_ok \<Gamma> L (shared s') (closure (thr s' t)) (ReadVar v k) tx fs"
      using thread [of t] that by simp
    from run_read_ok [OF this w] obtain y tx'
      where r: "Transaction_read v (shared s', tx) = (Return (Inr y), shared s', tx')"
        and "run_ok \<Gamma> L (shared s') (closure (thr s' t)) (k y) tx' fs" by blast
    with read_returns_marker [OF r] show ?thesis by auto
  qed
  moreover have "x \<in> L \<and> arc_typed (shared s') (\<Gamma> x) a"
    if "pc_of s' t = Storing ((a, x) # ws) wr v" for t a x ws wr v
    using thread [of t] that by (simp add: writes_ok_def)
  ultimately show ?thesis using w by blast
qed

text \<open>Thread 1 has committed and is about to store; thread 2 is about to read.\<close>

definition store_events :: "event list" where
  "store_events = [Start 1 incr_prog, Start 2 incr_prog] @ gos 1 6"

fun storing :: "pc \<Rightarrow> (arc \<times> vcb_ref) list option" where
  "storing (Storing ws wr v) = Some ws"
| "storing _ = None"

lemma storing_iff: "storing u = Some ws \<longleftrightarrow> (\<exists>wr v. u = Storing ws wr v)"
  by (cases u) auto

fun about_to_read :: "pc \<Rightarrow> TVar option" where
  "about_to_read (Run (ReadVar v k) tx fs) = Some v"
| "about_to_read _ = None"

lemma about_to_read_iff:
  "about_to_read u = Some v \<longleftrightarrow> (\<exists>k tx fs. u = Run (ReadVar v k) tx fs)"
  by (cases u rule: about_to_read.cases) auto

lemma store_run:
  "map_option (\<lambda>(ls, s). (storing (pc_of s 1), about_to_read (pc_of s 2)))
     (run_schedule [1, 2] store_events demo_sys) = Some (Some [(2, VCB 16)], Some demo_x)"
  by code_simp

theorem reachable_states_are_typed_witness:
  "\<exists>ls s. mrun eager_read writer_first_write demo_types {VCB 16, VCB 64} demo_sys ls s \<and>
    (\<exists>y. read_atomic demo_x (shared s) = Return y \<and> type_id y = TyInt) \<and>
    arc_typed (shared s) TyInt 2 \<and>
    (\<exists>k tx fs y tx'. pc_of s 2 = Run (ReadVar demo_x k) tx fs \<and>
      Transaction_read demo_x (shared s, tx) = (Return (Inr y), shared s, tx') \<and> type_id y = TyInt)"
proof -
  from store_run obtain ls s where r: "run_schedule [1, 2] store_events demo_sys = Some (ls, s)"
    and "storing (pc_of s 1) = Some [(2, VCB 16)]" and "about_to_read (pc_of s 2) = Some demo_x"
    by (auto split: option.splits)
  then obtain k tx fs wr v where 1: "pc_of s 1 = Storing [(2, VCB 16)] wr v"
    and 2: "pc_of s 2 = Run (ReadVar demo_x k) tx fs"
    unfolding storing_iff about_to_read_iff by blast
  have v: "var_ok demo_types {VCB 16, VCB 64} demo_x" and m: "marker demo_x = TyInt"
    by (simp_all add: var_ok_def demo_x_def demo_types_def)
  have "list_all (event_ok demo_types {VCB 16, VCB 64}) store_events"
    by (auto simp: store_events_def gos_def incr_prog_def var_ok_def demo_x_def demo_types_def
        list_all_iff)
  with schedule_mrun [OF r demo_idle]
  have run: "mrun eager_read writer_first_write demo_types {VCB 16, VCB 64} demo_sys ls s" by blast
  note typed = reachable_states_are_typed [OF eager_lock.rwlock_axioms demo_initial run]
  have "\<exists>y. read_atomic demo_x (shared s) = Return y \<and> type_id y = TyInt"
    using typed v m by auto
  moreover have "arc_typed (shared s) TyInt 2"
    using typed 1 unfolding demo_types_def by blast
  moreover have "\<exists>y tx'. Transaction_read demo_x (shared s, tx) = (Return (Inr y), shared s, tx') \<and>
      type_id y = TyInt"
    using typed 2 m by metis
  ultimately show ?thesis using run 2 by blast
qed

end
