(* ===== verification/Sleepers.thy ===== *)
theory Sleepers
  imports Wakeup
begin

text \<open>
  What a transaction that sleeps in \<^verbatim>\<open>retry\<close> knows. Its reads determine that its closure retries: the
  reference semantics of the closure retries on every store that agrees with them. Together with
  the absence of lost wake-ups this gives the meaning of \<^verbatim>\<open>retry\<close>: when everything is at rest, each
  sleeping closure, run again, would retry again.
\<close>

subsection \<open>What a log says about the closure\<close>

text \<open>The closure \<open>p0\<close> has come to \<open>p\<close>, on every store consistent with the log.\<close>

definition runs_as :: "arena \<Rightarrow> prog \<Rightarrow> prog \<Rightarrow> Transaction \<Rightarrow> bool" where
  "runs_as h p0 p tx \<longleftrightarrow>
     (\<forall>\<sigma>. consist h (vars tx) \<sigma> \<longrightarrow> spec p0 \<sigma> = spec p (overlay h (vars tx) \<sigma>))"

text \<open>The closure retries on every store that agrees with the reads.\<close>

definition retries :: "vcb_ref set \<Rightarrow> arena \<Rightarrow> prog \<Rightarrow> (vcb_ref \<times> arc) list \<Rightarrow> bool" where
  "retries L h p0 reads \<longleftrightarrow> (\<forall>(x, a) \<in> set reads. x \<in> L \<and> allocated h a) \<and>
     (\<forall>\<sigma>. (\<forall>(x, a) \<in> set reads. \<sigma> x = deref h a) \<longrightarrow> fst (spec p0 \<sigma>) = Inl Retry)"

fun knows_retry :: "vcb_ref set \<Rightarrow> arena \<Rightarrow> prog \<Rightarrow> pc \<Rightarrow> bool" where
  "knows_retry L h p0 (Run p tx fs) = (fs = [] \<and> or_free p \<and> runs_as h p0 p tx)"
| "knows_retry L h p0 (Register c todo reads) = retries L h p0 (reads @ log_originals todo)"
| "knows_retry L h p0 (Compare c x a todo reads) = retries L h p0 (reads @ (x, a) # log_originals todo)"
| "knows_retry L h p0 (Asleep c reads) = retries L h p0 reads"
| "knows_retry L h p0 (Parking c reads) = retries L h p0 reads"
| "knows_retry L h p0 u = True"

lemma runs_as_mono:
  assumes "log_ok \<Gamma> L w (vars tx)" and "extends (heap w) h'"
  shows "runs_as h' p0 p tx \<longleftrightarrow> runs_as (heap w) p0 p tx"
  unfolding runs_as_def by (simp add: consist_mono [OF assms] overlay_mono [OF assms])

lemma retriesD:
  assumes "retries L h p0 reads"
  shows "(x, a) \<in> set reads \<Longrightarrow> x \<in> L \<and> allocated h a"
    and "(\<And>x a. (x, a) \<in> set reads \<Longrightarrow> \<sigma> x = deref h a) \<Longrightarrow> fst (spec p0 \<sigma>) = Inl Retry"
  using assms unfolding retries_def by blast+

lemma retriesI:
  assumes "\<And>x a. (x, a) \<in> set reads \<Longrightarrow> x \<in> L \<and> allocated h a"
    and "\<And>\<sigma>. (\<And>x a. (x, a) \<in> set reads \<Longrightarrow> \<sigma> x = deref h a) \<Longrightarrow> fst (spec p0 \<sigma>) = Inl Retry"
  shows "retries L h p0 reads"
  using assms unfolding retries_def by blast

lemma retries_mono:
  assumes "retries L h p0 reads" and "extends h h'"
  shows "retries L h' p0 reads"
proof (rule retriesI)
  note D = retriesD [OF assms(1)]
  show "x \<in> L \<and> allocated h' a" if "(x, a) \<in> set reads" for x a
    using extends_allocated [OF assms(2)] D(1) [OF that] by blast
  fix \<sigma> assume \<sigma>: "\<And>x a. (x, a) \<in> set reads \<Longrightarrow> \<sigma> x = deref h' a"
  show "fst (spec p0 \<sigma>) = Inl Retry"
  proof (rule D(2))
    fix x a assume m: "(x, a) \<in> set reads"
    show "\<sigma> x = deref h a" unfolding \<sigma> [OF m] by (rule extends_deref [OF assms(2)]) (use D(1) [OF m] in blast)
  qed
qed

lemma knows_retry_stable:
  assumes "knows_retry L (heap w) p0 u" and "extends (heap w) (heap w')" and "thread_ok \<Gamma> L w p0 u"
  shows "knows_retry L (heap w') p0 u"
  using assms retries_mono [OF _ assms(2)] runs_as_mono [OF _ assms(2)]
  by (cases u) auto

lemma runs_as_start: "runs_as h p0 p0 Transaction_new"
  by (simp add: runs_as_def Transaction_new_def)

subsection \<open>The steps of the thread\<close>

lemma runs_as_read:
  assumes "Transaction_read v (w, tx) = (Return (Inr y), w', tx')" and "btm_ok (vars tx)"
    and "runs_as (heap w) p0 (ReadVar v k) tx"
  shows "runs_as (heap w) p0 (k y) tx'"
  unfolding runs_as_def
proof (intro allI impI)
  let ?r = "read_entry w (control_block v) (vars tx)"
  fix \<sigma> assume c: "consist (heap w) (vars tx') \<sigma>"
  have tx': "vars tx' = btm_insert (control_block v) (snd ?r) (vars tx)"
    and y: "y = deref (heap w) (fst ?r)"
    using assms(1) by (auto simp: Transaction_read_eq Transaction_downcast_def downcast_ref_def
        split: may_panic.splits option.splits if_splits)
  note r = read_entry_overlay [OF c [unfolded tx'] assms(2)]
  have "spec p0 \<sigma> = spec (ReadVar v k) (overlay (heap w) (vars tx) \<sigma>)"
    using assms(3) r(1) unfolding runs_as_def by blast
  also have "\<dots> = spec (k y) (overlay (heap w) (vars tx') \<sigma>)"
    by (simp add: spec_bind_def spec_read_def r(2,3) y tx')
  finally show "spec p0 \<sigma> = spec (k y) (overlay (heap w) (vars tx') \<sigma>)" .
qed

lemma runs_as_write:
  assumes "Transaction_write v y (w, tx) = (r, w', tx')" and "log_ok \<Gamma> L w (vars tx)"
    and "runs_as (heap w) p0 (WriteVar v y p) tx"
  shows "runs_as (heap w') p0 p tx'"
  unfolding runs_as_def
proof (intro allI impI)
  let ?e = "write_entry (next_arc (heap w)) (control_block v) (vars tx)"
  fix \<sigma> assume c: "consist (heap w') (vars tx') \<sigma>"
  have w': "w' = snd (alloc_arc y w)" and tx': "vars tx' = btm_insert (control_block v) ?e (vars tx)"
    using assms(1) by (auto simp: Transaction_write_eq)
  have "runs_as (heap w') p0 (WriteVar v y p) tx"
    using runs_as_mono [OF assms(2), of "heap w'"] assms(3) by (simp add: w')
  moreover note r = write_entry_overlay [OF log_okD(1) [OF assms(2)]]
  ultimately have "spec p0 \<sigma> = spec (WriteVar v y p) (overlay (heap w') (vars tx) \<sigma>)"
    using c unfolding runs_as_def tx' by blast
  also have "\<dots> = spec p (overlay (heap w') (vars tx') \<sigma>)"
    by (simp add: spec_bind_def spec_write_def r(2) tx') (simp add: w')
  finally show "spec p0 \<sigma> = spec p (overlay (heap w') (vars tx') \<sigma>)" .
qed

text \<open>A closure that has come to \<^verbatim>\<open>retry\<close> does so because of the originals in its log.\<close>

lemma retries_start:
  assumes "runs_as (heap w) p0 (Done (Inl Retry)) tx" and "log_ok \<Gamma> L w (vars tx)"
  shows "retries L (heap w) p0 (log_originals (btm_iter (vars tx)))"
proof -
  note ok = log_okD(1) [OF assms(2)]
  have get: "(x, e) \<in> set (btm_iter (vars tx)) \<longleftrightarrow> btm_get (vars tx) x = Some e" for x e
    by (rule btm.iter_mem [OF ok])
  show ?thesis
  proof (rule retriesI)
    fix x a assume "(x, a) \<in> set (log_originals (btm_iter (vars tx)))"
    then obtain e where "btm_get (vars tx) x = Some e" and "into_read_value e = Some a"
      by (auto simp: mem_log_originals get)
    with log_okD(2,3) [OF assms(2), of x e] show "x \<in> L \<and> allocated (heap w) a"
      by (simp add: entry_ok_def arc_typed_def)
  next
    fix \<sigma>
    assume "\<And>x a. (x, a) \<in> set (log_originals (btm_iter (vars tx))) \<Longrightarrow> \<sigma> x = deref (heap w) a"
    then have "consist (heap w) (vars tx) \<sigma>" unfolding consist_def mem_log_originals get by blast
    with assms(1) show "fst (spec p0 \<sigma>) = Inl Retry" by (simp add: runs_as_def spec_return_def)
  qed
qed

lemma step_knows_retry:
  assumes step: "local_step t p0 R W w u l w' u'" and ok: "thread_ok \<Gamma> L w p0 u"
    and free: "or_free p0" and kn: "knows_retry L (heap w) p0 u"
  shows "knows_retry L (heap w') p0 u'"
  using step
proof (cases rule: local_step.cases)
  case (run_read tx v x tx' k fs)
  have "btm_ok (vars tx)" using ok run_read log_okD(1) by auto
  from runs_as_read [OF run_read(5) this] kn run_read read_world [OF run_read(5)] show ?thesis
    by simp
next
  case (run_write v y tx r tx' p fs)
  have "log_ok \<Gamma> L w (vars tx)" using ok run_write by simp
  from runs_as_write [OF run_write(4) this] kn run_write show ?thesis by simp
next
  case (wait_begin c tx)
  have "log_ok \<Gamma> L w (vars tx)" using ok wait_begin by simp
  from retries_start [OF _ this] kn wait_begin cb_alloc_world [OF wait_begin(4)] show ?thesis
    by simp
qed (use free kn in \<open>auto simp: runs_as_start\<close>)

subsection \<open>Runs\<close>

definition sleepers_know :: "vcb_ref set \<Rightarrow> sys \<Rightarrow> bool" where
  "sleepers_know L s \<longleftrightarrow> (\<forall>t. or_free (closure (thr s t)) \<longrightarrow>
     knows_retry L (heap (shared s)) (closure (thr s t)) (pc_of s t))"

context rwlock
begin

lemma sleepers_know_step:
  assumes step: "mstep may_read may_write \<Gamma> L s l s'" and ok: "sys_ok \<Gamma> L s" and kn: "sleepers_know L s"
  shows "sleepers_know L s'"
  unfolding sleepers_know_def
proof (intro allI impI)
  fix r assume free: "or_free (closure (thr s' r))"
  have stable: "knows_retry L (heap w') (closure (thr s r)) (pc_of s r)"
    if "extends (heap (shared s)) (heap w')" and "or_free (closure (thr s r))" for w'
    using knows_retry_stable [OF _ that(1) sys_okD(4) [OF ok]] kn that(2)
    unfolding sleepers_know_def by blast
  from step show "knows_retry L (heap (shared s')) (closure (thr s' r)) (pc_of s' r)"
  proof cases
    case (m_local t w' u')
    show ?thesis
    proof (cases "r = t")
      case True
      have "or_free (closure (thr s t))" using free m_local(1) True by simp
      with step_knows_retry [OF m_local(2) sys_okD(4) [OF ok] this] kn m_local(1) True
      show ?thesis by (simp add: sleepers_know_def)
    next
      case False
      with stable [of w'] step_frame [OF m_local(2)] free m_local(1) show ?thesis by simp
    qed
  next
    case (m_start t p w')
    then have "heap w' = heap (shared s)"
      by (auto simp: TransactionGuard_new_def split: if_splits)
    then show ?thesis using stable [of w'] free m_start by (cases "r = t") (simp_all add: runs_as_start)
  next
    case (m_write t v y)
    then show ?thesis using stable [of "shared s"] free by (cases "r = t") simp_all
  next
    case (m_panic t p tx fs)
    then show ?thesis
      using stable [of "TransactionGuard_drop t (shared s)"] free by (cases "r = t") simp_all
  next
    case (m_spurious t c reads)
    then show ?thesis using stable [of "shared s"] free by (cases "r = t") simp_all
  qed
qed

lemma sleepers_know_run:
  assumes "mrun may_read may_write \<Gamma> L s ls s'" and "initial \<Gamma> L s"
  shows "sleepers_know L s'"
  using assms
proof induction
  case (mrun_nil s)
  then show ?case by (simp add: initial_def sleepers_know_def)
next
  case (mrun_snoc s ls s' l s'')
  have "sys_ok \<Gamma> L s'" using simulation [OF mrun_snoc.hyps(1) mrun_snoc.prems] by blast
  with mrun_snoc show ?case using sleepers_know_step by blast
qed

end

lemma retries_contents:
  assumes "retries (set (vcb_live w)) (heap w) p reads"
    and "\<And>x a. (x, a) \<in> set reads \<Longrightarrow> value_arc w x = a"
  shows "fst (spec p (contents w)) = Inl Retry"
  by (rule retriesD(2) [OF assms(1)]) (use retriesD(1) [OF assms(1)] in \<open>simp add: contents_eq assms(2)\<close>)

lemma rest_sleepers_retry:
  assumes "rwlock_live may_read may_write" and "initial \<Gamma> L s"
    and "mrun may_read may_write \<Gamma> L s ls s'" and "\<And>x y. Writes x y \<notin> set ls"
    and "\<And>u. \<not> can_step may_read may_write s' u"
    and "pc_of s' t = Parking c reads" and "or_free (closure (thr s' t))"
  shows "fst (spec (closure (thr s' t)) (contents (shared s'))) = Inl Retry"
proof (rule retries_contents)
  have rw: "rwlock may_read may_write" using assms(1) by (simp add: rwlock_live_def)
  from rwlock.simulation [OF rw assms(3,2)] have "set (vcb_live (shared s')) = L"
    using sys_okD(2) by blast
  with rwlock.sleepers_know_run [OF rw assms(3,2)] assms(6,7)
  show "retries (set (vcb_live (shared s'))) (heap (shared s')) (closure (thr s' t)) reads"
    unfolding sleepers_know_def by fastforce
  show "value_arc (shared s') x = a" if "(x, a) \<in> set reads" for x a
    using stuck_on_current [OF assms(1-4) _ that, of t c] assms(5,6) by (auto simp: waiting_def)
qed

text \<open>
  C3. Blocking means what it should: in a run in which all writes are transactional, when no
  thread can make a step, every parked transaction whose closure has no \<^verbatim>\<open>or\<close> would retry again if
  it were run on what the variables hold now. Waking it would be of no use. Both conditions are
  needed: \<open>Waiting\<close> has the counterexample for \<^verbatim>\<open>write_atomic\<close>, \<open>Anomalies\<close> the one for \<^verbatim>\<open>or\<close>.
\<close>

theorem at_rest_sleepers_would_retry:
  assumes "rwlock_live may_read may_write" and "initial \<Gamma> L s"
    and "mrun may_read may_write \<Gamma> L s ls s'" and "\<And>x y. Writes x y \<notin> set ls"
    and "\<And>u. \<not> can_step may_read may_write s' u"
    and "pc_of s' t = Parking c reads" and "or_free (closure (thr s' t))"
  shows "fst (spec (closure (thr s' t)) (contents (shared s'))) = Inl Retry"
  using rest_sleepers_retry [OF assms] .

text \<open>
  Thread 1 waits until the variable is no longer 42 and sleeps. Thread 2 writes 42 once more and
  so wakes it; it retries and sleeps again, now on the new box.
\<close>

definition await_prog :: "int \<Rightarrow> prog" where
  "await_prog n = ReadVar demo_x (\<lambda>v. Done (if v = VInt n then retry else Inr v))"

definition rewrite_events :: "event list" where
  "rewrite_events = gos 1 6 @ Start 2 (put_prog demo_x 42) # gos 2 13 @ gos 1 10"

lemma await_ok: "prog_ok demo_types {VCB 16, VCB 64} (await_prog n)" "or_free (await_prog n)"
  by (simp_all add: await_prog_def var_ok_def demo_x_def demo_types_def)

lemma rewrite_run:
  "map_option (\<lambda>(ls, s). (sleep_state (pc_of s 1), is_idle (pc_of s 2), list_ex is_write ls,
       blocked (cbs (shared s) 1), tokens (shared s) 1))
     (run_schedule [1, 2] (Start 1 (await_prog 42) # rewrite_events) demo_sys) =
   Some (Some (1, [(VCB 16, 2)]), True, False, True, False)"
  by code_simp

theorem at_rest_sleepers_would_retry_witness:
  "\<exists>ls s. mrun eager_read writer_first_write demo_types {VCB 16, VCB 64} demo_sys ls s \<and>
    pc_of s 1 = Parking 1 [(VCB 16, 2)] \<and>
    fst (spec (await_prog 42) (contents (shared s))) = Inl Retry"
proof -
  let ?evs = "Start 1 (await_prog 42) # rewrite_events"
  from rewrite_run obtain ls s where r: "run_schedule [1, 2] ?evs demo_sys = Some (ls, s)"
    and s: "pc_of s 1 = Parking 1 [(VCB 16, 2)]" "is_idle (pc_of s 2)" "blocked (cbs (shared s) 1)"
      "\<not> tokens (shared s) 1"
    and nw: "\<not> list_ex is_write ls"
    by (auto simp: sleep_state_iff)
  have "list_all (event_ok demo_types {VCB 16, VCB 64}) ?evs"
    using block_put_ok await_ok by (simp add: rewrite_events_def gos_def list_all_iff)
  with schedule_mrun [OF r demo_idle]
  have run: "mrun eager_read writer_first_write demo_types {VCB 16, VCB 64} demo_sys ls s"
    and idle: "idle_but [1, 2] s" by blast+
  have closure: "closure (thr s 1) = await_prog 42"
    using schedule_started [OF r] by (auto simp: rewrite_events_def gos_def)
  have "resting s u" for u
    using s idle by (cases "u \<in> {1, 2}") (auto simp: resting_def idle_but_def is_idle_iff)
  then have "\<not> can_step eager_read writer_first_write s u" for u by (rule resting_cannot_step)
  from at_rest_sleepers_would_retry
    [OF eager_lock.rwlock_live_axioms demo_initial run no_writes [OF nw] this s(1)]
  have "fst (spec (await_prog 42) (contents (shared s))) = Inl Retry"
    using await_ok(2) unfolding closure .
  with run s(1) show ?thesis by blast
qed

end
