(* ===== verification/Garbage.thy ===== *)
theory Garbage
  imports Wakeup
begin

text \<open>
  What \<^verbatim>\<open>set_dead\<close> is for: the waiting list of a variable that is often read and rarely written
  does not grow without bound. An entry is spent for a variable when its transaction has already
  counted it as dead there, or is gone. Spent entries are bounded by the dead counter, except for
  those whose transactions were still leaving when the last clean-up kept them; the counter is
  bounded because a thread that finds it at 64 cleans up; and the other entries belong to different
  threads.
\<close>

subsection \<open>Entries of the waiting lists and their owners\<close>

text \<open>The variables where the thread's control block is registered and not yet counted as dead.\<close>

fun uncounted :: "pc \<Rightarrow> vcb_ref list" where
  "uncounted (Register c todo reads) = map fst reads"
| "uncounted (Compare c x a todo reads) = map fst reads @ [x]"
| "uncounted (Asleep c reads) = map fst reads"
| "uncounted (Parking c reads) = map fst reads"
| "uncounted (Dying c xs) = xs"
| "uncounted (Cleaning c x xs) = xs"
| "uncounted _ = []"

text \<open>Where it may be registered at all.\<close>

fun may_list :: "pc \<Rightarrow> vcb_ref \<Rightarrow> bool" where
  "may_list (Dying c xs) y = True"
| "may_list (Cleaning c x xs) y = True"
| "may_list u y = (y \<in> set (uncounted u))"

fun fresh_keys :: "pc \<Rightarrow> bool" where
  "fresh_keys (Register c todo reads) = distinct (map fst reads @ map fst todo)"
| "fresh_keys (Compare c x a todo reads) = distinct (map fst reads @ x # map fst todo)"
| "fresh_keys _ = True"

fun cleaning_var :: "pc \<Rightarrow> vcb_ref option" where
  "cleaning_var (Cleaning c x xs) = Some x"
| "cleaning_var _ = None"

definition spent :: "(tid \<Rightarrow> pc) \<Rightarrow> vcb_ref \<Rightarrow> cb_ref \<Rightarrow> bool" where
  "spent pcs x c \<longleftrightarrow> (\<forall>t. owner (pcs t) = Some c \<longrightarrow> x \<notin> set (uncounted (pcs t)))"

abbreviation dead_count :: "world \<Rightarrow> vcb_ref \<Rightarrow> nat" where
  "dead_count w x \<equiv> unat (dead_threads (vcbs w x))"

definition owned_ok :: "world \<Rightarrow> (tid \<Rightarrow> pc) \<Rightarrow> bool" where
  "owned_ok w pcs \<longleftrightarrow>
     (\<forall>t c. owner (pcs t) = Some c \<longrightarrow> c < next_cb w \<and> (\<forall>u. owner (pcs u) = Some c \<longrightarrow> u = t))"

definition entries_ok :: "world \<Rightarrow> bool" where
  "entries_ok w \<longleftrightarrow> (\<forall>x. distinct (waiters w x) \<and> (\<forall>c \<in> set (waiters w x). c < next_cb w))"

definition listed_ok :: "world \<Rightarrow> (tid \<Rightarrow> pc) \<Rightarrow> bool" where
  "listed_ok w pcs \<longleftrightarrow> (\<forall>t. fresh_keys (pcs t)) \<and>
     (\<forall>t c x. owner (pcs t) = Some c \<and> c \<in> set (waiters w x) \<longrightarrow> may_list (pcs t) x)"

definition lists_ok :: "world \<Rightarrow> (tid \<Rightarrow> pc) \<Rightarrow> bool" where
  "lists_ok w pcs \<longleftrightarrow> owned_ok w pcs \<and> entries_ok w \<and> listed_ok w pcs"

definition counts_ok :: "tid set \<Rightarrow> world \<Rightarrow> (tid \<Rightarrow> pc) \<Rightarrow> bool" where
  "counts_ok T w pcs \<longleftrightarrow>
     (\<forall>x. dead_count w x \<le> 64 + card {t \<in> T. cleaning_var (pcs t) = Some x} \<and>
        length (filter (spent pcs x) (waiters w x)) \<le> dead_count w x + card T)"

lemma owned_okD:
  assumes "owned_ok w pcs" and "owner (pcs t) = Some c"
  shows "c < next_cb w" and "owner (pcs u) = Some c \<Longrightarrow> u = t"
  using assms unfolding owned_ok_def by blast+

lemma entries_okD:
  assumes "entries_ok w"
  shows "distinct (waiters w x)" and "c \<in> set (waiters w x) \<Longrightarrow> c < next_cb w"
  using assms unfolding entries_ok_def by blast+

lemma lists_okD:
  assumes "lists_ok w pcs"
  shows "owned_ok w pcs" and "entries_ok w" and "fresh_keys (pcs t)"
    and "owner (pcs t) = Some c \<Longrightarrow> c \<in> set (waiters w x) \<Longrightarrow> may_list (pcs t) x"
  using assms unfolding lists_ok_def listed_ok_def by blast+

lemma counts_okD:
  assumes "counts_ok T w pcs"
  shows "dead_count w x \<le> 64 + card {t \<in> T. cleaning_var (pcs t) = Some x}"
    and "length (filter (spent pcs x) (waiters w x)) \<le> dead_count w x + card T"
  using assms unfolding counts_ok_def by blast+

subsection \<open>Counting\<close>

lemma length_filter_mono: "(\<And>c. P c \<Longrightarrow> Q c) \<Longrightarrow> length (filter P xs) \<le> length (filter Q xs)"
  by (induction xs) auto

lemma length_filter_but_one:
  assumes "distinct xs" and "\<And>c. P c \<Longrightarrow> Q c \<or> c = d"
  shows "length (filter P xs) \<le> Suc (length (filter Q xs))"
  using assms
proof (induction xs)
  case (Cons c xs)
  show ?case
  proof (cases "c = d")
    case True
    with Cons.prems have "P e \<Longrightarrow> e \<in> set xs \<Longrightarrow> Q e" for e by auto
    then have "length (filter P xs) \<le> length (filter Q xs)"
      by (induction xs) (auto simp: le_SucI)
    then show ?thesis by simp
  qed (use Cons in \<open>auto simp: le_SucI\<close>)
qed simp

text \<open>Distinct control blocks that all belong to threads among \<open>T\<close>, one for each, are no more than \<open>T\<close>.\<close>

lemma owned_length:
  assumes "finite T" and "distinct cs" and "\<And>c. c \<in> set cs \<Longrightarrow> \<exists>t \<in> T. f t = Some c"
  shows "length cs \<le> card T"
proof -
  have "set cs \<subseteq> (\<lambda>t. the (f t)) ` T" using assms(3) by (force simp: image_iff)
  then have "card (set cs) \<le> card T" using assms(1) by (meson card_image_le card_mono finite_imageI le_trans)
  with assms(2) show ?thesis by (simp add: distinct_card)
qed

subsection \<open>The structure of the lists\<close>

text \<open>Steps that touch no list and no counter.\<close>

definition neutral :: "world \<Rightarrow> pc \<Rightarrow> world \<Rightarrow> pc \<Rightarrow> bool" where
  "neutral w u w' u' \<longleftrightarrow>
     owner u' = owner u \<and> set (uncounted u') = set (uncounted u) \<and>
     cleaning_var u' = cleaning_var u \<and> (\<forall>y. may_list u y \<longrightarrow> may_list u' y) \<and>
     (fresh_keys u \<longrightarrow> fresh_keys u') \<and>
     (\<forall>x. waiters w' x = waiters w x \<and> dead_threads (vcbs w' x) = dead_threads (vcbs w x)) \<and>
     next_cb w' = next_cb w"

lemma neutral_spent:
  assumes "neutral w (pcs t) w' u'"
  shows "spent (pcs(t := u')) = spent pcs"
proof -
  have "owner ((pcs(t := u')) v) = owner (pcs v) \<and>
      set (uncounted ((pcs(t := u')) v)) = set (uncounted (pcs v))" for v
    using assms by (simp add: neutral_def)
  then show ?thesis by (simp add: spent_def fun_eq_iff)
qed

lemma neutral_lists_ok:
  assumes "neutral w (pcs t) w' u'" and "lists_ok w pcs"
  shows "lists_ok w' (pcs(t := u'))"
proof -
  have own: "owner ((pcs(t := u')) v) = owner (pcs v)" for v
    using assms(1) by (simp add: neutral_def)
  have w: "waiters w' x = waiters w x" "next_cb w' = next_cb w" for x
    using assms(1) by (simp_all add: neutral_def)
  have "owned_ok w' (pcs(t := u'))" and "entries_ok w'"
    using lists_okD(1,2) [OF assms(2)] unfolding owned_ok_def entries_ok_def own w .
  moreover have "listed_ok w' (pcs(t := u'))"
    unfolding listed_ok_def own w
    using lists_okD(3,4) [OF assms(2)] assms(1) by (auto simp: neutral_def)
  ultimately show ?thesis unfolding lists_ok_def by blast
qed

lemma neutral_counts_ok:
  assumes "neutral w (pcs t) w' u'" and "counts_ok T w pcs"
  shows "counts_ok T w' (pcs(t := u'))"
proof -
  have cl: "cleaning_var ((pcs(t := u')) v) = cleaning_var (pcs v)" for v
    using assms(1) by (simp add: neutral_def)
  have w: "waiters w' x = waiters w x" "dead_threads (vcbs w' x) = dead_threads (vcbs w x)" for x
    using assms(1) by (simp_all add: neutral_def)
  show ?thesis
    using assms(2) unfolding counts_ok_def neutral_spent [where pcs = pcs, OF assms(1)] cl w .
qed

text \<open>The program counters whose next step touches a list, a counter or an owner.\<close>

fun relists :: "pc \<Rightarrow> bool" where
  "relists (Run (Done (Inl Retry)) tx []) = True"
| "relists (Register c ((x, e) # todo) reads) = (into_read_value e \<noteq> None)"
| "relists (Waking (x # wr) [] v) = True"
| "relists (Dying c xs) = True"
| "relists (Cleaning c x xs) = True"
| "relists _ = False"

lemma step_neutral:
  "local_step t p0 R W w u l w' u' \<Longrightarrow> \<not> relists u \<Longrightarrow> neutral w u w' u'"
  by (erule local_step.cases; (drule read_world write_world)?; simp add: neutral_def write_back_def)

text \<open>The other steps.\<close>

lemma step_list_effects:
  assumes "local_step t p0 R W w u l w' u'"
  obtains (neutral) "neutral w u w' u'"
  | (register) c x e todo reads a where "u = Register c ((x, e) # todo) reads"
      "u' = Compare c x a todo reads" "w' = VarControlBlock_wait x c w"
  | (take) x wr v where "u = Waking (x # wr) [] v" "u' = Waking wr (waiters w x) v"
      "w' = update_vcb x (\<lambda>b. b\<lparr>waiting_threads := []\<rparr>) w"
  | (dying) c x xs where "u = Dying c (x # xs)" "w' = snd (set_dead_count x w)"
      "u' = (if 64 \<le> dead_threads (vcbs w x) then Cleaning c x xs else Dying c xs)"
  | (cleaning) c x xs where "u = Cleaning c x xs" "u' = Dying c xs" "w' = set_dead_cleanup x w"
  | (enter) tx where "u = Run (Done (Inl Retry)) tx []" "w' = snd (cb_alloc t w)"
      "u' = Register (next_cb w) (btm_iter (vars tx)) []"
  | (leave) c where "u = Dying c []" "w' = cb_drop c w" "u' = Run p0 Transaction_new []"
proof (cases "relists u")
  case False
  show thesis by (rule neutral) (rule step_neutral [OF assms False])
next
  case True
  from assms show thesis
  proof (cases rule: local_step.cases)
    case (control_abort e tx)
    then show thesis by (intro neutral) (simp add: neutral_def)
  next
    case (wait_begin c tx)
    with cb_alloc_world [of t w c w'] show thesis by (intro enter) auto
  next
    case (register_wait e a c x todo reads)
    then show thesis by (intro register)
  next
    case (wake_take x wr v)
    then show thesis by (intro take)
  next
    case (dying c x xs)
    with that(4) [of c x xs] show thesis by simp
  next
    case (cleaning c x xs)
    then show thesis by (intro that(5))
  next
    case (wait_end c)
    then show thesis by (intro leave)
  qed (use True in simp_all)
qed

text \<open>
  A step that keeps the owners and, per variable, only drops or adds entries the clauses below
  allow, keeps the structure of the lists.
\<close>

lemma same_owners_lists_ok:
  assumes ok: "lists_ok w pcs" and own: "owner u' = owner (pcs t)"
    and w': "next_cb w' = next_cb w" and fresh: "fresh_keys u'"
    and entries: "\<And>x. distinct (waiters w' x)"
      "\<And>x c. c \<in> set (waiters w' x) \<Longrightarrow> c \<in> set (waiters w x) \<or> owner (pcs t) = Some c"
    and listed: "\<And>c x. owner u' = Some c \<Longrightarrow> c \<in> set (waiters w' x) \<Longrightarrow> may_list u' x"
  shows "lists_ok w' (pcs(t := u'))"
proof -
  have own': "owner ((pcs(t := u')) v) = owner (pcs v)" for v using own by simp
  note D = lists_okD [OF ok]
  have "owned_ok w' (pcs(t := u'))" using D(1) unfolding owned_ok_def own' w' .
  moreover have "entries_ok w'"
    using entries entries_okD(2) [OF D(2)] owned_okD(1) [OF D(1)] unfolding entries_ok_def w' by blast
  moreover have "listed_ok w' (pcs(t := u'))"
    unfolding listed_ok_def own'
  proof (intro conjI allI impI; (elim conjE)?)
    show "fresh_keys ((pcs(t := u')) v)" for v using fresh D(3) by simp
    fix v c x assume v: "owner (pcs v) = Some c" and c: "c \<in> set (waiters w' x)"
    show "may_list ((pcs(t := u')) v) x"
    proof (cases "v = t")
      case True
      with listed [OF _ c] v own show ?thesis by simp
    next
      case False
      then have "owner (pcs t) \<noteq> Some c" using owned_okD(2) [OF D(1) v, of t] by blast
      with entries(2) [OF c] D(4) [OF v] False show ?thesis by simp
    qed
  qed
  ultimately show ?thesis unfolding lists_ok_def by blast
qed

lemma enter_lists_ok:
  assumes ok: "lists_ok w pcs" and u: "owner (pcs t) = None"
    and u': "owner u' = Some (next_cb w)" "fresh_keys u'"
    and w': "\<And>x. waiters w' x = waiters w x" "next_cb w' = Suc (next_cb w)"
  shows "lists_ok w' (pcs(t := u'))"
proof -
  note D = lists_okD [OF ok]
  have old: "c \<noteq> next_cb w" if "owner (pcs v) = Some c" for v c
    using owned_okD(1) [OF D(1) that] by simp
  have fresh: "next_cb w \<notin> set (waiters w x)" for x using entries_okD(2) [OF D(2)] by blast
  have "owned_ok w' (pcs(t := u'))"
    using D(1) old u u' unfolding owned_ok_def w' by (auto simp: less_Suc_eq)
  moreover have "entries_ok w'" using D(2) unfolding entries_ok_def w' by (simp add: less_Suc_eq)
  moreover have "listed_ok w' (pcs(t := u'))"
    using D(3,4) u'(1,2) fresh unfolding listed_ok_def w' by auto
  ultimately show ?thesis unfolding lists_ok_def by blast
qed

lemma leave_lists_ok:
  assumes ok: "lists_ok w pcs" and u': "owner u' = None" "fresh_keys u'"
    and w': "\<And>x. waiters w' x = waiters w x" "next_cb w' = next_cb w"
  shows "lists_ok w' (pcs(t := u'))"
proof -
  note D = lists_okD [OF ok]
  have keep: "owner (pcs v) = Some d" if "owner ((pcs(t := u')) v) = Some d" for v d
    using that u'(1) by (cases "v = t") auto
  have "owned_ok w' (pcs(t := u'))"
    using keep owned_okD [OF D(1)] unfolding owned_ok_def w' by blast
  moreover have "entries_ok w'" using D(2) unfolding entries_ok_def w' .
  moreover have "listed_ok w' (pcs(t := u'))"
    using D(3,4) u' unfolding listed_ok_def w' by auto
  ultimately show ?thesis unfolding lists_ok_def by blast
qed

lemma lists_ok_step:
  assumes step: "local_step t p0 R W w (pcs t) l w' u'" and ok: "lists_ok w pcs"
    and thr: "thread_ok \<Gamma> L w p0 (pcs t)"
  shows "lists_ok w' (pcs(t := u'))"
proof -
  note D = lists_okD [OF ok]
  note dist = entries_okD(1) [OF D(2)]
  from step show ?thesis
  proof (cases rule: step_list_effects)
    case neutral
    then show ?thesis by (rule neutral_lists_ok [OF _ ok])
  next
    case (register c x e todo reads a)
    have "c \<notin> set (waiters w x)"
      using D(4) [of t c x] D(3) [of t] register by auto
    then show ?thesis
      using register D(3,4) [of t] dist
      by (intro same_owners_lists_ok [OF ok]) (auto split: if_splits)
  next
    case (take x wr v)
    then show ?thesis using dist D(4) [of t]
      by (intro same_owners_lists_ok [OF ok]) (auto split: if_splits)
  next
    case (dying c x xs)
    then show ?thesis using dist by (intro same_owners_lists_ok [OF ok]) auto
  next
    case (cleaning c x xs)
    then show ?thesis using dist
      by (intro same_owners_lists_ok [OF ok]) (auto split: if_splits)
  next
    case (enter tx)
    have "btm_ok (vars tx)" using thr enter log_okD(1) by auto
    then have "distinct (map fst (btm_iter (vars tx)))" by (rule btm.iter_distinct)
    with enter show ?thesis by (intro enter_lists_ok [OF ok]) auto
  next
    case (leave c)
    then show ?thesis by (intro leave_lists_ok [OF ok]) auto
  qed
qed

subsection \<open>The counters\<close>

lemma counts_okI:
  assumes "\<And>x. dead_count w x \<le> 64 + card {t \<in> T. cleaning_var (pcs t) = Some x}"
    and "\<And>x. length (filter (spent pcs x) (waiters w x)) \<le> dead_count w x + card T"
  shows "counts_ok T w pcs"
  using assms unfolding counts_ok_def by blast

text \<open>An entry does not become spent by a step that does not count its owner's variable.\<close>

lemma spent_unchanged:
  assumes "spent (pcs(t := u')) x c"
    and "owner (pcs t) = Some c \<Longrightarrow> x \<in> set (uncounted (pcs t)) \<Longrightarrow>
      owner u' = Some c \<and> x \<in> set (uncounted u')"
  shows "spent pcs x c"
  unfolding spent_def
proof (intro allI impI notI)
  fix v assume v: "owner (pcs v) = Some c" "x \<in> set (uncounted (pcs v))"
  then have "owner ((pcs(t := u')) v) = Some c \<and> x \<in> set (uncounted ((pcs(t := u')) v))"
    using assms(2) by (cases "v = t") auto
  with assms(1) show False unfolding spent_def by blast
qed

lemma fewer_spent:
  assumes "counts_ok T w pcs"
    and "\<And>c. c \<in> set (waiters w' x) \<Longrightarrow> spent (pcs(t := u')) x c \<Longrightarrow> spent pcs x c"
    and "length (filter (spent pcs x) (waiters w' x)) \<le> length (filter (spent pcs x) (waiters w x))"
  shows "length (filter (spent (pcs(t := u')) x) (waiters w' x)) \<le> dead_count w x + card T"
proof -
  have "filter (spent (pcs(t := u')) x) (waiters w' x) =
      filter (\<lambda>c. spent (pcs(t := u')) x c \<and> c \<in> set (waiters w' x)) (waiters w' x)"
    by (rule filter_cong) auto
  moreover have "length (filter (\<lambda>c. spent (pcs(t := u')) x c \<and> c \<in> set (waiters w' x)) (waiters w' x))
      \<le> length (filter (spent pcs x) (waiters w' x))"
    by (rule length_filter_mono) (use assms(2) in blast)
  ultimately show ?thesis using counts_okD(2) [OF assms(1), of x] assms(3) by simp
qed

lemma cleaning_same:
  assumes "cleaning_var u' = cleaning_var (pcs t)"
  shows "{v \<in> T. cleaning_var ((pcs(t := u')) v) = Some x} = {v \<in> T. cleaning_var (pcs v) = Some x}"
  using assms by auto

lemma dead_count_Suc:
  assumes "dead_count w x < 2 ^ 64 - 1"
  shows "dead_count (snd (set_dead_count x w)) x = Suc (dead_count w x)"
  using assms by (simp add: unat_word_ariths)

lemma counts_ok_dying:
  assumes ok: "counts_ok T w pcs" and lists: "lists_ok w pcs" and T: "finite T" "card T < 2 ^ 63"
    and u: "pcs t = Dying c (x # xs)" and t: "t \<in> T"
    and w': "w' = snd (set_dead_count x w)"
    and u': "u' = (if 64 \<le> dead_threads (vcbs w x) then Cleaning c x xs else Dying c xs)"
  shows "counts_ok T w' (pcs(t := u'))"
proof (rule counts_okI)
  fix y
  let ?C = "\<lambda>pcs. {v \<in> T. cleaning_var (pcs v) = Some y}"
  note D = counts_okD [OF ok]
  have big: "64 \<le> dead_threads (vcbs w x) \<longleftrightarrow> 64 \<le> dead_count w x" by (simp add: word_le_nat_alt)
  have "card {t \<in> T. cleaning_var (pcs t) = Some x} \<le> card T" by (rule card_mono [OF T(1)]) blast
  with D(1) [of x] T(2) have "dead_count w x < 2 ^ 64 - 1" by simp
  from dead_count_Suc [OF this] w' have suc: "dead_count w' x = Suc (dead_count w x)" by simp
  have other: "dead_count w' y = dead_count w y" if "y \<noteq> x" using that w' by simp
  have own: "owner u' = Some c" "set (uncounted u') = set xs" using u' by simp_all
  show "dead_count w' y \<le> 64 + card (?C (pcs(t := u')))"
  proof (cases "y = x")
    case same: True
    show ?thesis
    proof (cases "64 \<le> dead_count w x")
      case True
      then have "?C (pcs(t := u')) = insert t (?C pcs)" and "t \<notin> ?C pcs"
        using u' u t same big by auto
      then have "card (?C (pcs(t := u'))) = Suc (card (?C pcs))" using T(1) by simp
      with D(1) [of x] suc same show ?thesis by simp
    next
      case False
      with suc same show ?thesis by simp
    qed
  next
    case False
    then have "?C (pcs(t := u')) = ?C pcs" using u' u by auto
    with D(1) [of y] other [OF False] show ?thesis by simp
  qed
  have wt: "waiters w' y = waiters w y" using w' by simp
  show "length (filter (spent (pcs(t := u')) y) (waiters w' y)) \<le> dead_count w' y + card T"
  proof (cases "y = x")
    case True
    have "length (filter (spent (pcs(t := u')) y) (waiters w y)) \<le>
        Suc (length (filter (spent pcs y) (waiters w y)))"
    proof (rule length_filter_but_one [OF entries_okD(1) [OF lists_okD(2) [OF lists]]])
      show "spent pcs y d \<or> d = c" if "spent (pcs(t := u')) y d" for d
        using spent_unchanged [OF that] u by (cases "d = c") auto
    qed
    with D(2) [of y] suc True wt show ?thesis by simp
  next
    case False
    have "length (filter (spent (pcs(t := u')) y) (waiters w' y)) \<le> dead_count w y + card T"
    proof (rule fewer_spent [OF ok])
      show "spent pcs y d" if "spent (pcs(t := u')) y d" for d
        using spent_unchanged [OF that] own u False by auto
    qed (simp add: wt)
    with other [OF False] show ?thesis by simp
  qed
qed

text \<open>The entries of a list whose control blocks are still there are held by threads among \<open>T\<close>.\<close>

lemma alive_length:
  assumes "lists_ok w pcs" and "finite T" and "\<And>c. cb_alive w c \<Longrightarrow> \<exists>t \<in> T. holds (pcs t) c"
  shows "length (filter (cb_alive w) (waiters w x)) \<le> card T"
proof (rule owned_length [OF assms(2)])
  show "distinct (filter (cb_alive w) (waiters w x))"
    using entries_okD(1) [OF lists_okD(2) [OF assms(1)]] by simp
  fix c assume "c \<in> set (filter (cb_alive w) (waiters w x))"
  with assms(3) [of c] show "\<exists>t \<in> T. held (pcs t) = Some c" by (simp add: holds_iff)
qed

lemma counts_ok_cleaning:
  assumes ok: "counts_ok T w pcs" and lists: "lists_ok w pcs" and T: "finite T"
    and alive: "\<And>c. cb_alive w c \<Longrightarrow> \<exists>t \<in> T. holds (pcs t) c"
    and u: "pcs t = Cleaning c x xs" and w': "w' = set_dead_cleanup x w" and u': "u' = Dying c xs"
  shows "counts_ok T w' (pcs(t := u'))"
proof (rule counts_okI)
  fix y
  note D = counts_okD [OF ok]
  have other: "dead_count w' y = dead_count w y" if "y \<noteq> x" using that w' by simp
  have zero: "dead_count w' x = 0" using w' by simp
  show "dead_count w' y \<le> 64 + card {v \<in> T. cleaning_var ((pcs(t := u')) v) = Some y}"
  proof (cases "y = x")
    case False
    then have "{v \<in> T. cleaning_var ((pcs(t := u')) v) = Some y} =
        {v \<in> T. cleaning_var (pcs v) = Some y}" using u' u by auto
    with D(1) [of y] other [OF False] show ?thesis by simp
  qed (use zero in simp)
  show "length (filter (spent (pcs(t := u')) y) (waiters w' y)) \<le> dead_count w' y + card T"
  proof (cases "y = x")
    case True
    have "length (filter (spent (pcs(t := u')) y) (waiters w' y)) \<le> length (waiters w' y)" by simp
    also have "\<dots> \<le> card T" using alive_length [OF lists T alive, of x] w' True by simp
    finally show ?thesis by simp
  next
    case False
    have "length (filter (spent (pcs(t := u')) y) (waiters w' y)) \<le> dead_count w y + card T"
    proof (rule fewer_spent [OF ok])
      show "spent pcs y d" if "spent (pcs(t := u')) y d" for d
        using spent_unchanged [OF that] u u' by auto
    qed (use w' False in simp)
    with other [OF False] show ?thesis by simp
  qed
qed

text \<open>The remaining steps leave the counters alone.\<close>

lemma counts_ok_quiet:
  assumes ok: "counts_ok T w pcs"
    and dead: "\<And>x. dead_threads (vcbs w' x) = dead_threads (vcbs w x)"
    and cl: "cleaning_var u' = cleaning_var (pcs t)"
    and spent: "\<And>x c. c \<in> set (waiters w' x) \<Longrightarrow> spent (pcs(t := u')) x c \<Longrightarrow> spent pcs x c"
    and len: "\<And>x. length (filter (spent pcs x) (waiters w' x)) \<le>
      length (filter (spent pcs x) (waiters w x))"
  shows "counts_ok T w' (pcs(t := u'))"
proof (rule counts_okI)
  fix x
  show "dead_count w' x \<le> 64 + card {v \<in> T. cleaning_var ((pcs(t := u')) v) = Some x}"
    unfolding cleaning_same [where pcs = pcs, OF cl] dead by (rule counts_okD(1) [OF ok])
  show "length (filter (spent (pcs(t := u')) x) (waiters w' x)) \<le> dead_count w' x + card T"
    unfolding dead by (rule fewer_spent [OF ok]) (rule spent len; assumption)+
qed

lemma counts_ok_step:
  assumes step: "local_step t p0 R W w (pcs t) l w' u'" and ok: "counts_ok T w pcs"
    and lists: "lists_ok w pcs" and T: "finite T" "card T < 2 ^ 63" and t: "t \<in> T"
    and alive: "\<And>c. cb_alive w c \<Longrightarrow> \<exists>t \<in> T. holds (pcs t) c"
  shows "counts_ok T w' (pcs(t := u'))"
proof -
  from step show ?thesis
  proof (cases rule: step_list_effects)
    case neutral
    then show ?thesis by (rule neutral_counts_ok [OF _ ok])
  next
    case (register c x e todo reads a)
    have s: "\<not> spent (pcs(t := u')) x c" using register by (auto simp: spent_def)
    show ?thesis
    proof (rule counts_okI)
      fix y
      note D = counts_okD [OF ok]
      show "dead_count w' y \<le> 64 + card {v \<in> T. cleaning_var ((pcs(t := u')) v) = Some y}"
        using D(1) [of y] cleaning_same [where pcs = pcs and t = t and u' = u' and T = T and x = y]
          register by simp
      have "length (filter (spent (pcs(t := u')) y) (waiters w' y)) =
          length (filter (spent (pcs(t := u')) y) (waiters w y))"
        using register s by simp
      also have "\<dots> \<le> length (filter (spent pcs y) (waiters w y))"
      proof (rule length_filter_mono)
        show "spent pcs y d" if "spent (pcs(t := u')) y d" for d
          using spent_unchanged [OF that] register by auto
      qed
      finally show "length (filter (spent (pcs(t := u')) y) (waiters w' y)) \<le> dead_count w' y + card T"
        using D(2) [of y] register by simp
    qed
  next
    case (take x wr v)
    show ?thesis
    proof (rule counts_ok_quiet [OF ok])
      show "spent pcs y d" if "spent (pcs(t := u')) y d" for y d
        using spent_unchanged [OF that] take by auto
    qed (use take in auto)
  next
    case (dying c x xs)
    then show ?thesis by (rule counts_ok_dying [OF ok lists T _ t])
  next
    case (cleaning c x xs)
    then show ?thesis by (intro counts_ok_cleaning [OF ok lists T(1) alive])
  next
    case (enter tx)
    show ?thesis
    proof (rule counts_ok_quiet [OF ok])
      show "spent pcs y d" if "spent (pcs(t := u')) y d" for y d
        using spent_unchanged [OF that] enter by auto
    qed (use enter in auto)
  next
    case (leave c)
    show ?thesis
    proof (rule counts_ok_quiet [OF ok])
      show "spent pcs y d" if "spent (pcs(t := u')) y d" for y d
        using spent_unchanged [OF that] leave by auto
    qed (use leave in auto)
  qed
qed

subsection \<open>Runs of finitely many threads\<close>

definition active :: "tid set \<Rightarrow> sys \<Rightarrow> bool" where
  "active T s \<longleftrightarrow> (\<forall>t. t \<notin> T \<longrightarrow> pc_of s t = Idle)"

inductive mrun_by ::
    "grant \<Rightarrow> grant \<Rightarrow> tyenv \<Rightarrow> vcb_ref set \<Rightarrow> tid set \<Rightarrow> sys \<Rightarrow> label list \<Rightarrow> sys \<Rightarrow> bool"
  for may_read may_write :: grant and \<Gamma> :: tyenv and L :: "vcb_ref set" and T :: "tid set"
where
  mrun_by_nil: "active T s \<Longrightarrow> mrun_by may_read may_write \<Gamma> L T s [] s"
| mrun_by_snoc: "mrun_by may_read may_write \<Gamma> L T s ls s' \<Longrightarrow>
    mstep may_read may_write \<Gamma> L s' l s'' \<Longrightarrow> active T s'' \<Longrightarrow>
    mrun_by may_read may_write \<Gamma> L T s (ls @ [l]) s''"

lemma mrun_by_mrun: "mrun_by may_read may_write \<Gamma> L T s ls s' \<Longrightarrow> mrun may_read may_write \<Gamma> L s ls s'"
  by (induction rule: mrun_by.induct) (auto intro: mrun.intros)

lemma mrun_by_active: "mrun_by may_read may_write \<Gamma> L T s ls s' \<Longrightarrow> active T s'"
  by (induction rule: mrun_by.induct) auto

lemma pcs_update: "pc_of (s\<lparr>shared := w, thr := (thr s)(t := r)\<rparr>) = (pc_of s)(t := pc r)"
  by (simp add: fun_eq_iff)

lemma start_neutral:
  assumes "owner u' = None" and "cleaning_var u' = None" and "uncounted u' = []" and "fresh_keys u'"
    and "vcbs w' = vcbs w" and "next_cb w' = next_cb w"
  shows "neutral w Idle w' u'"
  using assms by (simp add: neutral_def)

context rwlock
begin

lemma garbage_step:
  assumes step: "mstep may_read may_write \<Gamma> L s l s'" and ok: "sys_ok \<Gamma> L s" and act: "active T s"
    and handles: "handles_ok s" and T: "finite T" "card T < 2 ^ 63"
    and inv: "lists_ok (shared s) (pc_of s)" "counts_ok T (shared s) (pc_of s)"
  shows "lists_ok (shared s') (pc_of s') \<and> counts_ok T (shared s') (pc_of s')"
  using step
proof cases
  case (m_local t w' u')
  have "pc_of s t \<noteq> Idle" using m_local(2) by (auto elim: local_step.cases)
  with act have t: "t \<in> T" unfolding active_def by blast
  have alive: "\<exists>v \<in> T. holds (pc_of s v) c" if "cb_alive (shared s) c" for c
  proof -
    from alive_held [OF handles that] obtain v where v: "holds (pc_of s v) c" by blast
    then have "pc_of s v \<noteq> Idle" by (auto simp: holds_def)
    with act v show ?thesis unfolding active_def by blast
  qed
  have "pc_of s' = (pc_of s)(t := u')" and "shared s' = w'"
    unfolding m_local(1) pcs_update by simp_all
  with lists_ok_step [OF m_local(2) inv(1) sys_okD(4) [OF ok]]
    counts_ok_step [OF m_local(2) inv(2,1) T t alive]
  show ?thesis by simp
next
  case (m_start t p w')
  have "pc_of s' = (pc_of s)(t := Run p Transaction_new [])" and w: "shared s' = w'"
    unfolding m_start(2) pcs_update by simp_all
  moreover have "neutral (shared s) (pc_of s t) w' (Run p Transaction_new [])"
    unfolding m_start(3) by (rule start_neutral)
      (use m_start in \<open>auto simp: TransactionGuard_new_def split: if_splits\<close>)
  ultimately show ?thesis
    using neutral_lists_ok [where pcs = "pc_of s"] neutral_counts_ok [where pcs = "pc_of s"] inv by simp
next
  case (m_write t v y)
  have "s' = s\<lparr>shared := shared s, thr := (thr s)(t := (thr s t)\<lparr>pc := AtomicWrite v y\<rparr>)\<rparr>"
    using m_write(2) by simp
  then have "pc_of s' = (pc_of s)(t := AtomicWrite v y)" and "shared s' = shared s"
    by (simp_all add: pcs_update fun_eq_iff)
  moreover have "neutral (shared s) (pc_of s t) (shared s) (AtomicWrite v y)"
    unfolding m_write(3) by (rule start_neutral) simp_all
  ultimately show ?thesis
    using neutral_lists_ok [where pcs = "pc_of s"] neutral_counts_ok [where pcs = "pc_of s"] inv by simp
next
  case (m_panic t p tx fs)
  have "pc_of s' = (pc_of s)(t := Idle)" and "shared s' = TransactionGuard_drop t (shared s)"
    unfolding m_panic(2) pcs_update by simp_all
  moreover have "neutral (shared s) (pc_of s t) (TransactionGuard_drop t (shared s)) Idle"
    unfolding m_panic(3) by (simp add: neutral_def)
  ultimately show ?thesis
    using neutral_lists_ok [where pcs = "pc_of s"] neutral_counts_ok [where pcs = "pc_of s"] inv by simp
next
  case (m_spurious t c reads)
  have "pc_of s' = (pc_of s)(t := Asleep c reads)" and "shared s' = shared s"
    unfolding m_spurious(2) by (simp_all add: fun_eq_iff)
  moreover have "neutral (shared s) (pc_of s t) (shared s) (Asleep c reads)"
    unfolding m_spurious(3) by (simp add: neutral_def)
  ultimately show ?thesis
    using neutral_lists_ok [where pcs = "pc_of s"] neutral_counts_ok [where pcs = "pc_of s"] inv by simp
qed

lemma garbage_run:
  assumes "mrun_by may_read may_write \<Gamma> L T s ls s'" and "initial \<Gamma> L s"
    and "\<And>x. dead_threads (vcbs (shared s) x) = 0" and "finite T" and "card T < 2 ^ 63"
  shows "lists_ok (shared s') (pc_of s') \<and> counts_ok T (shared s') (pc_of s')"
  using assms
proof induction
  case (mrun_by_nil s)
  then show ?case
    by (simp add: initial_def lists_ok_def owned_ok_def entries_ok_def listed_ok_def counts_ok_def)
next
  case (mrun_by_snoc s ls s' l s'')
  have "sys_ok \<Gamma> L s'"
    using simulation [OF mrun_by_mrun [OF mrun_by_snoc.hyps(1)] mrun_by_snoc.prems(1)] by blast
  moreover have "handles_ok s'"
    by (rule handles_ok_run [OF mrun_by_mrun [OF mrun_by_snoc.hyps(1)] mrun_by_snoc.prems(1)])
  moreover have "lists_ok (shared s') (pc_of s') \<and> counts_ok T (shared s') (pc_of s')"
    by (rule mrun_by_snoc.IH [OF mrun_by_snoc.prems])
  ultimately show ?case
    using garbage_step [OF mrun_by_snoc.hyps(2) _ mrun_by_active [OF mrun_by_snoc.hyps(1)]
        _ mrun_by_snoc.prems(3,4)] by blast
qed

end

lemma length_filter_split: "length xs = length (filter P xs) + length (filter (\<lambda>c. \<not> P c) xs)"
  by (induction xs) auto

text \<open>
  C13. \<^verbatim>\<open>set_dead\<close> keeps the waiting lists short: in any run in which at most \<open>n\<close> threads take part,
  however long, no waiting list ever holds more than \<open>64 + 3 n\<close> entries, none of them twice, and no
  dead counter exceeds \<open>64 + n\<close>, so it never wraps around.
\<close>

theorem waiting_lists_are_bounded:
  assumes "rwlock may_read may_write" and "initial \<Gamma> L s"
    and "\<And>x. dead_threads (vcbs (shared s) x) = 0" and "finite T" and "card T < 2 ^ 63"
    and "mrun_by may_read may_write \<Gamma> L T s ls s'"
  shows "length (waiters (shared s') x) \<le> 64 + 3 * card T \<and> distinct (waiters (shared s') x) \<and>
    unat (dead_threads (vcbs (shared s') x)) \<le> 64 + card T"
proof -
  let ?w = "shared s'" and ?P = "spent (pc_of s') x"
  have lists: "lists_ok ?w (pc_of s')" and counts: "counts_ok T ?w (pc_of s')"
    using rwlock.garbage_run [OF assms(1,6,2,3,4,5)] by blast+
  note dist = entries_okD(1) [OF lists_okD(2) [OF lists]]
  have "card {t \<in> T. cleaning_var (pc_of s' t) = Some x} \<le> card T" by (rule card_mono [OF assms(4)]) blast
  with counts_okD(1) [OF counts, of x] have d: "dead_count ?w x \<le> 64 + card T" by simp
  have "length (filter (\<lambda>c. \<not> ?P c) (waiters ?w x)) \<le> card T"
  proof (rule owned_length [OF assms(4)])
    show "distinct (filter (\<lambda>c. \<not> ?P c) (waiters ?w x))" using dist by simp
    fix c assume "c \<in> set (filter (\<lambda>c. \<not> ?P c) (waiters ?w x))"
    then obtain t where t: "owner (pc_of s' t) = Some c" by (auto simp: spent_def)
    then have "pc_of s' t \<noteq> Idle" by auto
    with mrun_by_active [OF assms(6)] have "t \<in> T" unfolding active_def by blast
    with t show "\<exists>t \<in> T. owner (pc_of s' t) = Some c" by blast
  qed
  with counts_okD(2) [OF counts, of x] d length_filter_split [of "waiters ?w x" ?P] dist [of x]
  show ?thesis by linarith
qed

text \<open>Two threads: one sleeps, the other one has registered and is about to compare.\<close>

lemma schedule_mrun_by:
  "run_schedule ts evs s = Some (ls, s') \<Longrightarrow> idle_but ts s \<Longrightarrow> list_all (event_ok \<Gamma> L) evs \<Longrightarrow>
    mrun_by eager_read writer_first_write \<Gamma> L (set ts) s ls s'"
proof (induction evs arbitrary: ls s' rule: rev_induct)
  case Nil
  then show ?case by (simp add: mrun_by_nil active_def idle_but_def)
next
  case (snoc ev evs)
  from snoc.prems(1) obtain ls1 s1 l where 1: "run_schedule ts evs s = Some (ls1, s1)"
    and 2: "run_event ts ev s1 = Some (l, s')" and ls: "ls = ls1 @ [l]"
    by (auto simp: run_schedule_append split: option.splits)
  have ok: "list_all (event_ok \<Gamma> L) evs" and ev: "event_ok \<Gamma> L ev" using snoc.prems(3) by simp_all
  from schedule_mrun [OF 1 snoc.prems(2) ok] have "idle_but ts s1" by blast
  from run_event_mstep [OF 2 this ev] have "mstep eager_read writer_first_write \<Gamma> L s1 l s'"
    and "active (set ts) s'" by (simp_all add: active_def idle_but_def)
  with snoc.IH [OF 1 snoc.prems(2) ok] ls show ?case by (auto intro: mrun_by_snoc)
qed

definition two_wait_events :: "event list" where
  "two_wait_events = Start 1 block_prog # gos 1 6 @ Start 2 block_prog # gos 2 3"

lemma two_wait_run:
  "map_option (\<lambda>(ls, s). waiters (shared s) (VCB 16)) (run_schedule [1, 2] two_wait_events demo_sys) =
   Some [0, 1]"
  by code_simp

theorem waiting_lists_are_bounded_witness:
  "\<exists>ls s. mrun_by eager_read writer_first_write demo_types {VCB 16, VCB 64} {1, 2} demo_sys ls s \<and>
    waiters (shared s) (VCB 16) = [0, 1] \<and> length (waiters (shared s) (VCB 16)) \<le> 70 \<and>
    unat (dead_threads (vcbs (shared s) (VCB 16))) \<le> 66"
proof -
  from two_wait_run obtain ls s where r: "run_schedule [1, 2] two_wait_events demo_sys = Some (ls, s)"
    and w: "waiters (shared s) (VCB 16) = [0, 1]" by auto
  have "list_all (event_ok demo_types {VCB 16, VCB 64}) two_wait_events"
    using block_put_ok by (simp add: two_wait_events_def gos_def list_all_iff)
  from schedule_mrun_by [OF r demo_idle this] have run:
    "mrun_by eager_read writer_first_write demo_types {VCB 16, VCB 64} {1, 2} demo_sys ls s" by simp
  have "dead_threads (vcbs (shared demo_sys) x) = 0" for x
    by (simp add: demo_sys_def demo_world_def empty_world_def TVar_new_def VarControlBlock_new_def
        Let_def split_def)
  from waiting_lists_are_bounded [OF eager_lock.rwlock_axioms demo_initial this _ _ run, of "VCB 16"]
  show ?thesis using run w by (intro exI [of _ ls] exI [of _ s]) simp
qed

end
