(* ===== verification/Boxes.thy ===== *)
theory Boxes
  imports Concurrency
begin

text \<open>
  Who holds the boxes of values, the \<^verbatim>\<open>Arc<dyn Any>\<close>s. A box is held by the variable whose value it is
  and by the threads that can still use it: through the log of a transaction, the backups of \<^verbatim>\<open>or\<close>,
  the values a commit is about to store, or the originals \<^verbatim>\<open>wait_for_change\<close> has not compared yet. The code
  may hold a box a little longer, never shorter. What follows from it is that the model of the heap,
  which neither frees a box nor uses an address twice, is right about code that does both.
\<close>

subsection \<open>Held boxes\<close>

fun entry_arcs :: "LogVar \<Rightarrow> arc set" where
  "entry_arcs (Read v) = {v}"
| "entry_arcs (Write w) = {w}"
| "entry_arcs (ReadWrite r w) = {r, w}"
| "entry_arcs (ReadObsolete r) = {r}"
| "entry_arcs (ReadObsoleteWrite r w) = {r, w}"

definition log_arcs :: "(vcb_ref \<times> LogVar) list \<Rightarrow> arc set" where
  "log_arcs m = (\<Union>(x, e) \<in> set m. entry_arcs e)"

fun frame_arcs :: "frame \<Rightarrow> arc set" where
  "frame_arcs (First c p q k) = log_arcs (vars c)"
| "frame_arcs (Second f k) = log_arcs (vars f)"

fun pc_arcs :: "pc \<Rightarrow> arc set" where
  "pc_arcs (Run p tx fs) = log_arcs (vars tx) \<union> \<Union> (set (map frame_arcs fs))"
| "pc_arcs (Locking dn todo rs ws wr v) = log_arcs dn \<union> log_arcs todo \<union> fst ` set ws"
| "pc_arcs (DropReads rs ws wr v) = fst ` set ws"
| "pc_arcs (Storing ws wr v) = fst ` set ws"
| "pc_arcs (Register c todo reads) = log_arcs todo"
| "pc_arcs (Compare c x a todo reads) = insert a (log_arcs todo)"
| "pc_arcs _ = {}"

definition held_boxes :: "sys \<Rightarrow> arc set" where
  "held_boxes s =
     value_arc (shared s) ` set (vcb_live (shared s)) \<union> (\<Union>t. pc_arcs (pc_of s t))"

lemma log_arcs_simps [simp]:
  "log_arcs [] = {}"
  "log_arcs ((x, e) # m) = entry_arcs e \<union> log_arcs m"
  "log_arcs (m @ n) = log_arcs m \<union> log_arcs n"
  by (auto simp: log_arcs_def)

lemma entry_arcs_parts:
  "into_read_value e = Some a \<Longrightarrow> a \<in> entry_arcs e"
  "need_of e = WriteLock a orig \<Longrightarrow> a \<in> entry_arcs e"
  by (cases e; auto)+

lemma log_arcs_iter [simp]: "log_arcs (btm_iter m) = log_arcs m"
  by (simp add: btm_iter_def)

lemma btm_get_mem: "btm_ok m \<Longrightarrow> (x, e) \<in> set m \<longleftrightarrow> btm_get m x = Some e"
  using btm.iter_mem [of m x e] by (simp add: btm_iter_def)

lemma log_arcs_get: "btm_get m x = Some e \<Longrightarrow> entry_arcs e \<subseteq> log_arcs m"
  by (auto simp: btm_get_def log_arcs_def dest!: map_of_SomeD)

lemma log_arcs_insert: "log_arcs (btm_insert x e m) \<subseteq> entry_arcs e \<union> log_arcs m"
  by (induction x e m rule: btm_insert.induct) auto

lemma read_entry_arcs:
  "entry_arcs (snd (read_entry w x m)) \<subseteq> insert (value_arc w x) (log_arcs m)"
  "fst (read_entry w x m) \<in> entry_arcs (snd (read_entry w x m))"
  "btm_get m x \<noteq> None \<Longrightarrow> entry_arcs (snd (read_entry w x m)) \<subseteq> log_arcs m"
proof -
  have read: "entry_arcs (snd (LogVar_read e)) = entry_arcs e"
    "fst (LogVar_read e) \<in> entry_arcs e" for e by (cases e; auto)+
  show "entry_arcs (snd (read_entry w x m)) \<subseteq> insert (value_arc w x) (log_arcs m)"
    and "fst (read_entry w x m) \<in> entry_arcs (snd (read_entry w x m))"
    and "btm_get m x \<noteq> None \<Longrightarrow> entry_arcs (snd (read_entry w x m)) \<subseteq> log_arcs m"
    using log_arcs_get [of m x] by (auto simp: read_entry_def read split: option.splits)
qed

lemma read_boxes:
  assumes "Transaction_read v (w, tx) = (r, w', tx')"
  shows "log_arcs (vars tx') \<subseteq> insert (value_arc w (control_block v)) (log_arcs (vars tx))"
proof -
  have "vars tx' = btm_insert (control_block v) (snd (read_entry w (control_block v) (vars tx))) (vars tx)"
    using assms by (auto simp: Transaction_read_eq split: may_panic.splits)
  with log_arcs_insert [of "control_block v" _ "vars tx"] read_entry_arcs(1) show ?thesis by fastforce
qed

lemma write_boxes:
  assumes "Transaction_write v y (w, tx) = (r, w', tx')"
  shows "log_arcs (vars tx') \<subseteq> insert (next_arc (heap w)) (log_arcs (vars tx))"
proof -
  let ?x = "control_block v" and ?a = "next_arc (heap w)"
  let ?e = "case btm_get (vars tx) ?x of Some e \<Rightarrow> LogVar_write e ?a | None \<Rightarrow> Write ?a"
  have upd: "entry_arcs (LogVar_write e ?a) \<subseteq> insert ?a (entry_arcs e)" for e
    by (cases e) auto
  have "entry_arcs ?e \<subseteq> insert ?a (log_arcs (vars tx))"
  proof (cases "btm_get (vars tx) ?x")
    case (Some e)
    with log_arcs_get [OF Some] upd [of e] show ?thesis by auto
  qed simp
  moreover have "vars tx' = btm_insert ?x ?e (vars tx)"
    using assms by (auto simp: Transaction_write_eq write_entry_def)
  ultimately show ?thesis using log_arcs_insert [of ?x ?e "vars tx"] by auto
qed

lemma combine_boxes: "log_arcs (vars (Transaction_combine tx f)) \<subseteq> log_arcs (vars tx) \<union> log_arcs (vars f)"
proof -
  have "log_arcs (fold (\<lambda>(x, e) m. case obsolete e of None \<Rightarrow> m | Some v \<Rightarrow> btm_or_insert x v m) xs m) \<subseteq>
      log_arcs m \<union> log_arcs xs" for xs m
  proof (induction xs arbitrary: m)
    case (Cons xe xs)
    obtain x e where xe: "xe = (x, e)" by (cases xe)
    let ?m = "case obsolete e of None \<Rightarrow> m | Some v \<Rightarrow> btm_or_insert x v m"
    have "entry_arcs v \<subseteq> entry_arcs e" if "obsolete e = Some v" for v
      using that by (cases e) (auto simp: obsolete_def)
    then have "log_arcs ?m \<subseteq> log_arcs m \<union> entry_arcs e"
      using log_arcs_insert [of x _ m]
      by (fastforce simp: btm_or_insert_def split: option.splits)
    with Cons.IH [of ?m] show ?case by (auto simp: xe)
  qed simp
  from this [of "vars f" "vars tx"] show ?thesis
    by (simp add: Transaction_combine_def btm_iter_def)
qed

subsection \<open>One step\<close>

text \<open>A thread gets at a box by reading a variable or by making it.\<close>

lemma step_boxes:
  assumes "local_step t p0 R W w u l w' u'" and "a \<in> pc_arcs u'"
  shows "a \<in> pc_arcs u \<or> a = next_arc (heap w) \<and> allocated (heap w') a \<or>
    (\<exists>v k tx fs. u = Run (ReadVar v k) tx fs \<and> a = value_arc w (control_block v))"
  using assms
proof (cases rule: local_step.cases)
  case (run_write v y tx r tx' p fs)
  then show ?thesis
    using assms(2) write_boxes [OF run_write(4)] write_world [OF run_write(4)] by auto
next
  case (second_ok x tx f k fs)
  then show ?thesis using assms(2) combine_boxes [of tx f] by auto
next
  case (second_retry tx f k fs)
  then show ?thesis using assms(2) combine_boxes [of tx f] by auto
qed (auto dest!: read_boxes dest: entry_arcs_parts simp: Transaction_new_def split: if_splits)

text \<open>A variable gets a new value from a commit, or from a new box.\<close>

lemma step_values:
  assumes "local_step t p0 R W w u l w' u'"
  shows "value_arc w' x = value_arc w x \<or> value_arc w' x \<in> pc_arcs u \<or>
    value_arc w' x = next_arc (heap w) \<and> allocated (heap w') (value_arc w' x)"
  using assms
  by (cases rule: local_step.cases)
    (auto dest!: read_world write_world cb_alloc_world simp: write_back_def split: if_splits)

text \<open>The variables \<^verbatim>\<open>wait_for_change\<close> has still to register with or to compare.\<close>

fun waits_for :: "pc \<Rightarrow> vcb_ref set" where
  "waits_for (Register c todo reads) = fst ` set todo"
| "waits_for (Compare c x a todo reads) = insert x (fst ` set todo)"
| "waits_for _ = {}"

lemma step_waits_for:
  assumes "local_step t p0 R W w u l w' u'" and "x \<in> waits_for u'"
  shows "x \<in> waits_for u \<or> (\<exists>tx. u = Run (Done (Inl Retry)) tx [] \<and> x \<in> fst ` set (vars tx))"
  using assms by (cases rule: local_step.cases) (auto simp: btm_iter_def split: if_splits)

subsection \<open>The invariant\<close>

definition boxes_ok :: "vcb_ref set \<Rightarrow> sys \<Rightarrow> bool" where
  "boxes_ok L s \<longleftrightarrow>
     (\<forall>a \<in> held_boxes s. allocated (heap (shared s)) a) \<and> (\<forall>t. waits_for (pc_of s t) \<subseteq> L)"

lemma held_boxesI:
  "x \<in> set (vcb_live (shared s)) \<Longrightarrow> value_arc (shared s) x \<in> held_boxes s"
  "a \<in> pc_arcs (pc_of s t) \<Longrightarrow> a \<in> held_boxes s"
  by (auto simp: held_boxes_def)

lemma boxes_okD:
  assumes "boxes_ok L s"
  shows "a \<in> held_boxes s \<Longrightarrow> allocated (heap (shared s)) a" and "waits_for (pc_of s t) \<subseteq> L"
  using assms unfolding boxes_ok_def by blast+

lemma held_boxes_update:
  assumes "\<And>x. x \<in> set (vcb_live w') \<Longrightarrow> value_arc w' x \<in> H" and "pc_arcs (pc r) \<subseteq> H"
    and "\<And>u. pc_arcs (pc_of s u) \<subseteq> H"
  shows "held_boxes (s\<lparr>shared := w', thr := (thr s)(t := r)\<rparr>) \<subseteq> H"
proof -
  have "pc_arcs (pc_of (s\<lparr>shared := w', thr := (thr s)(t := r)\<rparr>) u) \<subseteq> H" for u
    using assms(2,3) by simp
  with assms(1) show ?thesis unfolding held_boxes_def by auto
qed

text \<open>What is held after a step was held before it, or is new. A step makes at most one box.\<close>

definition new_box :: "world \<Rightarrow> world \<Rightarrow> arc set" where
  "new_box w w' = {a. a = next_arc (heap w) \<and> allocated (heap w') a}"

lemma held_boxes_stepped:
  assumes ok: "sys_ok \<Gamma> L s"
    and step: "local_step t (closure (thr s t)) R W (shared s) (pc_of s t) l w' u'"
  shows "held_boxes (stepped s t w' u') \<subseteq> held_boxes s \<union> new_box (shared s) w'"
proof (rule held_boxes_update)
  show "value_arc w' x \<in> held_boxes s \<union> new_box (shared s) w'" if "x \<in> set (vcb_live w')" for x
    using step_values [OF step, of x] step_frame [OF step] that held_boxesI [of _ s]
    by (auto simp: new_box_def)
  show "pc_arcs (pc_of s u) \<subseteq> held_boxes s \<union> new_box (shared s) w'" for u
    using held_boxesI(2) by blast
  show "pc_arcs (pc ((thr s t)\<lparr>pc := u'\<rparr>)) \<subseteq> held_boxes s \<union> new_box (shared s) w'"
  proof
    fix a assume "a \<in> pc_arcs (pc ((thr s t)\<lparr>pc := u'\<rparr>))"
    then have "a \<in> pc_arcs u'" by simp
    from step_boxes [OF step this] show "a \<in> held_boxes s \<union> new_box (shared s) w'"
    proof (elim disjE exE conjE)
      fix v k tx fs
      assume u: "pc_of s t = Run (ReadVar v k) tx fs" and a: "a = value_arc (shared s) (control_block v)"
      have "control_block v \<in> set (vcb_live (shared s))"
        using sys_okD(2) [OF ok] sys_okD(4) [OF ok, of t] u by (simp add: var_ok_def)
      then show ?thesis unfolding a using held_boxesI(1) by blast
    qed (auto simp: new_box_def intro: held_boxesI(2))
  qed
qed

lemma waits_for_stepped:
  assumes ok: "sys_ok \<Gamma> L s" and boxes: "boxes_ok L s"
    and step: "local_step t (closure (thr s t)) R W (shared s) (pc_of s t) l w' u'"
  shows "waits_for u' \<subseteq> L"
proof
  fix x assume "x \<in> waits_for u'"
  from step_waits_for [OF step this] show "x \<in> L"
  proof (elim disjE exE conjE)
    fix tx assume u: "pc_of s t = Run (Done (Inl Retry)) tx []" and x: "x \<in> fst ` set (vars tx)"
    have "log_ok \<Gamma> L (shared s) (vars tx)" using sys_okD(4) [OF ok, of t] u by simp
    with x log_okD [OF this] show "x \<in> L" by (fastforce simp: btm_get_mem)
  qed (use boxes_okD(2) [OF boxes, of t] in blast)
qed

lemma mstep_extends:
  assumes "mstep may_read may_write \<Gamma> L s l s'"
  shows "extends (heap (shared s)) (heap (shared s'))" and "vcb_live (shared s') = vcb_live (shared s)"
  using assms by (cases; auto dest: step_frame simp: TransactionGuard_new_def split: if_splits)+

lemma mstep_boxes:
  assumes step: "mstep may_read may_write \<Gamma> L s l s'" and ok: "sys_ok \<Gamma> L s" and boxes: "boxes_ok L s"
  shows "held_boxes s' \<subseteq> held_boxes s \<union> new_box (shared s) (shared s')" and "boxes_ok L s'"
proof -
  note I = held_boxesI [of _ s]
  have "held_boxes s' \<subseteq> held_boxes s \<union> new_box (shared s) (shared s') \<and> (\<forall>t. waits_for (pc_of s' t) \<subseteq> L)"
    using step
  proof cases
    case (m_local t w' u')
    from held_boxes_stepped [OF ok m_local(2)] waits_for_stepped [OF ok boxes m_local(2)]
      boxes_okD(2) [OF boxes]
    show ?thesis unfolding m_local(1) by simp
  next
    case (m_start t p w')
    have "held_boxes s' \<subseteq> held_boxes s"
      unfolding m_start(2)
      by (rule held_boxes_update)
        (use m_start I in \<open>auto simp: TransactionGuard_new_def Transaction_new_def split: if_splits\<close>)
    then show ?thesis unfolding m_start(2) using boxes_okD(2) [OF boxes] by auto
  next
    case (m_write t v y)
    have "held_boxes (s\<lparr>shared := shared s, thr := (thr s)(t := (thr s t)\<lparr>pc := AtomicWrite v y\<rparr>)\<rparr>) \<subseteq> held_boxes s"
      by (rule held_boxes_update) (use I in auto)
    then show ?thesis unfolding m_write(2) using boxes_okD(2) [OF boxes] by auto
  next
    case (m_panic t p tx fs)
    have "held_boxes s' \<subseteq> held_boxes s"
      unfolding m_panic(2) by (rule held_boxes_update) (use I in auto)
    then show ?thesis unfolding m_panic(2) using boxes_okD(2) [OF boxes] by auto
  next
    case (m_spurious t c reads)
    have "held_boxes (s\<lparr>shared := shared s, thr := (thr s)(t := (thr s t)\<lparr>pc := Asleep c reads\<rparr>)\<rparr>) \<subseteq> held_boxes s"
      by (rule held_boxes_update) (use I in auto)
    then show ?thesis unfolding m_spurious(2) using boxes_okD(2) [OF boxes] by auto
  qed
  then show sub: "held_boxes s' \<subseteq> held_boxes s \<union> new_box (shared s) (shared s')" and "boxes_ok L s'"
    using boxes_okD(1) [OF boxes] extends_allocated [OF mstep_extends(1) [OF step]]
    unfolding boxes_ok_def new_box_def by blast+
qed

lemma initial_boxes:
  assumes "initial \<Gamma> L s"
  shows "boxes_ok L s" and "held_boxes s = value_arc (shared s) ` L"
  using assms by (auto simp: boxes_ok_def held_boxes_def initial_def world_ok_def arc_typed_def)

context rwlock
begin

lemma boxes_run:
  assumes "mrun may_read may_write \<Gamma> L s ls s'" and "sys_ok \<Gamma> L s" and "boxes_ok L s"
  shows "sys_ok \<Gamma> L s' \<and> boxes_ok L s' \<and> extends (heap (shared s)) (heap (shared s')) \<and>
    held_boxes s' \<inter> {a. allocated (heap (shared s)) a} \<subseteq> held_boxes s"
  using assms
proof induction
  case (mrun_snoc s ls s' l s'')
  then have IH: "sys_ok \<Gamma> L s'" "boxes_ok L s'" "extends (heap (shared s)) (heap (shared s'))"
    "held_boxes s' \<inter> {a. allocated (heap (shared s)) a} \<subseteq> held_boxes s" by blast+
  note step = mrun_snoc.hyps(2)
  note boxes = mstep_boxes [OF step IH(1,2)]
  have "a \<in> held_boxes s" if "a \<in> held_boxes s''" and "allocated (heap (shared s)) a" for a
  proof -
    from that(1) boxes(1) consider "a \<in> held_boxes s'" | "a = next_arc (heap (shared s'))"
      by (auto simp: new_box_def)
    then show ?thesis using extends_allocated [OF IH(3) that(2)] IH(4) that(2) by cases auto
  qed
  then show ?case
    using sys_ok_step [OF step IH(1)] boxes(2) extends_trans [OF IH(3) mstep_extends(1) [OF step]] by blast
qed simp

end

text \<open>
  C16. A box that nobody holds any more stays released, in every concurrent run: whatever is held later and
  existed at an earlier moment was held at that moment, so a box can be freed when its last holder
  lets go of it. Held boxes have been made and not been freed; and when no thread is in a transaction or
  about to write, the boxes held are exactly the current values of the variables, nothing leaks from
  the logs of committed, failed or panicked transactions.
\<close>

theorem released_boxes_stay_released:
  assumes "rwlock may_read may_write" and "initial \<Gamma> L s"
    and "mrun may_read may_write \<Gamma> L s ls s1" and "mrun may_read may_write \<Gamma> L s1 ls' s2"
  shows "held_boxes s2 \<inter> {a. allocated (heap (shared s1)) a} \<subseteq> held_boxes s1 \<and>
    held_boxes s2 \<subseteq> {a. allocated (heap (shared s2)) a} \<and>
    ((\<forall>t. pc_of s2 t = Idle) \<longrightarrow> held_boxes s2 = value_arc (shared s2) ` L)"
proof -
  note run = rwlock.boxes_run [OF assms(1)]
  have 1: "sys_ok \<Gamma> L s1" "boxes_ok L s1"
    using run [OF assms(3) initial_sys_ok [OF assms(2)] initial_boxes(1) [OF assms(2)]] by blast+
  from run [OF assms(4) 1]
  have 2: "sys_ok \<Gamma> L s2" "boxes_ok L s2"
    and r: "held_boxes s2 \<inter> {a. allocated (heap (shared s1)) a} \<subseteq> held_boxes s1" by blast+
  have "held_boxes s2 = value_arc (shared s2) ` L" if "\<forall>t. pc_of s2 t = Idle"
    using that sys_okD(2) [OF 2(1)] by (simp add: held_boxes_def)
  then show ?thesis using r boxes_okD(1) [OF 2(2)] by blast
qed

subsection \<open>Addresses that are used again\<close>

text \<open>
  The boxes of the model are numbered in the order they are made. An allocator gives them addresses: a
  held box keeps its own, and a new box gets any that no held box has, such as one of a box
  released before.
\<close>

inductive placed_run ::
    "grant \<Rightarrow> grant \<Rightarrow> tyenv \<Rightarrow> vcb_ref set \<Rightarrow> sys \<Rightarrow> (arc \<Rightarrow> nat) \<Rightarrow> label list \<Rightarrow> sys \<Rightarrow> (arc \<Rightarrow> nat) \<Rightarrow> bool"
  for may_read may_write :: grant and \<Gamma> :: tyenv and L :: "vcb_ref set"
where
  placed_nil: "placed_run may_read may_write \<Gamma> L s A [] s A"
| placed_snoc: "placed_run may_read may_write \<Gamma> L s A ls s' A' \<Longrightarrow> mstep may_read may_write \<Gamma> L s' l s'' \<Longrightarrow>
    (\<And>a. a \<in> held_boxes s' \<Longrightarrow> A'' a = A' a) \<Longrightarrow>
    (\<And>a. a \<in> held_boxes s'' \<Longrightarrow> a \<notin> held_boxes s' \<Longrightarrow> A'' a \<notin> A' ` held_boxes s') \<Longrightarrow>
    placed_run may_read may_write \<Gamma> L s A (ls @ [l]) s'' A''"

text \<open>The comparison \<^verbatim>\<open>Arc::ptr_eq\<close> a thread makes next: with the value of which variable, of which box.\<close>

fun compares :: "pc \<Rightarrow> (vcb_ref \<times> arc) option" where
  "compares (Locking dn ((x, Read a) # todo) rs ws wr v) = Some (x, a)"
| "compares (Locking dn ((x, ReadWrite a b) # todo) rs ws wr v) = Some (x, a)"
| "compares (Compare c x a todo reads) = Some (x, a)"
| "compares _ = None"

lemma compares_held:
  assumes "sys_ok \<Gamma> L s" and "boxes_ok L s" and "compares (pc_of s t) = Some (x, a)"
  shows "a \<in> held_boxes s" and "value_arc (shared s) x \<in> held_boxes s"
proof -
  have "a \<in> pc_arcs (pc_of s t) \<and> x \<in> L"
    using assms(3) sys_okD(4) [OF assms(1), of t] boxes_okD(2) [OF assms(2), of t]
    by (cases "pc_of s t" rule: compares.cases) (auto simp: log_ok_def btm_get_mem [symmetric])
  then show "a \<in> held_boxes s" and "value_arc (shared s) x \<in> held_boxes s"
    using sys_okD(2) [OF assms(1)] held_boxesI by blast+
qed

context rwlock
begin

lemma placed_inj:
  assumes "placed_run may_read may_write \<Gamma> L s A ls s' A'" and "sys_ok \<Gamma> L s" and "boxes_ok L s"
    and "inj_on A (held_boxes s)"
  shows "sys_ok \<Gamma> L s' \<and> boxes_ok L s' \<and> inj_on A' (held_boxes s')"
  using assms
proof induction
  case (placed_snoc s A ls s' A' l s'' A'')
  then have IH: "sys_ok \<Gamma> L s'" "boxes_ok L s'" "inj_on A' (held_boxes s')" by blast+
  note step = placed_snoc.hyps(2) and old = placed_snoc.hyps(3) and new = placed_snoc.hyps(4)
  note boxes = mstep_boxes [OF step IH(1,2)]
  have one: "a = next_arc (heap (shared s'))" if "a \<in> held_boxes s''" "a \<notin> held_boxes s'" for a
    using boxes(1) that by (auto simp: new_box_def)
  have "inj_on A'' (held_boxes s'')"
  proof (rule inj_onI)
    fix a b assume ab: "a \<in> held_boxes s''" "b \<in> held_boxes s''" "A'' a = A'' b"
    consider "a \<in> held_boxes s'" "b \<in> held_boxes s'" | "a \<notin> held_boxes s'" "b \<in> held_boxes s'"
      | "a \<in> held_boxes s'" "b \<notin> held_boxes s'" | "a \<notin> held_boxes s'" "b \<notin> held_boxes s'" by blast
    then show "a = b"
    proof cases
      case 1
      with ab(3) old IH(3) show ?thesis by (auto dest: inj_onD)
    next
      case 2
      with new [OF ab(1)] old [of b] ab(3) show ?thesis by auto
    next
      case 3
      with new [OF ab(2)] old [of a] ab(3) show ?thesis by auto
    next
      case 4
      with one [OF ab(1)] one [OF ab(2)] show ?thesis by simp
    qed
  qed
  with sys_ok_step [OF step IH(1)] boxes(2) show ?case by blast
qed simp

end

text \<open>
  C14. No ABA: although addresses are used again, every pointer comparison of \<^verbatim>\<open>commit\<close> and
  \<^verbatim>\<open>wait_for_change\<close> tells whether the variable still holds the very box that was read. In a run whose
  boxes get any addresses that no held box has, held boxes have different addresses, and the
  box compared with and the current value of the variable are both held.
\<close>

theorem comparisons_tell_boxes_apart:
  assumes "rwlock may_read may_write" and "initial \<Gamma> L s" and "inj_on A (value_arc (shared s) ` L)"
    and "placed_run may_read may_write \<Gamma> L s A ls s' A'"
  shows "inj_on A' (held_boxes s') \<and>
    (compares (pc_of s' t) = Some (x, a) \<longrightarrow>
      (A' a = A' (value_arc (shared s') x) \<longleftrightarrow> a = value_arc (shared s') x))"
proof -
  from rwlock.placed_inj [OF assms(1,4) initial_sys_ok [OF assms(2)] initial_boxes(1) [OF assms(2)]]
    initial_boxes(2) [OF assms(2)] assms(3)
  have ok: "sys_ok \<Gamma> L s'" "boxes_ok L s'" and inj: "inj_on A' (held_boxes s')" by simp_all
  show ?thesis using inj compares_held [OF ok] inj_on_eq_iff [OF inj] by blast
qed

subsection \<open>A released box whose address is used again\<close>

text \<open>
  Thread 2 reads 42 and is about to validate what it read. Meanwhile thread 1 writes three times: the box
  of its first value is released by the second write, and the third one gets its address.
\<close>

definition reuse_events :: "event list" where
  "reuse_events = Start 2 incr_prog # gos 2 3 @
     [Put 1 demo_x (VInt 7), Go 1, Put 1 demo_x (VInt 8), Go 1, Put 1 demo_x (VInt 9)]"

definition held_by :: "tid list \<Rightarrow> sys \<Rightarrow> arc set" where
  "held_by ts s = value_arc (shared s) ` set (vcb_live (shared s)) \<union> (\<Union>t \<in> set ts. pc_arcs (pc_of s t))"

lemma held_by_eq: "idle_but ts s \<Longrightarrow> held_boxes s = held_by ts s"
  by (force simp: held_boxes_def held_by_def idle_but_def)

lemma reuse_run:
  "map_option (\<lambda>(ls, s). (held_by [1, 2] s = {0, 1, 2, 4}, next_arc (heap (shared s)),
       map_option (\<lambda>(l, s'). (held_by [1, 2] s' = {0, 1, 2, 5}, compares (pc_of s' 2),
           value_arc (shared s') (VCB 16), value_arc (shared s') (VCB 64)))
         (run_event [1, 2] (Go 1) s)))
     (run_schedule [1, 2] reuse_events demo_sys) =
   Some (True, 5, Some (True, Some (VCB 16, 0), 5, 1))"
  by code_simp

lemma reuse_mrun:
  obtains ls s l s' where "mrun eager_read writer_first_write demo_types {VCB 16, VCB 64} demo_sys ls s"
    and "mstep eager_read writer_first_write demo_types {VCB 16, VCB 64} s l s'"
    and "held_boxes s = {0, 1, 2, 4}" and "held_boxes s' = {0, 1, 2, 5}" and "next_arc (heap (shared s)) = 5"
    and "compares (pc_of s' 2) = Some (VCB 16, 0)" and "value_arc (shared s') (VCB 16) = 5"
proof -
  from reuse_run obtain ls s l s' where r: "run_schedule [1, 2] reuse_events demo_sys = Some (ls, s)"
    and e: "run_event [1, 2] (Go 1) s = Some (l, s')"
    and h: "held_by [1, 2] s = {0, 1, 2, 4}" "held_by [1, 2] s' = {0, 1, 2, 5}"
      "next_arc (heap (shared s)) = 5" "compares (pc_of s' 2) = Some (VCB 16, 0)"
      "value_arc (shared s') (VCB 16) = 5"
    by (auto simp del: run_event.simps)
  have "list_all (event_ok demo_types {VCB 16, VCB 64}) reuse_events"
    by (auto simp: reuse_events_def gos_def incr_prog_def var_ok_def demo_x_def demo_types_def
        list_all_iff)
  from schedule_mrun [OF r demo_idle this]
  have run: "mrun eager_read writer_first_write demo_types {VCB 16, VCB 64} demo_sys ls s"
    and idle: "idle_but [1, 2] s" by blast+
  from run_event_mstep [OF e idle, of demo_types "{VCB 16, VCB 64}"]
  have step: "mstep eager_read writer_first_write demo_types {VCB 16, VCB 64} s l s'"
    and idle': "idle_but [1, 2] s'" by simp_all
  show thesis
    by (rule that [OF run step]) (use h in \<open>simp_all add: held_by_eq [OF idle] held_by_eq [OF idle']\<close>)
qed

theorem released_boxes_stay_released_witness:
  "\<exists>ls s l s'. mrun eager_read writer_first_write demo_types {VCB 16, VCB 64} demo_sys ls s \<and>
    mrun eager_read writer_first_write demo_types {VCB 16, VCB 64} s [l] s' \<and>
    held_boxes s' = {0, 1, 2, 5} \<and> held_boxes s' \<inter> {a. a < 5} \<subseteq> held_boxes s \<and>
    3 \<notin> held_boxes s \<and> 4 \<in> held_boxes s"
proof -
  obtain ls s l s' where m: "mrun eager_read writer_first_write demo_types {VCB 16, VCB 64} demo_sys ls s"
    and step: "mstep eager_read writer_first_write demo_types {VCB 16, VCB 64} s l s'"
    and h: "held_boxes s = {0, 1, 2, 4}" "held_boxes s' = {0, 1, 2, 5}" "next_arc (heap (shared s)) = 5"
    by (rule reuse_mrun)
  have m': "mrun eager_read writer_first_write demo_types {VCB 16, VCB 64} s [l] s'"
    using mrun.mrun_snoc [OF mrun.mrun_nil step] by simp
  from released_boxes_stay_released [OF eager_lock.rwlock_axioms demo_initial m m']
  have "held_boxes s' \<inter> {a. a < 5} \<subseteq> held_boxes s" by (simp add: allocated_def h(3))
  moreover have "3 \<notin> held_boxes s" and "4 \<in> held_boxes s" by (simp_all add: h(1))
  ultimately show ?thesis using m m' h(2) by blast
qed

lemma placed_const:
  "mrun may_read may_write \<Gamma> L s ls s' \<Longrightarrow> inj A \<Longrightarrow> placed_run may_read may_write \<Gamma> L s A ls s' A"
  by (induction rule: mrun.induct) (auto intro!: placed_run.intros dest: injD)

theorem comparisons_tell_boxes_apart_witness:
  "\<exists>ls s A. placed_run eager_read writer_first_write demo_types {VCB 16, VCB 64} demo_sys id ls s A \<and>
    A 5 = 3 \<and> compares (pc_of s 2) = Some (VCB 16, 0) \<and> A 0 \<noteq> A (value_arc (shared s) (VCB 16))"
proof -
  obtain ls s l s' where m: "mrun eager_read writer_first_write demo_types {VCB 16, VCB 64} demo_sys ls s"
    and step: "mstep eager_read writer_first_write demo_types {VCB 16, VCB 64} s l s'"
    and h: "held_boxes s = {0, 1, 2, 4}" "held_boxes s' = {0, 1, 2, 5}"
    and c: "compares (pc_of s' 2) = Some (VCB 16, 0)" "value_arc (shared s') (VCB 16) = 5"
    by (rule reuse_mrun)
  let ?A = "(id :: arc \<Rightarrow> nat)(5 := 3)"
  have p: "placed_run eager_read writer_first_write demo_types {VCB 16, VCB 64} demo_sys id (ls @ [l]) s' ?A"
    by (rule placed_snoc [OF placed_const [OF m inj_on_id] step]) (auto simp: h)
  have inj: "inj_on id (value_arc (shared demo_sys) ` {VCB 16, VCB 64})" by simp
  from comparisons_tell_boxes_apart [OF eager_lock.rwlock_axioms demo_initial inj p] c
  have "?A 0 \<noteq> ?A (value_arc (shared s') (VCB 16))" by fastforce
  moreover have "?A 5 = 3" by simp
  ultimately show ?thesis using p c(1) by blast
qed

end
