(* ===== verification/Reclamation.thy ===== *)
theory Reclamation
  imports Boxes
begin

text \<open>
  Freeing boxes. The model never frees a box; here an adversary does, at any moment of a concurrent run,
  with any boxes that nobody holds, and leaves anything in their memory. No thread notices: what a
  run with reclamation does, some run of the machine does as well, so every theorem about runs is one
  about runs with reclamation.
\<close>

subsection \<open>Memory with other contents\<close>

definition with_boxes :: "(arc \<Rightarrow> val) \<Rightarrow> world \<Rightarrow> world" where
  "with_boxes f w = w\<lparr>heap := (heap w)\<lparr>boxes := f\<rparr>\<rparr>"

lemma with_boxes_simps [simp]:
  "heap (with_boxes f w) = (heap w)\<lparr>boxes := f\<rparr>"
  "vcbs (with_boxes f w) = vcbs w" "vcb_live (with_boxes f w) = vcb_live w"
  "cbs (with_boxes f w) = cbs w" "cb_strong (with_boxes f w) = cb_strong w"
  "next_cb (with_boxes f w) = next_cb w" "tokens (with_boxes f w) = tokens w"
  "running (with_boxes f w) = running w"
  "with_boxes f (with_boxes g w) = with_boxes f w"
  "with_boxes (boxes (heap w)) w = w"
  "cb_alive (with_boxes f w) = cb_alive w"
  by (simp_all add: with_boxes_def cb_alive_def fun_eq_iff)

lemma cb_alive_heap [simp]: "cb_alive (w\<lparr>heap := h\<rparr>) = cb_alive w"
  by (simp add: cb_alive_def fun_eq_iff)

text \<open>The operations that do not allocate do not look at the contents.\<close>

lemma with_boxes_ops:
  "with_boxes f (TransactionGuard_drop t w) = TransactionGuard_drop t (with_boxes f w)"
  "with_boxes f (update_vcb x g w) = update_vcb x g (with_boxes f w)"
  "with_boxes f (write_back ax w) = write_back ax (with_boxes f w)"
  "with_boxes f (cb_hold c w) = cb_hold c (with_boxes f w)"
  "with_boxes f (cb_drop c w) = cb_drop c (with_boxes f w)"
  "with_boxes f (cb_unpark c w) = cb_unpark c (with_boxes f w)"
  "with_boxes f (cb_park t w) = cb_park t (with_boxes f w)"
  "with_boxes f (snd (cb_swap c w)) = snd (cb_swap c (with_boxes f w))"
  "with_boxes f (snd (cb_alloc t w)) = snd (cb_alloc t (with_boxes f w))"
  "with_boxes f (VarControlBlock_wait x c w) = VarControlBlock_wait x c (with_boxes f w)"
  "with_boxes f (snd (set_dead_count x w)) = snd (set_dead_count x (with_boxes f w))"
  "with_boxes f (set_dead_cleanup x w) = set_dead_cleanup x (with_boxes f w)"
  by (simp_all add: with_boxes_def TransactionGuard_drop_def update_vcb_def write_back_def cb_hold_def
      cb_drop_def cb_unpark_def cb_park_def cb_swap_def cb_alloc_def VarControlBlock_wait_def
      set_dead_count_def set_dead_cleanup_def)

lemma cb_results:
  "fst (cb_swap c (with_boxes f w)) = fst (cb_swap c w)"
  "fst (set_dead_count x (with_boxes f w)) = fst (set_dead_count x w)"
  by (simp_all add: cb_swap_def set_dead_count_def)

text \<open>An allocation fills the same box in both.\<close>

lemma with_boxes_alloc:
  "snd (alloc_arc y (with_boxes f w)) = with_boxes (f(next_arc (heap w) := y)) (snd (alloc_arc y w))"
  by (simp add: alloc_arc_def with_boxes_def Arc_new_def)

lemma with_boxes_write_atomic:
  "write_atomic v y (with_boxes f w) = with_boxes (f(next_arc (heap w) := y)) (write_atomic v y w)"
  by (simp add: write_atomic_def alloc_arc_def with_boxes_def Arc_new_def update_vcb_def)

subsection \<open>One step\<close>

lemma read_with_boxes:
  assumes "Transaction_read v (w, tx) = (r, w', tx')"
    and "f (fst (read_entry w (control_block v) (vars tx))) =
      deref (heap w) (fst (read_entry w (control_block v) (vars tx)))"
  shows "Transaction_read v (with_boxes f w, tx) = (r, with_boxes f w', tx')"
proof -
  have e: "read_entry (with_boxes f w) x m = read_entry w x m" for x m
    by (simp add: read_entry_def cong: option.case_cong)
  show ?thesis
    using assms unfolding Transaction_read_eq e
    by (auto simp: Transaction_downcast_def deref_def split: option.splits)
qed

text \<open>
  A step of a thread is a step in memory with other contents, as long as the box that a read looks into
  has its own.
\<close>

lemma same_boxes:
  "local_step t p0 R W (with_boxes f w) u l (with_boxes f w') u' \<Longrightarrow> heap w' = heap w \<Longrightarrow>
    \<exists>g. local_step t p0 R W (with_boxes f w) u l (with_boxes g w') u' \<and>
      (heap w' = heap w \<and> g = f \<or>
       (\<exists>y. heap w' = snd (Arc_new y (heap w)) \<and> g = f(next_arc (heap w) := y)))"
  by blast

lemma step_with_boxes:
  assumes "local_step t p0 R W w u l w' u'"
    and "\<And>v k tx fs. u = Run (ReadVar v k) tx fs \<Longrightarrow>
      f (fst (read_entry w (control_block v) (vars tx))) =
      deref (heap w) (fst (read_entry w (control_block v) (vars tx)))"
  shows "\<exists>g. local_step t p0 R W (with_boxes f w) u l (with_boxes g w') u' \<and>
    (heap w' = heap w \<and> g = f \<or>
     (\<exists>y. heap w' = snd (Arc_new y (heap w)) \<and> g = f(next_arc (heap w) := y)))"
  using assms(1)
proof (cases rule: local_step.cases)
  case (run_read tx v x tx' k fs)
  from read_with_boxes [where f = f, OF run_read(5) assms(2) [OF run_read(1)]] run_read(4) read_world [OF run_read(5)]
  show ?thesis unfolding run_read(1-3)
    by (intro exI [of _ f] conjI local_step.run_read) simp_all
next
  case (run_read_panic tx v m w1 tx' k fs)
  from read_with_boxes [where f = f, OF run_read_panic(6) assms(2) [OF run_read_panic(1)]] run_read_panic(5)
    read_world [OF run_read_panic(6)]
  show ?thesis unfolding run_read_panic(1-4)
    by (intro exI [of _ f] conjI) (auto simp: with_boxes_ops intro: local_step.run_read_panic)
next
  case (run_write v y tx r tx' p fs)
  then have "Transaction_write v y (with_boxes f w, tx) =
      (r, with_boxes (f(next_arc (heap w) := y)) w', tx')"
    by (simp add: Transaction_write_eq with_boxes_alloc)
  with run_write show ?thesis
    by (intro exI [of _ "f(next_arc (heap w) := y)"] conjI disjI2 exI [of _ y])
      (auto intro: local_step.run_write dest: write_world)
next
  case (wait_begin c tx)
  then have "cb_alloc t (with_boxes f w) = (c, with_boxes f w')" by (auto simp: cb_alloc_def with_boxes_def)
  with wait_begin show ?thesis
    by (intro exI [of _ f] conjI) (auto intro: local_step.wait_begin dest: cb_alloc_world)
next
  case (atomic_store v y)
  then show ?thesis
    using local_step.atomic_store [of W v t p0 R "with_boxes f w" y]
    by (intro exI [of _ "f(next_arc (heap w) := y)"] conjI disjI2 exI [of _ y])
      (simp_all add: with_boxes_write_atomic)
next
  case (wake_take x wr v)
  then show ?thesis
    using local_step.wake_take [of t p0 R W "with_boxes f w" x wr v]
    by (intro same_boxes) (simp_all add: with_boxes_ops)
next
  case (notify_swap c wr cs v)
  then show ?thesis
    using local_step.notify_swap [of t p0 R W "with_boxes f w" c wr cs v]
    by (intro same_boxes) (simp_all add: with_boxes_ops)
next
  case (dying c x xs)
  then show ?thesis
    using local_step.dying [of t p0 R W "with_boxes f w" c x xs]
    by (intro same_boxes) (simp_all add: with_boxes_ops cb_results)
qed ((rule same_boxes, auto simp: with_boxes_ops intro: local_step.intros; fail)+)

subsection \<open>The whole system\<close>

definition scrub :: "(arc \<Rightarrow> val) \<Rightarrow> sys \<Rightarrow> sys" where
  "scrub f s = s\<lparr>shared := with_boxes f (shared s)\<rparr>"

text \<open>The contents of the boxes that are held.\<close>

definition keeps_held :: "(arc \<Rightarrow> val) \<Rightarrow> sys \<Rightarrow> bool" where
  "keeps_held f s \<longleftrightarrow> (\<forall>a \<in> held_boxes s. f a = deref (heap (shared s)) a)"

lemma scrub_simps [simp]:
  "shared (scrub f s) = with_boxes f (shared s)" "thr (scrub f s) = thr s"
  "scrub f (scrub g s) = scrub f s" "view_lock (scrub f s) = view_lock s"
  "held_boxes (scrub f s) = held_boxes s"
  by (simp_all add: scrub_def view_lock_def held_boxes_def fun_eq_iff)

lemma keeps_heldD: "keeps_held f s \<Longrightarrow> a \<in> held_boxes s \<Longrightarrow> f a = deref (heap (shared s)) a"
  by (simp add: keeps_held_def)

lemma scrub_same: "scrub (boxes (heap (shared s))) s = s"
  by (simp add: scrub_def)

text \<open>The box a read looks into is held.\<close>

lemma read_held:
  assumes "sys_ok \<Gamma> L s" and "pc_of s t = Run (ReadVar v k) tx fs"
  shows "fst (read_entry (shared s) (control_block v) (vars tx)) \<in> held_boxes s"
proof -
  have "control_block v \<in> set (vcb_live (shared s))"
    using sys_okD(2) [OF assms(1)] sys_okD(4) [OF assms(1), of t] assms(2) by (simp add: var_ok_def)
  then have "value_arc (shared s) (control_block v) \<in> held_boxes s" by (rule held_boxesI)
  moreover have "log_arcs (vars tx) \<subseteq> held_boxes s"
    using held_boxesI(2) [of _ s t] assms(2) by auto
  moreover have "fst (read_entry (shared s) (control_block v) (vars tx)) \<in>
      insert (value_arc (shared s) (control_block v)) (log_arcs (vars tx))"
    using read_entry_arcs(1,2) by blast
  ultimately show ?thesis by auto
qed

lemma scrub_local:
  assumes ok: "sys_ok \<Gamma> L s" "boxes_ok L s" and f: "keeps_held f s"
    and step: "local_step t (closure (thr s t)) R W (with_boxes f (shared s)) (pc_of s t) l w' u'"
  shows "\<exists>g. local_step t (closure (thr s t)) R W (shared s) (pc_of s t) l (with_boxes g w') u' \<and>
    keeps_held (boxes (heap w')) (stepped s t (with_boxes g w') u')"
proof -
  let ?w = "with_boxes f (shared s)" and ?h = "boxes (heap (shared s))"
  have look: "?h (fst (read_entry ?w (control_block v) (vars tx))) =
      deref (heap ?w) (fst (read_entry ?w (control_block v) (vars tx)))"
    if "pc_of s t = Run (ReadVar v k) tx fs" for v k tx fs
    using keeps_heldD [OF f read_held [OF ok(1) that]]
    by (simp add: deref_def read_entry_def cong: option.case_cong)
  from step_with_boxes [where f = ?h, OF step look] obtain g
    where g: "local_step t (closure (thr s t)) R W (shared s) (pc_of s t) l (with_boxes g w') u'"
      and or: "heap w' = heap ?w \<and> g = ?h \<or>
        (\<exists>y. heap w' = snd (Arc_new y (heap ?w)) \<and> g = ?h(next_arc (heap ?w) := y))" by (fastforce simp del: with_boxes_simps(1) simp: with_boxes_simps(9,10))
  have "boxes (heap w') a = g a" if "a \<in> held_boxes (stepped s t (with_boxes g w') u')" for a
  proof -
    from held_boxes_stepped [OF ok(1) g] that
    consider "a \<in> held_boxes s" | "a \<in> new_box (shared s) (with_boxes g w')" by blast
    then show ?thesis
    proof cases
      case 1
      with or boxes_okD(1) [OF ok(2) 1] keeps_heldD [OF f 1] show ?thesis
        by (auto simp: Arc_new_def deref_def)
    next
      case 2
      with or show ?thesis by (auto simp: Arc_new_def new_box_def allocated_def)
    qed
  qed
  then have "keeps_held (boxes (heap w')) (stepped s t (with_boxes g w') u')"
    by (simp add: keeps_held_def deref_def)
  with g show ?thesis by blast
qed

lemma scrub_mstep:
  assumes step: "mstep may_read may_write \<Gamma> L (scrub f s) l s2" and ok: "sys_ok \<Gamma> L s" "boxes_ok L s"
    and f: "keeps_held f s"
  shows "\<exists>s' g. mstep may_read may_write \<Gamma> L s l s' \<and> s2 = scrub g s' \<and> keeps_held g s'"
proof -
  have idle: "\<exists>s' g. mstep may_read may_write \<Gamma> L s l s' \<and> s2 = scrub g s' \<and> keeps_held g s'"
    if "s2 = scrub f s'" and m: "mstep may_read may_write \<Gamma> L s l s'" and h: "heap (shared s') = heap (shared s)" for s'
  proof -
    have "new_box (shared s) (shared s') = {}" by (simp add: new_box_def h)
    with mstep_boxes(1) [OF m ok] have "held_boxes s' \<subseteq> held_boxes s" by simp
    with f h have "keeps_held f s'" by (auto simp: keeps_held_def)
    with that(1) m show ?thesis by blast
  qed
  show ?thesis
    using step
  proof cases
    case (m_local t w' u')
    from m_local(2) have st: "local_step t (closure (thr s t)) (\<lambda>x. may_read (view_lock s x) t)
        (\<lambda>x. may_write (view_lock s x) t) (with_boxes f (shared s)) (pc_of s t) l w' u'" by simp
    from scrub_local [OF ok f st] obtain g
      where g: "local_step t (closure (thr s t)) (\<lambda>x. may_read (view_lock s x) t)
          (\<lambda>x. may_write (view_lock s x) t) (shared s) (pc_of s t) l (with_boxes g w') u'"
        and k: "keeps_held (boxes (heap w')) (stepped s t (with_boxes g w') u')" by blast
    have "s2 = scrub (boxes (heap w')) (stepped s t (with_boxes g w') u')"
      unfolding m_local(1) by (simp add: scrub_def)
    with k mstep.m_local [of t s may_read may_write, OF g] show ?thesis by blast
  next
    case (m_start t p w')
    then have w': "w' = with_boxes f ((shared s)\<lparr>running := (running (shared s))(t := True)\<rparr>)"
      and free: "TransactionGuard_new t (shared s) =
        Return ((shared s)\<lparr>running := (running (shared s))(t := True)\<rparr>)"
      by (auto simp: TransactionGuard_new_def with_boxes_def split: if_splits)
    show ?thesis
      using m_start mstep.m_start [of s t \<Gamma> L p _ may_read may_write, OF _ _ free]
      by (intro idle [of "s\<lparr>shared := (shared s)\<lparr>running := (running (shared s))(t := True)\<rparr>,
          thr := (thr s)(t := \<lparr>closure = p, pc = Run p Transaction_new []\<rparr>)\<rparr>"])
        (auto simp: scrub_def w')
  next
    case (m_write t v y)
    then show ?thesis
      using mstep.m_write [of s t \<Gamma> L v y may_read may_write]
      by (intro idle [of "s\<lparr>thr := (thr s)(t := (thr s t)\<lparr>pc := AtomicWrite v y\<rparr>)\<rparr>"])
        (auto simp: scrub_def)
  next
    case (m_panic t p tx fs)
    then show ?thesis
      using mstep.m_panic [of s t p tx fs may_read may_write \<Gamma> L]
      by (intro idle [of "s\<lparr>shared := TransactionGuard_drop t (shared s),
          thr := (thr s)(t := (thr s t)\<lparr>pc := Idle\<rparr>)\<rparr>"]) (auto simp: scrub_def with_boxes_ops)
  next
    case (m_spurious t c reads)
    then show ?thesis
      using mstep.m_spurious [of s t c reads may_read may_write \<Gamma> L]
      by (intro idle [of "s\<lparr>thr := (thr s)(t := (thr s t)\<lparr>pc := Asleep c reads\<rparr>)\<rparr>"])
        (auto simp: scrub_def)
  qed
qed

text \<open>Concurrent runs in which boxes that nobody holds are freed, and their memory gets other contents.\<close>

inductive reclaim_run ::
    "grant \<Rightarrow> grant \<Rightarrow> tyenv \<Rightarrow> vcb_ref set \<Rightarrow> sys \<Rightarrow> label list \<Rightarrow> sys \<Rightarrow> bool"
  for may_read may_write :: grant and \<Gamma> :: tyenv and L :: "vcb_ref set"
where
  reclaim_nil: "reclaim_run may_read may_write \<Gamma> L s [] s"
| reclaim_step: "reclaim_run may_read may_write \<Gamma> L s ls s' \<Longrightarrow> mstep may_read may_write \<Gamma> L s' l s'' \<Longrightarrow>
    reclaim_run may_read may_write \<Gamma> L s (ls @ [l]) s''"
| reclaim_free: "reclaim_run may_read may_write \<Gamma> L s ls s' \<Longrightarrow> keeps_held f s' \<Longrightarrow>
    reclaim_run may_read may_write \<Gamma> L s ls (scrub f s')"

context rwlock
begin

lemma reclaim_simulation:
  assumes "reclaim_run may_read may_write \<Gamma> L s ls s2" and "initial \<Gamma> L s"
  shows "\<exists>s' g. mrun may_read may_write \<Gamma> L s ls s' \<and> sys_ok \<Gamma> L s' \<and> boxes_ok L s' \<and>
    s2 = scrub g s' \<and> keeps_held g s'"
  using assms
proof induction
  case (reclaim_nil s)
  have "s = scrub (boxes (heap (shared s))) s" and "keeps_held (boxes (heap (shared s))) s"
    by (simp_all add: scrub_same keeps_held_def deref_def)
  with initial_sys_ok [OF reclaim_nil] initial_boxes(1) [OF reclaim_nil] show ?case
    by (blast intro: mrun_nil)
next
  case (reclaim_step s ls s2 l s3)
  then obtain s' g where run: "mrun may_read may_write \<Gamma> L s ls s'" and ok: "sys_ok \<Gamma> L s'" "boxes_ok L s'"
    and s2: "s2 = scrub g s'" and g: "keeps_held g s'" by blast
  from scrub_mstep [OF reclaim_step.hyps(2) [unfolded s2] ok g] obtain s'' g'
    where step: "mstep may_read may_write \<Gamma> L s' l s''" and "s3 = scrub g' s''" and "keeps_held g' s''"
    by blast
  with mrun_snoc [OF run step] sys_ok_step [OF step ok(1)] mstep_boxes(2) [OF step ok] show ?case by blast
next
  case (reclaim_free s ls s2 f)
  then obtain s' g where run: "mrun may_read may_write \<Gamma> L s ls s'" and ok: "sys_ok \<Gamma> L s'" "boxes_ok L s'"
    and s2: "s2 = scrub g s'" and g: "keeps_held g s'" by blast
  have "keeps_held f s'"
    using keeps_heldD [OF reclaim_free.hyps(2)] keeps_heldD [OF g] by (simp add: keeps_held_def s2 deref_def)
  with run ok show ?case unfolding s2 by auto
qed

end

text \<open>
  C15. Freeing is safe: when boxes that nobody holds are freed during a concurrent run, at any moments, and their
  memory filled with anything, the threads do what they do in some run without freeing. They
  commit the same values in the same order, every variable has the same contents, and the run is
  serializable. Nobody uses a box after it has been freed.
\<close>

theorem freeing_released_boxes_is_safe:
  assumes "rwlock may_read may_write" and "initial \<Gamma> L s"
    and "reclaim_run may_read may_write \<Gamma> L s ls s2"
  shows "(\<exists>s'. mrun may_read may_write \<Gamma> L s ls s' \<and> thr s2 = thr s' \<and>
      vcbs (shared s2) = vcbs (shared s') \<and> contents (shared s2) = contents (shared s')) \<and>
    (\<exists>\<sigma>. serial may (contents (shared s)) ls \<sigma> \<and>
      ((\<forall>t. to_store (pc_of s2 t) = []) \<longrightarrow> contents (shared s2) = \<sigma>))"
proof -
  from rwlock.reclaim_simulation [OF assms(1,3,2)] obtain s' g
    where run: "mrun may_read may_write \<Gamma> L s ls s'" and s2: "s2 = scrub g s'" and g: "keeps_held g s'"
    by blast
  have c: "contents (shared s2) = contents (shared s')"
    using keeps_heldD [OF g held_boxesI(1)] by (auto simp: contents_eq fun_eq_iff s2 deref_def)
  from rwlock.simulation [OF assms(1) run assms(2)] obtain \<sigma>
    where "serial may (contents (shared s)) ls \<sigma>" and rep: "represents s' \<sigma>" by blast
  moreover have "contents (shared s2) = \<sigma>" if "\<forall>t. to_store (pc_of s2 t) = []"
    using representsD(2) [OF rep] that by (simp add: fun_eq_iff c) (simp add: s2)
  ultimately show ?thesis using run c by (auto simp: s2)
qed

text \<open>The box of the first value of thread 1 is freed, and its memory scrambled, before the third write.\<close>

theorem freeing_released_boxes_is_safe_witness:
  "\<exists>ls s2 s'. reclaim_run eager_read writer_first_write demo_types {VCB 16, VCB 64} demo_sys ls s2 \<and>
    deref (heap (shared s2)) 3 = VString ''scrambled'' \<and>
    mrun eager_read writer_first_write demo_types {VCB 16, VCB 64} demo_sys ls s' \<and>
    contents (shared s2) = contents (shared s')"
proof -
  obtain ls s l s' where m: "mrun eager_read writer_first_write demo_types {VCB 16, VCB 64} demo_sys ls s"
    and h: "held_boxes s = {0, 1, 2, 4}"
    by (rule reuse_mrun)
  let ?f = "(deref (heap (shared s)))(3 := VString ''scrambled'')"
  have "reclaim_run eager_read writer_first_write demo_types {VCB 16, VCB 64} demo_sys ls s"
    using m by induction (auto intro: reclaim_run.intros)
  then have r: "reclaim_run eager_read writer_first_write demo_types {VCB 16, VCB 64} demo_sys ls (scrub ?f s)"
    by (rule reclaim_free) (simp add: keeps_held_def h)
  have "deref (heap (shared (scrub ?f s))) 3 = VString ''scrambled''" by (simp add: deref_def)
  with r freeing_released_boxes_is_safe [OF eager_lock.rwlock_axioms demo_initial r] show ?thesis by blast
qed

end
