(* ===== verification/Tests_Lib.thy ===== *)
theory Tests_Lib
  imports TVar_Ops
begin

text \<open>
  The unit tests of \<^verbatim>\<open>lib.rs\<close>, \<^verbatim>\<open>transaction/mod.rs\<close>, \<^verbatim>\<open>log_var.rs\<close> and \<^verbatim>\<open>tvar.rs\<close>, translated. A test is
  a function from the situation in which it is started to whether its assertions hold: a world,
  the thread that runs it, addresses the allocator returns, and the fuel of the retry loops. A
  call of \<^verbatim>\<open>atomically\<close> whose value an assertion uses must finish with it. The names and values are
  those of the source; \<^verbatim>\<open>i32\<close> and \<^verbatim>\<open>u32\<close> are integers.
\<close>

record testbed =
  spare :: nat
  me :: tid
  start :: world
  at1 :: vcb_ref
  at2 :: vcb_ref

text \<open>The loops get at least one unit of fuel.\<close>

abbreviation steps :: "testbed \<Rightarrow> nat" where
  "steps b \<equiv> Suc (spare b)"

definition bed_ok :: "testbed \<Rightarrow> bool" where
  "bed_ok b \<longleftrightarrow> \<not> running (start b) (me b) \<and> at1 b \<noteq> at2 b \<and>
     {at1 b, at2 b} \<inter> set (vcb_live (start b)) = {}"

subsection \<open>\<^verbatim>\<open>lib.rs\<close>\<close>

text \<open>\<^verbatim>\<open>test::terminates\<close> says no: the thread is parked, with nobody to wake it.\<close>

definition infinite_retry :: "testbed \<Rightarrow> bool" where
  "infinite_retry b \<longleftrightarrow>
     fst (atomically (steps b) alone (me b) (return_action (retry :: val StmResult)) (start b)) = Parked"

definition stm_nested :: "testbed \<Rightarrow> bool" where
  "stm_nested b =
     (let (var, w) = TVar_new (at1 b) (VInt 0) (start b);
          (x, w) = atomically (steps b) alone (me b)
            (bind_action (TVar_write var (VInt 42)) (\<lambda>_. TVar_read var)) w
      in x = Finished (VInt 42))"

definition or_simple :: "testbed \<Rightarrow> bool" where
  "or_simple b =
     (let (var, w) = TVar_new (at1 b) (VInt 42) (start b);
          (x, w) = atomically (steps b) alone (me b)
            (Transaction_or (return_action retry) (TVar_read var)) w
      in x = Finished (VInt 42))"

definition or_nocommit :: "testbed \<Rightarrow> bool" where
  "or_nocommit b =
     (let (var, w) = TVar_new (at1 b) (VInt 42) (start b);
          (x, w) = atomically (steps b) alone (me b)
            (Transaction_or
               (bind_action (TVar_write var (VInt 23)) (\<lambda>_. return_action retry))
               (TVar_read var)) w
      in x = Finished (VInt 42))"

definition or_nested_first :: "testbed \<Rightarrow> bool" where
  "or_nested_first b =
     (let (var, w) = TVar_new (at1 b) (VInt 42) (start b);
          (x, w) = atomically (steps b) alone (me b)
            (Transaction_or
               (Transaction_or (return_action retry) (return_action retry))
               (TVar_read var)) w
      in x = Finished (VInt 42))"

definition or_nested_second :: "testbed \<Rightarrow> bool" where
  "or_nested_second b =
     (let (var, w) = TVar_new (at1 b) (VInt 42) (start b);
          (x, w) = atomically (steps b) alone (me b)
            (Transaction_or
               (return_action retry)
               (Transaction_or (TVar_read var) (return_action retry))) w
      in x = Finished (VInt 42))"

definition unwrap_some :: "testbed \<Rightarrow> bool" where
  "unwrap_some b =
     (let x = Some (VInt 42);
          (y, w) = atomically (steps b) alone (me b) (return_action (unwrap_or_retry x)) (start b)
      in y = Finished (VInt 42))"

definition unwrap_none :: bool where
  "unwrap_none = (let x = (None :: int option) in unwrap_or_retry x = retry)"

definition guard_true :: bool where
  "guard_true = (let x = guard True in x = Inr ())"

definition guard_false :: bool where
  "guard_false = (let x = guard False in x = retry)"

definition optionally_succeed :: "testbed \<Rightarrow> bool" where
  "optionally_succeed b =
     (let (x, w) = atomically (steps b) alone (me b)
            (optionally (return_action (Inr (VInt 42)))) (start b)
      in x = Finished (Some (VInt 42)))"

definition optionally_fail :: "testbed \<Rightarrow> bool" where
  "optionally_fail b =
     (let (x, w) = atomically (steps b) alone (me b)
            (optionally (return_action (retry :: val StmResult))) (start b)
      in x = Finished None)"

subsection \<open>\<^verbatim>\<open>transaction/mod.rs\<close>\<close>

definition test_read :: "testbed \<Rightarrow> bool" where
  "test_read b =
     (let log = Transaction_new;
          four = VVec TyInt [VInt 1, VInt 2, VInt 3, VInt 4];
          (var, w) = TVar_new (at1 b) four (start b)
      in fst (Transaction_read var (w, log)) = Return (Inr four))"

definition test_write_read :: "testbed \<Rightarrow> bool" where
  "test_write_read b =
     (let log = Transaction_new;
          two = VVec TyInt [VInt 1, VInt 2];
          four = VVec TyInt [VInt 1, VInt 2, VInt 3, VInt 4];
          (var, w) = TVar_new (at1 b) two (start b);
          (r, w, log) = Transaction_write var four (w, log);
          (r', w, log) = Transaction_read var (w, log)
      in r = Return (Inr ()) \<and> r' = Return (Inr four) \<and> read_atomic var w = Return two)"

definition transaction_simple :: "testbed \<Rightarrow> bool" where
  "transaction_simple b =
     (let (x, w) = Transaction_with (steps b) alone (me b) (return_action (Inr (VInt 42))) (start b)
      in x = Finished (VInt 42))"

definition transaction_read :: "testbed \<Rightarrow> bool" where
  "transaction_read b =
     (let (read, w) = TVar_new (at1 b) (VInt 42) (start b);
          (x, w) = Transaction_with (steps b) alone (me b) (TVar_read read) w
      in x = Finished (VInt 42))"

definition transaction_with_control_abort_on_single_run :: "testbed \<Rightarrow> bool" where
  "transaction_with_control_abort_on_single_run b =
     (let (read, w) = TVar_new (at1 b) (VInt 42) (start b);
          (x, w) = with_control (steps b) alone (me b) (\<lambda>c _. (ControlAbort, c)) () (TVar_read read) w
      in x = Finished (Some (VInt 42)))"

definition transaction_with_control_abort_on_retry :: "testbed \<Rightarrow> bool" where
  "transaction_with_control_abort_on_retry b =
     (let (x, w) = with_control (steps b) alone (me b) (\<lambda>c _. (ControlAbort, c)) ()
            (return_action (Inl Retry :: val StmResult)) (start b)
      in x = Finished None)"

definition transaction_write :: "testbed \<Rightarrow> bool" where
  "transaction_write b =
     (let (write, w) = TVar_new (at1 b) (VInt 42) (start b);
          (x, w) = Transaction_with (steps b) alone (me b) (TVar_write write (VInt 0)) w
      in x = Finished () \<and> read_atomic write w = Return (VInt 0))"

definition transaction_copy :: "testbed \<Rightarrow> bool" where
  "transaction_copy b =
     (let (read, w) = TVar_new (at1 b) (VInt 42) (start b);
          (write, w) = TVar_new (at2 b) (VInt 0) w;
          (x, w) = Transaction_with (steps b) alone (me b)
            (bind_action (TVar_read read) (\<lambda>r. TVar_write write r)) w
      in x = Finished () \<and> read_atomic write w = Return (VInt 42))"

definition transaction_control_stuff :: "testbed \<Rightarrow> bool" where
  "transaction_control_stuff b =
     (let (read, w) = TVar_new (at1 b) (VInt 42) (start b);
          (write, w) = TVar_new (at2 b) (VInt 0) w;
          (x, w) = Transaction_with (steps b) alone (me b)
            (bind_action (TVar_read read) (\<lambda>r. TVar_write write r)) w
      in x = Finished () \<and> read_atomic write w = Return (VInt 42))"

text \<open>
  A closure that runs a transaction of its own: the world passes through the call, a panic of the
  call is a panic of the closure. A call that does not return never gets here.
\<close>

definition nested_call :: "(world \<Rightarrow> 'a outcome \<times> world) \<Rightarrow> 'a action" where
  "nested_call call = (\<lambda>(w, tx).
     case call w of
       (Finished x, w') \<Rightarrow> (Return (Inr x), w', tx)
     | (Panicked m, w') \<Rightarrow> (Panic m, w', tx)
     | (Parked, w') \<Rightarrow> (Panic ''asleep'', w', tx)
     | (OutOfFuel, w') \<Rightarrow> (Panic ''running'', w', tx))"

text \<open>The test should panic; the panic is the one of the guard.\<close>

definition transaction_nested_fail :: "testbed \<Rightarrow> bool" where
  "transaction_nested_fail b =
     (let (x, w) = Transaction_with (steps b) alone (me b)
            (bind_action
               (nested_call (Transaction_with (steps b) alone (me b) (return_action (Inr (VInt 42)))))
               (\<lambda>_. return_action (Inr (VInt 1)))) (start b)
      in x = Panicked ''STM: Nested Transaction'')"

subsection \<open>\<^verbatim>\<open>log_var.rs\<close> and \<^verbatim>\<open>tvar.rs\<close>\<close>

definition test_write_obsolete_ignore :: "arena \<Rightarrow> bool" where
  "test_write_obsolete_ignore h =
     (let (a, h) = Arc_new (VInt 42) h; t = obsolete (Write a) in t = None)"

definition test_read_atomic :: "testbed \<Rightarrow> bool" where
  "test_read_atomic b =
     (let (var, w) = TVar_new (at1 b) (VInt 42) (start b)
      in read_atomic var w = Return (VInt 42))"

subsection \<open>Running the tests\<close>

text \<open>The world after a new variable.\<close>

definition with_var :: "vcb_ref \<Rightarrow> val \<Rightarrow> world \<Rightarrow> world" where
  "with_var a v w = snd (TVar_new a v w)"

lemma TVar_new_eq: "TVar_new a v w = (\<lparr>control_block = a, marker = type_id v\<rparr>, with_var a v w)"
  by (simp add: with_var_def TVar_new_def VarControlBlock_new_def Let_def split_def)

lemma with_var_simps [simp]:
  "heap (with_var a v w) = snd (Arc_new v (heap w))"
  "vcb_live (with_var a v w) = a # vcb_live w"
  "value_arc (with_var a v w) y = (if y = a then next_arc (heap w) else value_arc w y)"
  "running (with_var a v w) = running w"
  by (simp_all add: with_var_def TVar_new_def VarControlBlock_new_def Let_def split_def)

lemmas run_simps = TVar_new_eq atomically_def Transaction_with_def with_control_def alone_def
  TransactionGuard_new_def bind_action_def return_action_def map_action_def Transaction_or_def
  optionally_def Transaction_read_eq Transaction_write_eq read_entry_def write_entry_def
  Transaction_downcast_def downcast_ref_def TVar_read_def TVar_write_def Transaction_new_def
  Transaction_commit_def btm_get_Cons btm_iter_def Transaction_combine_def retry_def deref_Arc_new

lemma bed_okD:
  assumes "bed_ok b"
  shows "\<not> running (start b) (me b)" and "at1 b \<noteq> at2 b" and "at2 b \<noteq> at1 b"
    and "at1 b \<notin> set (vcb_live (start b))" and "at2 b \<notin> set (vcb_live (start b))"
  using assms by (auto simp: bed_ok_def)

lemma lib_tests_run:
  assumes "bed_ok b"
  shows "infinite_retry b" and "stm_nested b" and "or_simple b" and "or_nocommit b"
    and "or_nested_first b" and "or_nested_second b" and "unwrap_some b"
    and "optionally_succeed b" and "optionally_fail b"
  by (simp_all add: bed_okD [OF assms] run_simps infinite_retry_def stm_nested_def or_simple_def
      or_nocommit_def or_nested_first_def or_nested_second_def unwrap_some_def
      optionally_succeed_def optionally_fail_def unwrap_or_retry_def
      Transaction_wait_for_change_def cb_alloc_def ControlBlock_new_def)

lemma result_tests_run: "unwrap_none" "guard_true" "guard_false"
  by (simp_all add: unwrap_none_def guard_true_def guard_false_def unwrap_or_retry_def guard_def)

lemma transaction_tests_run:
  assumes "bed_ok b"
  shows "test_read b" and "test_write_read b" and "transaction_simple b" and "transaction_read b"
    and "transaction_with_control_abort_on_single_run b"
    and "transaction_with_control_abort_on_retry b"
    and "transaction_write b" and "transaction_copy b" and "transaction_control_stuff b"
    and "transaction_nested_fail b" and "test_read_atomic b"
  by (simp_all add: bed_okD [OF assms] run_simps test_read_def test_write_read_def transaction_simple_def
      transaction_read_def transaction_with_control_abort_on_single_run_def
      transaction_with_control_abort_on_retry_def transaction_write_def transaction_copy_def
      transaction_control_stuff_def transaction_nested_fail_def nested_call_def test_read_atomic_def
      read_atomic_def read_ref_atomic_def write_back_def Let_def)

lemma log_var_test_runs: "test_write_obsolete_ignore h"
  by (simp add: test_write_obsolete_ignore_def obsolete_def split_def)

text \<open>
  C36. The unit tests of the library and of transactions pass: in any world, on any thread that is
  not inside a transaction, wherever the allocator puts the variables and with any fuel from one
  on, every assertion of these tests holds; in particular each call commits in its first iteration,
  \<^verbatim>\<open>infinite_retry\<close> sleeps for ever, and the nested call panics.
\<close>

theorem library_tests_pass:
  assumes "bed_ok b"
  shows "infinite_retry b \<and> stm_nested b \<and> or_simple b \<and> or_nocommit b \<and> or_nested_first b \<and>
    or_nested_second b \<and> unwrap_some b \<and> unwrap_none \<and> guard_true \<and> guard_false \<and>
    optionally_succeed b \<and> optionally_fail b \<and> test_read b \<and> test_write_read b \<and>
    transaction_simple b \<and> transaction_read b \<and> transaction_with_control_abort_on_single_run b \<and>
    transaction_with_control_abort_on_retry b \<and> transaction_write b \<and> transaction_copy b \<and>
    transaction_control_stuff b \<and> transaction_nested_fail b \<and>
    test_write_obsolete_ignore (heap (start b)) \<and> test_read_atomic b"
  by (simp add: lib_tests_run [OF assms] result_tests_run transaction_tests_run [OF assms]
      log_var_test_runs)

definition demo_bed :: testbed where
  "demo_bed = \<lparr>spare = 0, me = 1, start = demo_world, at1 = VCB 8, at2 = VCB 24\<rparr>"

lemma demo_bed_ok: "bed_ok demo_bed"
  by (simp add: bed_ok_def demo_bed_def demo_not_running)

theorem library_tests_pass_witness:
  "stm_nested demo_bed \<and> transaction_copy demo_bed \<and> transaction_nested_fail demo_bed"
  using library_tests_pass [OF demo_bed_ok] by blast

end
