(* ===== verification/Tests_Arc.thy ===== *)
theory Tests_Arc
  imports Tests_Lib TWeak
begin

text \<open>
  The unit tests of \<^verbatim>\<open>tarc.rs\<close> and \<^verbatim>\<open>tweak.rs\<close>, translated like those of \<open>Tests_Lib\<close>. References held by
  local variables of a test are the list \<open>held\<close>; a dropped local is no longer in it. The test
  with two threads is in \<open>Tests_Shared\<close>, the drop-safety tests are in \<open>Tests_Drops\<close>.
\<close>

text \<open>The dereference \<^verbatim>\<open>*a\<close> of an \<^verbatim>\<open>Arc\<close>.\<close>

fun arc_contents :: "world \<Rightarrow> val \<Rightarrow> val option" where
  "arc_contents w (VArc T a) = Some (deref (heap w) a)"
| "arc_contents w _ = None"

definition read_is :: "TArc \<Rightarrow> val \<Rightarrow> world \<Rightarrow> bool" where
  "read_is v x w \<longleftrightarrow> (\<exists>a. TArc_read_atomic v w = Return a \<and> arc_contents w a = Some x)"

fun finished_with :: "(val \<Rightarrow> bool) \<Rightarrow> val outcome \<Rightarrow> bool" where
  "finished_with P (Finished x) = P x"
| "finished_with P _ = False"

lemma read_is_iff:
  "read_is v x w \<longleftrightarrow>
    (case TArc_read_atomic v w of Return a \<Rightarrow> arc_contents w a = Some x | Panic m \<Rightarrow> False)"
  by (auto simp: read_is_def split: may_panic.split)

subsection \<open>\<^verbatim>\<open>tarc.rs\<close>\<close>

definition read_atomic_round_trip :: "testbed \<Rightarrow> bool" where
  "read_atomic_round_trip b =
     (let (v, w) = TArc_new (at1 b) (VInt 42) (start b) in read_is v (VInt 42) w)"

definition read_inside_transaction :: "testbed \<Rightarrow> bool" where
  "read_inside_transaction b =
     (let (v, w) = TArc_new (at1 b) (VString ''hi'') (start b);
          (s, w) = atomically (steps b) alone (me b) (TArc_read v) w
      in finished_with (\<lambda>s. arc_contents w s = Some (VString ''hi'')) s)"

definition write_val_and_read :: "testbed \<Rightarrow> bool" where
  "write_val_and_read b =
     (let (v, w) = TArc_new (at1 b) (VInt 0) (start b);
          (r, w) = atomically (steps b) alone (me b) (TArc_write_val v (VInt 7)) w
      in r = Finished () \<and> read_is v (VInt 7) w)"

definition write_arc_and_read :: "testbed \<Rightarrow> bool" where
  "write_arc_and_read b =
     (let (v, w) = TArc_new (at1 b) (VInt 0) (start b);
          (new_arc, w) = alloc_arc (VInt 99) w;
          (r, w) = atomically (steps b) alone (me b) (TArc_write v (VArc TyInt new_arc)) w
      in r = Finished () \<and> read_is v (VInt 99) w)"

definition replace_returns_old :: "testbed \<Rightarrow> bool" where
  "replace_returns_old b =
     (let (v, w) = TArc_new (at1 b) (VInt 1) (start b);
          (old, w) = atomically (steps b) alone (me b) (\<lambda>(w, tx).
            let (new_arc, w) = alloc_arc (VInt 2) w in TArc_replace v (VArc TyInt new_arc) (w, tx)) w
      in finished_with (\<lambda>old. arc_contents w old = Some (VInt 1)) old \<and> read_is v (VInt 2) w)"

text \<open>\<^verbatim>\<open>|xs| xs.push(4)\<close> and \<^verbatim>\<open>|n| n * 2\<close>.\<close>

fun push_val :: "val \<Rightarrow> val \<Rightarrow> val" where
  "push_val y (VVec T xs) = VVec T (xs @ [y])"
| "push_val y v = v"

fun double_val :: "val \<Rightarrow> val" where
  "double_val (VInt n) = VInt (n * 2)"
| "double_val v = v"

definition modify_cow_mutates :: "testbed \<Rightarrow> bool" where
  "modify_cow_mutates b =
     (let (v, w) = TArc_new (at1 b) (VVec TyInt [VInt 1, VInt 2, VInt 3]) (start b);
          (r, w) = atomically (steps b) alone (me b) (TArc_modify_cow [] 0 v (push_val (VInt 4))) w
      in r = Finished () \<and> read_is v (VVec TyInt [VInt 1, VInt 2, VInt 3, VInt 4]) w)"

definition update_builds_new_value :: "testbed \<Rightarrow> bool" where
  "update_builds_new_value b =
     (let (v, w) = TArc_new (at1 b) (VInt 21) (start b);
          (r, w) = atomically (steps b) alone (me b) (TArc_update v double_val) w
      in r = Finished () \<and> read_is v (VInt 42) w)"

text \<open>
  The payload's \<^verbatim>\<open>clone\<close> panics; a read clones the \<^verbatim>\<open>Arc\<close> only, so the read finishes, and allocates
  no second box.
\<close>

definition cheap_read_does_not_deep_clone :: "testbed \<Rightarrow> bool" where
  "cheap_read_does_not_deep_clone b =
     (let (v, w) = TArc_new (at1 b) (VUser ''NoClone'' [VInt 1]) (start b);
          (got, w') = atomically (steps b) alone (me b) (TArc_read v) w
      in finished_with (\<lambda>got. arc_contents w' got = Some (VUser ''NoClone'' [VInt 1])) got \<and>
         next_arc (heap w') = next_arc (heap w))"

definition or_rollback_on_first_retry :: "testbed \<Rightarrow> bool" where
  "or_rollback_on_first_retry b =
     (let (v, w) = TArc_new (at1 b) (VInt 0) (start b);
          (x, w) = atomically (steps b) alone (me b)
            (Transaction_or
               (bind_action (TArc_write_val v (VInt 123)) (\<lambda>_. return_action retry))
               (TArc_read v)) w
      in finished_with (\<lambda>x. arc_contents w x = Some (VInt 0)) x \<and> read_is v (VInt 0) w)"

definition tarc_ref_eq_identifies_shared_handle :: "testbed \<Rightarrow> bool" where
  "tarc_ref_eq_identifies_shared_handle b =
     (let (a, w) = TArc_new (at1 b) (VInt 1) (start b);
          a' = TArc_clone a;
          (c, w) = TArc_new (at2 b) (VInt 1) w
      in TArc_ref_eq a a' \<and> \<not> TArc_ref_eq a c)"

subsection \<open>\<^verbatim>\<open>tweak.rs\<close>\<close>

fun finished_option :: "(val option \<Rightarrow> bool) \<Rightarrow> val option outcome \<Rightarrow> bool" where
  "finished_option P (Finished x) = P x"
| "finished_option P _ = False"

definition empty_upgrade_is_none :: "testbed \<Rightarrow> bool" where
  "empty_upgrade_is_none b =
     (let (x, w) = TWeak_new (at1 b) TyInt (start b);
          (got, w) = atomically (steps b) alone (me b) (TWeak_upgrade [] x) w
      in got = Finished None)"

definition downgrade_and_upgrade :: "testbed \<Rightarrow> bool" where
  "downgrade_and_upgrade b =
     (let (strong, w) = TArc_new (at1 b) (VInt 42) (start b)
      in case atomically (steps b) alone (me b) (TWeak_downgrade (at2 b) strong) w of
           (Finished weak, w) \<Rightarrow>
             (let (got, w) = atomically (steps b) alone (me b) (TWeak_upgrade [] weak) w
              in finished_option (\<lambda>got. Option.bind got (arc_contents w) = Some (VInt 42)) got)
         | _ \<Rightarrow> False)"

definition upgrade_returns_none_after_all_strong_drop :: "testbed \<Rightarrow> bool" where
  "upgrade_returns_none_after_all_strong_drop b =
     (let (a, w) = alloc_arc (VString ''transient'') (start b);
          (weak, w) = TWeak_from_weak (at1 b) (Arc_downgrade (VArc TyString a)) w;
          (got, w) = atomically (steps b) alone (me b) (TWeak_upgrade [] weak) w
      in got = Finished None)"

definition write_arc_updates_weak :: "testbed \<Rightarrow> bool" where
  "write_arc_updates_weak b =
     (let (x, w) = TWeak_new (at1 b) TyInt (start b);
          (a, w) = alloc_arc (VInt 7) w;
          (r, w) = atomically (steps b) alone (me b) (TWeak_write_arc x (VArc TyInt a)) w;
          (got, w) = atomically (steps b) alone (me b) (TWeak_upgrade [a] x) w
      in r = Finished () \<and>
         finished_option (\<lambda>got. Option.bind got (arc_contents w) = Some (VInt 7)) got)"

definition clear_releases_weak :: "testbed \<Rightarrow> bool" where
  "clear_releases_weak b =
     (let (a, w) = alloc_arc (VInt 7) (start b);
          (x, w) = TWeak_from_weak (at1 b) (Arc_downgrade (VArc TyInt a)) w;
          (r, w) = atomically (steps b) alone (me b) (TWeak_clear x TyInt) w;
          (got, w) = atomically (steps b) alone (me b) (TWeak_upgrade [a] x) w
      in r = Finished () \<and> got = Finished None)"

text \<open>
  Dropping the last handle of a variable frees its control block, and with it the reference its
  value holds. The destructor of the payload runs when its strong count becomes zero, which is what
  the counter of the test observes.
\<close>

definition drop_last_handle :: "TVar \<Rightarrow> world \<Rightarrow> world" where
  "drop_last_handle v w = w\<lparr>vcb_live := filter (\<lambda>x. x \<noteq> control_block v) (vcb_live w)\<rparr>"

definition weak_does_not_keep_alive :: "testbed \<Rightarrow> bool" where
  "weak_does_not_keep_alive b =
     (let (strong, w) = TArc_new (at1 b) (VUser ''CountOnDrop'' []) (start b);
          payload = next_arc (heap (start b))
      in case atomically (steps b) alone (me b) (TWeak_downgrade (at2 b) strong) w of
           (Finished weak, w) \<Rightarrow>
             (let w = drop_last_handle (TArc.inner strong) w;
                  (got, w') = atomically (steps b) alone (me b) (TWeak_upgrade [] weak) w
              in strong_count [] (w, Transaction_new) payload = 0 \<and> got = Finished None)
         | _ \<Rightarrow> False)"

definition tweak_ref_eq_identifies_shared_handle :: "testbed \<Rightarrow> bool" where
  "tweak_ref_eq_identifies_shared_handle b =
     (let (a, w) = TWeak_new (at1 b) TyInt (start b);
          a' = TWeak_clone a;
          (c, w) = TWeak_new (at2 b) TyInt w
      in TWeak_ref_eq a a' \<and> \<not> TWeak_ref_eq a c)"

subsection \<open>Running the tests\<close>

text \<open>What the world contains before the test does not refer to boxes not yet allocated.\<close>

definition arc_bed_ok :: "testbed \<Rightarrow> bool" where
  "arc_bed_ok b \<longleftrightarrow> bed_ok b \<and> arena_ok (heap (start b)) \<and>
     (\<forall>x \<in> set (vcb_live (start b)). allocated (heap (start b)) (value_arc (start b) x))"

definition with_box :: "val \<Rightarrow> world \<Rightarrow> world" where
  "with_box v w = snd (alloc_arc v w)"

lemma alloc_arc_eq: "alloc_arc v w = (next_arc (heap w), with_box v w)"
  by (simp add: prod_eq_iff with_box_def)

lemma with_box_simps [simp]:
  "heap (with_box v w) = snd (Arc_new v (heap w))"
  "vcbs (with_box v w) = vcbs w"
  "vcb_live (with_box v w) = vcb_live w"
  "running (with_box v w) = running w"
  by (simp_all add: with_box_def)

lemmas arc_run_simps = run_simps TArc_new_def TArc_read_atomic_def TArc_read_def TArc_write_def
  TArc_write_val_def TArc_replace_def TVar_replace_def TArc_update_def read_is_iff read_atomic_def
  read_ref_atomic_def write_back_def alloc_arc_eq Let_def

lemma tarc_tests_run:
  assumes "bed_ok b"
  shows "read_atomic_round_trip b" and "read_inside_transaction b" and "write_val_and_read b"
    and "write_arc_and_read b" and "replace_returns_old b"
    and "update_builds_new_value b" and "or_rollback_on_first_retry b"
    and "tarc_ref_eq_identifies_shared_handle b" and "cheap_read_does_not_deep_clone b"
  by (simp_all add: bed_okD [OF assms] arc_run_simps read_atomic_round_trip_def
      read_inside_transaction_def write_val_and_read_def write_arc_and_read_def
      replace_returns_old_def update_builds_new_value_def or_rollback_on_first_retry_def
      cheap_read_does_not_deep_clone_def tarc_ref_eq_identifies_shared_handle_def TArc_clone_def TArc_ref_eq_def ref_eq_def)

text \<open>A box has a strong reference if it is held, or if a live box contains one.\<close>

lemma strong_count_pos:
  "0 < strong_count held c a \<longleftrightarrow>
    a \<in> set held \<or> (\<exists>b \<in> set (live_boxes c). holds_arc (deref (heap (fst c)) b) a)"
  by (auto simp: strong_count_def filter_empty_conv count_list_0_iff neq0_conv [symmetric]
      simp del: neq0_conv)

lemma strong_count_zero:
  "strong_count held c a = 0 \<longleftrightarrow>
    a \<notin> set held \<and> (\<forall>b \<in> set (live_boxes c). \<not> holds_arc (deref (heap (fst c)) b) a)"
  using strong_count_pos [of held c a] by auto

lemma set_live_boxes:
  "set (live_boxes (w, tx)) =
    value_arc w ` set (vcb_live w) \<union> (\<Union>(x, e) \<in> set (vars tx). set (entry_boxes e))"
  by (auto simp: live_boxes_def btm_iter_def)

lemma make_mut_shared:
  "0 < s \<Longrightarrow> Arc_make_mut (Suc s) weak f a w =
    (next_arc (heap w), with_box (f (deref (heap w) a)) w)"
  by (simp add: Arc_make_mut_def alloc_arc_eq)

lemma modify_cow_test_runs:
  assumes "bed_ok b"
  shows "modify_cow_mutates b"
  by (simp add: bed_okD [OF assms] arc_run_simps modify_cow_mutates_def TArc_modify_cow_def
      make_mut_shared strong_count_pos set_live_boxes entry_boxes_def)

text \<open>A box allocated during the test has no reference in the boxes of the world before it.\<close>

lemma arc_bed_okD:
  assumes "arc_bed_ok b"
  shows "bed_ok b"
    and "x \<in> set (vcb_live (start b)) \<Longrightarrow> value_arc (start b) x < next_arc (heap (start b))"
    and "x \<in> set (vcb_live (start b)) \<Longrightarrow> next_arc (heap (start b)) \<le> a \<Longrightarrow>
      \<not> holds_arc (deref (heap (start b)) (value_arc (start b) x)) a"
proof -
  show "bed_ok b" using assms by (simp add: arc_bed_ok_def)
  show lt: "x \<in> set (vcb_live (start b)) \<Longrightarrow> value_arc (start b) x < next_arc (heap (start b))"
    using assms by (simp add: arc_bed_ok_def allocated_def)
  show "\<not> holds_arc (deref (heap (start b)) (value_arc (start b) x)) a"
    if "x \<in> set (vcb_live (start b))" and "next_arc (heap (start b)) \<le> a"
  proof -
    have "val_ok (heap (start b)) (deref (heap (start b)) (value_arc (start b) x))"
      using assms lt [OF that(1)] by (simp add: arc_bed_ok_def arena_ok_def)
    with that(2) show ?thesis
      by (cases "deref (heap (start b)) (value_arc (start b) x)") (auto simp: val_ok_def allocated_def)
  qed
qed

lemma arc_bed_fresh:
  assumes "arc_bed_ok b" and "x \<in> set (vcb_live (start b))"
  shows "value_arc (start b) x \<noteq> next_arc (heap (start b))"
    and "value_arc (start b) x \<noteq> Suc (next_arc (heap (start b)))"
  using arc_bed_okD(2) [OF assms] by simp_all

lemmas weak_run_simps = arc_run_simps TWeak_new_def TWeak_from_weak_def TWeak_downgrade_def
  TWeak_read_def TWeak_upgrade_def TWeak_write_arc_def TWeak_clear_def
  strong_count_pos set_live_boxes entry_boxes_def

lemma tweak_tests_run:
  assumes "bed_ok b"
  shows "empty_upgrade_is_none b" and "downgrade_and_upgrade b" and "write_arc_updates_weak b"
    and "clear_releases_weak b" and "tweak_ref_eq_identifies_shared_handle b"
  by (simp_all add: bed_okD [OF assms] weak_run_simps empty_upgrade_is_none_def
      downgrade_and_upgrade_def write_arc_updates_weak_def clear_releases_weak_def
      tweak_ref_eq_identifies_shared_handle_def TWeak_clone_def TWeak_ref_eq_def ref_eq_def)

lemma tweak_drop_tests_run:
  assumes "arc_bed_ok b"
  shows "upgrade_returns_none_after_all_strong_drop b" and "weak_does_not_keep_alive b"
  by (simp_all add: bed_okD [OF arc_bed_okD(1) [OF assms]] arc_bed_okD(3) [OF assms] ball_Un
      arc_bed_fresh [OF assms] strong_count_zero weak_run_simps
      upgrade_returns_none_after_all_strong_drop_def weak_does_not_keep_alive_def drop_last_handle_def)

text \<open>
  C37. The unit tests of \<^verbatim>\<open>TArc\<close> and \<^verbatim>\<open>TWeak\<close> pass, in any world whose boxes refer to allocated boxes
  only: among others \<^verbatim>\<open>modify_cow\<close> and \<^verbatim>\<open>update\<close> change what the variable holds, a retried
  alternative leaves no write behind, and a \<^verbatim>\<open>Weak\<close> in a \<^verbatim>\<open>TWeak\<close> upgrades exactly while the payload
  has a strong reference, so that dropping the last \<^verbatim>\<open>TArc\<close> releases the payload.
\<close>

theorem arc_and_weak_tests_pass:
  assumes "arc_bed_ok b"
  shows "read_atomic_round_trip b \<and> read_inside_transaction b \<and> write_val_and_read b \<and>
    write_arc_and_read b \<and> replace_returns_old b \<and> modify_cow_mutates b \<and>
    update_builds_new_value b \<and> cheap_read_does_not_deep_clone b \<and>
    or_rollback_on_first_retry b \<and> tarc_ref_eq_identifies_shared_handle b \<and>
    empty_upgrade_is_none b \<and> downgrade_and_upgrade b \<and>
    upgrade_returns_none_after_all_strong_drop b \<and> write_arc_updates_weak b \<and>
    clear_releases_weak b \<and> weak_does_not_keep_alive b \<and>
    tweak_ref_eq_identifies_shared_handle b"
proof -
  note ok = arc_bed_okD(1) [OF assms]
  show ?thesis
    by (simp add: tarc_tests_run [OF ok] modify_cow_test_runs [OF ok] tweak_tests_run [OF ok]
        tweak_drop_tests_run [OF assms])
qed

lemma demo_arc_bed_ok: "arc_bed_ok demo_bed"
proof -
  have "arena_ok (heap demo_world)"
    by (simp add: arena_ok_def val_ok_def less_Suc_eq numeral_2_eq_2 all_conj_distrib)
  with demo_bed_ok show ?thesis
    by (simp add: arc_bed_ok_def demo_bed_def allocated_def)
qed

theorem arc_and_weak_tests_pass_witness:
  "modify_cow_mutates demo_bed \<and> weak_does_not_keep_alive demo_bed"
  using arc_and_weak_tests_pass [OF demo_arc_bed_ok] by blast

end
