(* ===== verification/Tests_Docs.thy ===== *)
theory Tests_Docs
  imports Tests_Arc
begin

text \<open>
  The examples in the documentation comments, which \<^verbatim>\<open>cargo test\<close> runs, translated like the unit tests of
  \<open>Tests_Lib\<close> and \<open>Tests_Arc\<close>: those of the facade crate \<^verbatim>\<open>src/src/lib.rs\<close>, which \<^verbatim>\<open>stm-core\<close> repeats, of
  \<^verbatim>\<open>retry\<close> (compiled but not run by \<^verbatim>\<open>cargo test\<close>), \<^verbatim>\<open>unwrap_or_retry\<close>, \<^verbatim>\<open>guard\<close>, \<^verbatim>\<open>optionally\<close>, of the methods of
  \<^verbatim>\<open>TVar\<close> and \<^verbatim>\<open>TArc\<close>, and of the modules \<^verbatim>\<open>tarc\<close> and \<^verbatim>\<open>tweak\<close>. An assertion inside a closure panics when it fails. Where a comment says that a method
  is equivalent to a transaction, both are run.
\<close>

definition assert_eq :: "'a \<Rightarrow> 'a \<Rightarrow> unit action" where
  "assert_eq x y = (\<lambda>c. if x = y then (Return (Inr ()), c) else (Panic ''assertion failed'', c))"

subsection \<open>The crates\<close>

definition example_atomically :: "testbed \<Rightarrow> bool" where
  "example_atomically b =
     (let (x, w) = atomically (steps b) alone (me b) (return_action (Inr (VInt 42))) (start b)
      in x = Finished (VInt 42))"

definition example_write_then_read :: "testbed \<Rightarrow> bool" where
  "example_write_then_read b =
     (let (var, w) = TVar_new (at1 b) (VInt 0) (start b);
          (x, w) = atomically (steps b) alone (me b)
            (bind_action (TVar_write var (VInt 42)) (\<lambda>_. TVar_read var)) w
      in x = Finished (VInt 42))"

subsection \<open>Helpers\<close>

fun option_val :: "val \<Rightarrow> val option" where
  "option_val (VOption T x) = x"
| "option_val v = None"

text \<open>\<^verbatim>\<open>infinite_retry\<close>: nobody knows the control block the thread is parked on.\<close>

definition example_retry :: "testbed \<Rightarrow> bool" where
  "example_retry b \<longleftrightarrow>
     fst (atomically (steps b) alone (me b) (return_action (retry :: val StmResult)) (start b)) = Parked"

definition example_unwrap_or_retry :: "testbed \<Rightarrow> bool" where
  "example_unwrap_or_retry b =
     (let (x, w) = TVar_new (at1 b) (VOption TyInt (Some (VInt 42))) (start b);
          (r, w) = atomically (steps b) alone (me b)
            (bind_action (TVar_read x) (\<lambda>v.
             bind_action (return_action (unwrap_or_retry (option_val v))) (\<lambda>inner.
             bind_action (assert_eq inner (VInt 42)) (\<lambda>_.
             return_action (Inr inner))))) w
      in r = Finished (VInt 42))"

definition example_guard :: "testbed \<Rightarrow> bool" where
  "example_guard b =
     (let (var, w) = TVar_new (at1 b) (VInt 42) (start b);
          (x, w) = atomically (steps b) alone (me b)
            (bind_action (TVar_read var) (\<lambda>v.
             bind_action (return_action (guard (v = VInt 42))) (\<lambda>_.
             return_action (Inr v)))) w
      in x = Finished (VInt 42))"

definition example_optionally :: "testbed \<Rightarrow> bool" where
  "example_optionally b =
     (let (x, w) = atomically (steps b) alone (me b)
            (optionally (return_action (retry :: val StmResult))) (start b)
      in x = Finished None)"

subsection \<open>\<^verbatim>\<open>TVar\<close>\<close>

text \<open>\<^verbatim>\<open>read_atomic\<close> is semantically equivalent to the transaction.\<close>

definition example_read_atomic :: "testbed \<Rightarrow> bool" where
  "example_read_atomic b =
     (let (var, w) = TVar_new (at1 b) (VInt 0) (start b);
          (x, w') = atomically (steps b) alone (me b) (TVar_read var) w
      in case read_atomic var w of Return y \<Rightarrow> x = Finished y \<and> y = VInt 0 | Panic m \<Rightarrow> False)"

text \<open>
  And \<^verbatim>\<open>write_atomic\<close>: the example writes a fresh variable, for which nobody waits, and there the two
  leave the same world. They differ where somebody waits for the variable: \<^verbatim>\<open>write_atomic\<close> wakes nobody
  (\<open>Waiting\<close>).
\<close>

definition example_write_atomic :: "testbed \<Rightarrow> bool" where
  "example_write_atomic b =
     (let (var, w) = TVar_new (at1 b) (VInt 0) (start b);
          (r, w1) = atomically (steps b) alone (me b) (TVar_write var (VInt 1)) w;
          w2 = write_atomic var (VInt 1) w
      in r = Finished () \<and> read_atomic var w1 = Return (VInt 1) \<and> read_atomic var w2 = Return (VInt 1) \<and>
         w1 = w2)"

definition example_modify :: "testbed \<Rightarrow> bool" where
  "example_modify b =
     (let (var, w) = TVar_new (at1 b) (VInt 21) (start b);
          (r, w) = atomically (steps b) alone (me b) (TVar_modify var double_val) w
      in r = Finished () \<and> read_atomic var w = Return (VInt 42))"

definition example_replace :: "testbed \<Rightarrow> bool" where
  "example_replace b =
     (let (var, w) = TVar_new (at1 b) (VInt 0) (start b);
          (x, w) = atomically (steps b) alone (me b) (TVar_replace var (VInt 42)) w
      in x = Finished (VInt 0) \<and> read_atomic var w = Return (VInt 42))"

subsection \<open>\<^verbatim>\<open>TArc\<close> and \<^verbatim>\<open>TWeak\<close>\<close>

text \<open>\<^verbatim>\<open>struct Config { port, host }\<close>, its field \<^verbatim>\<open>port\<close>, and \<^verbatim>\<open>|c| c.port = 8080\<close>.\<close>

definition config :: "int \<Rightarrow> string \<Rightarrow> val" where
  "config p host = VUser ''Config'' [VInt p, VString host]"

fun port :: "val \<Rightarrow> val option" where
  "port (VUser n (p # fs)) = Some p"
| "port v = None"

fun set_port :: "int \<Rightarrow> val \<Rightarrow> val" where
  "set_port p (VUser n (q # fs)) = VUser n (VInt p # fs)"
| "set_port p v = v"

text \<open>The local \<^verbatim>\<open>current\<close> still holds its \<^verbatim>\<open>Arc\<close> when \<^verbatim>\<open>modify_cow\<close> runs.\<close>

definition example_tarc :: "testbed \<Rightarrow> bool" where
  "example_tarc b =
     (let (cfg, w) = TArc_new (at1 b) (config 80 ''localhost'') (start b);
          (r, w) = atomically (steps b) alone (me b)
            (bind_action (TArc_read cfg) (\<lambda>current (w, tx).
               with_arc current (\<lambda>T a.
                 bind_action (assert_eq (port (deref (heap w) a)) (Some (VInt 80))) (\<lambda>_.
                   TArc_modify_cow [a] 0 cfg (set_port 8080))) (w, tx))) w
      in r = Finished () \<and> read_is cfg (config 8080 ''localhost'') w)"

definition example_modify_cow :: "testbed \<Rightarrow> bool" where
  "example_modify_cow b =
     (let (v, w) = TArc_new (at1 b) (VVec TyInt [VInt 1, VInt 2, VInt 3]) (start b);
          (r, w) = atomically (steps b) alone (me b) (TArc_modify_cow [] 0 v (push_val (VInt 4))) w
      in r = Finished () \<and> read_is v (VVec TyInt [VInt 1, VInt 2, VInt 3, VInt 4]) w)"

definition example_update :: "testbed \<Rightarrow> bool" where
  "example_update b =
     (let (v, w) = TArc_new (at1 b) (VInt 21) (start b);
          (r, w) = atomically (steps b) alone (me b) (TArc_update v double_val) w
      in r = Finished () \<and> read_is v (VInt 42) w)"

definition example_tweak :: "testbed \<Rightarrow> bool" where
  "example_tweak b =
     (let (strong, w) = TArc_new (at1 b) (VString ''hello'') (start b)
      in case atomically (steps b) alone (me b) (TWeak_downgrade (at2 b) strong) w of
           (Finished weak, w) \<Rightarrow>
             (let (up, w) = atomically (steps b) alone (me b) (TWeak_upgrade [] weak) w
              in finished_option (\<lambda>up. Option.bind up (arc_contents w) = Some (VString ''hello'')) up)
         | _ \<Rightarrow> False)"

subsection \<open>Running the examples\<close>

lemma lib_examples_run:
  assumes "bed_ok b"
  shows "example_atomically b" and "example_write_then_read b" and "example_retry b"
    and "example_unwrap_or_retry b"
    and "example_guard b" and "example_optionally b"
  by (simp_all add: bed_okD [OF assms] run_simps example_atomically_def example_write_then_read_def
      example_unwrap_or_retry_def example_guard_def example_optionally_def assert_eq_def guard_def
      unwrap_or_retry_def example_retry_def Transaction_wait_for_change_def cb_alloc_def ControlBlock_new_def)

text \<open>On a fresh variable the two writes leave the same world.\<close>

lemma unwatched_write_same:
  assumes "waiters w x = []" and "\<not> running w t"
  shows "TransactionGuard_drop t (VarControlBlock_wake_all x (update_vcb x (var_value_update (\<lambda>_. a))
      (snd (alloc_arc y (w\<lparr>running := (running w)(t := True)\<rparr>))))) =
    update_vcb x (var_value_update (\<lambda>_. a)) (snd (alloc_arc y w))"
proof (rule world.equality)
  have "vcbs w x\<lparr>var_value := a, waiting_threads := []\<rparr> = vcbs w x\<lparr>var_value := a\<rparr>"
    using assms(1) by (cases "vcbs w x") simp
  note same = this
  show "vcbs (TransactionGuard_drop t (VarControlBlock_wake_all x (update_vcb x (var_value_update (\<lambda>_. a))
      (snd (alloc_arc y (w\<lparr>running := (running w)(t := True)\<rparr>)))))) =
    vcbs (update_vcb x (var_value_update (\<lambda>_. a)) (snd (alloc_arc y w)))"
    using assms(1)
    by (simp add: TransactionGuard_drop_def VarControlBlock_wake_all_def update_vcb_def alloc_arc_def
        split_def same [simplified])
qed (use assms in \<open>simp_all add: TransactionGuard_drop_def VarControlBlock_wake_all_def update_vcb_def alloc_arc_def
  split_def fun_upd_idem\<close>)

lemma with_var_unwatched [simp]: "waiters (with_var x z w) x = []"
  by (simp add: with_var_def TVar_new_def VarControlBlock_new_def Let_def split_def)

lemma fresh_write_same:
  "\<not> running w t \<Longrightarrow>
    TransactionGuard_drop t (VarControlBlock_wake_all x (update_vcb x (var_value_update (\<lambda>_. a))
      (snd (alloc_arc y (with_var x z w\<lparr>running := (running w)(t := True)\<rparr>))))) =
    update_vcb x (var_value_update (\<lambda>_. a)) (snd (alloc_arc y (with_var x z w)))"
  using unwatched_write_same [of "with_var x z w" x t a y] by (simp add: alloc_arc_eq)

lemma write_atomic_example_runs:
  assumes "bed_ok b"
  shows "example_write_atomic b"
proof -
  note run = bed_okD [OF assms] run_simps read_atomic_def read_ref_atomic_def write_back_def Let_def
  show ?thesis
    unfolding example_write_atomic_def
    by (simp add: run fresh_write_same [unfolded alloc_arc_eq snd_conv] write_atomic_def alloc_arc_eq)
qed

lemma tvar_examples_run:
  assumes "bed_ok b"
  shows "example_read_atomic b" and "example_modify b" and "example_replace b"
  by (simp_all add: bed_okD [OF assms] run_simps example_read_atomic_def
      example_modify_def example_replace_def TVar_modify_def TVar_replace_def read_atomic_def
      read_ref_atomic_def write_back_def Let_def)

lemma arc_examples_run:
  assumes "bed_ok b"
  shows "example_tarc b" and "example_modify_cow b" and "example_update b" and "example_tweak b"
  by (simp_all add: bed_okD [OF assms] weak_run_simps example_tarc_def example_tweak_def assert_eq_def
      config_def TArc_modify_cow_def make_mut_shared example_modify_cow_def example_update_def
      strong_count_pos set_live_boxes entry_boxes_def)

text \<open>
  C38. The examples of the documentation run as the comments say, in any world, on any thread that is in
  no transaction and wherever the allocator puts the variables: the values they show or assert are
  the ones computed, no assertion inside a closure panics, and the endless \<^verbatim>\<open>retry\<close> leaves its thread parked.
  \<^verbatim>\<open>read_atomic\<close> returns what the transaction it is compared with returns, and \<^verbatim>\<open>write_atomic\<close> on the fresh
  variable of its example leaves the world its transaction leaves; this does not extend to
  variables somebody waits for.
\<close>

theorem documentation_examples_run:
  assumes "bed_ok b"
  shows "example_atomically b \<and> example_write_then_read b \<and> example_retry b \<and> example_unwrap_or_retry b \<and>
    example_guard b \<and> example_optionally b \<and> example_read_atomic b \<and> example_write_atomic b \<and> example_modify b \<and>
    example_replace b \<and> example_tarc b \<and> example_modify_cow b \<and> example_update b \<and> example_tweak b"
  by (simp add: lib_examples_run [OF assms] tvar_examples_run [OF assms]
      write_atomic_example_runs [OF assms] arc_examples_run [OF assms])

theorem documentation_examples_run_witness:
  "example_unwrap_or_retry demo_bed \<and> example_retry demo_bed \<and> example_tarc demo_bed \<and>
   example_modify_cow demo_bed \<and> example_tweak demo_bed"
  using documentation_examples_run [OF demo_bed_ok] by blast

end
