(* ===== verification/Tests_Threads.thy ===== *)
theory Tests_Threads
  imports Sleepers Anomalies
begin

text \<open>
  The tests with several threads, translated. The source makes one interleaving likely by sleeping;
  here the assertions are proved for every interleaving the machine has, under the conditions the
  sleeps are meant to establish. The tests of \<^verbatim>\<open>control_block.rs\<close> come first.
\<close>

subsection \<open>\<^verbatim>\<open>transaction/control_block.rs\<close>\<close>

text \<open>
  \<^verbatim>\<open>wait\<close> without other threads: whether it returns within the fuel. \<^verbatim>\<open>park\<close> consumes the token, and
  blocks when there is none.
\<close>

fun ControlBlock_wait :: "nat \<Rightarrow> ControlBlock \<Rightarrow> (tid \<Rightarrow> bool) \<Rightarrow> bool" where
  "ControlBlock_wait 0 self tks = False"
| "ControlBlock_wait (Suc n) self tks =
     (if blocked self
      then tks (thread self) \<and> ControlBlock_wait n self (tks(thread self := False))
      else True)"

definition test_blocked :: "nat \<Rightarrow> tid \<Rightarrow> (tid \<Rightarrow> bool) \<Rightarrow> bool" where
  "test_blocked fuel t tks =
     (let ctrl = ControlBlock_new t in \<not> ControlBlock_wait fuel ctrl tks)"

definition wait_after_change :: "nat \<Rightarrow> tid \<Rightarrow> (tid \<Rightarrow> bool) \<Rightarrow> bool" where
  "wait_after_change fuel t tks =
     (let ctrl = ControlBlock_new t;
          (ctrl, tks) = ControlBlock_set_changed ctrl tks
      in ControlBlock_wait fuel ctrl tks)"

definition wait_after_multiple_changes :: "nat \<Rightarrow> tid \<Rightarrow> (tid \<Rightarrow> bool) \<Rightarrow> bool" where
  "wait_after_multiple_changes fuel t tks =
     (let ctrl = ControlBlock_new t;
          (ctrl, tks) = ControlBlock_set_changed ctrl tks;
          (ctrl, tks) = ControlBlock_set_changed ctrl tks;
          (ctrl, tks) = ControlBlock_set_changed ctrl tks;
          (ctrl, tks) = ControlBlock_set_changed ctrl tks
      in ControlBlock_wait fuel ctrl tks)"

text \<open>
  \<^verbatim>\<open>wait_threaded_wakeup\<close>: one thread waits, another one calls \<^verbatim>\<open>set_changed\<close> (waker 0). A schedule says
  whose turn it is, the waiter's (\<open>True\<close>) or the waker's; a thread that is blocked or has returned
  loses its turn.
\<close>

definition wait_next :: "cb_sys \<Rightarrow> cb_sys" where
  "wait_next s =
     (case wpc s of
        WLoad \<Rightarrow> (if blocked (block s) then s\<lparr>wpc := WPark\<rparr> else s\<lparr>wpc := WDone\<rparr>)
      | WPark \<Rightarrow> (if token s then s\<lparr>token := False, wpc := WLoad\<rparr> else s)
      | WDone \<Rightarrow> s)"

definition set_changed_next :: "cb_sys \<Rightarrow> cb_sys" where
  "set_changed_next s =
     (case kpc s 0 of
        KIdle \<Rightarrow>
          s\<lparr>block := (block s)\<lparr>blocked := False\<rparr>,
            kpc := (kpc s)(0 := if blocked (block s) then KUnpark else KSkipped)\<rparr>
      | KUnpark \<Rightarrow> s\<lparr>token := True, kpc := (kpc s)(0 := KWoke)\<rparr>
      | _ \<Rightarrow> s)"

fun run_two :: "bool list \<Rightarrow> cb_sys \<Rightarrow> cb_sys" where
  "run_two [] s = s"
| "run_two (True # turns) s = run_two turns (wait_next s)"
| "run_two (False # turns) s = run_two turns (set_changed_next s)"

definition wait_threaded_wakeup :: "tid \<Rightarrow> bool \<Rightarrow> bool list \<Rightarrow> bool" where
  "wait_threaded_wakeup t stale turns \<longleftrightarrow> wpc (run_two turns (cb_init t stale)) = WDone"

lemma wait_blocked: "blocked c \<Longrightarrow> \<not> ControlBlock_wait n c tks"
  by (induction n c tks rule: ControlBlock_wait.induct) auto

text \<open>A turn is a step of the protocol, or no step.\<close>

lemma wait_next_step: "wait_next s = s \<or> cb_step s (wait_next s)"
  by (cases "wpc s") (auto simp: wait_next_def intro: waiter wait_step.intros)

lemma set_changed_next_step: "set_changed_next s = s \<or> cb_step s (set_changed_next s)"
  by (cases "kpc s 0") (auto simp: set_changed_next_def intro: waker set_changed_step.intros)

lemma run_two_inv:
  "cb_reachable s \<Longrightarrow> \<forall>k. k \<noteq> 0 \<longrightarrow> kpc s k = KIdle \<Longrightarrow>
    cb_reachable (run_two turns s) \<and> (\<forall>k. k \<noteq> 0 \<longrightarrow> kpc (run_two turns s) k = KIdle)"
proof (induction turns s rule: run_two.induct)
  case (2 turns s)
  have "cb_reachable (wait_next s)" using wait_next_step [of s] 2(2) cb_next by metis
  moreover have "kpc (wait_next s) = kpc s"
    by (simp add: wait_next_def split: waiter_pc.split)
  ultimately show ?case using 2 by simp
next
  case (3 turns s)
  have "cb_reachable (set_changed_next s)" using set_changed_next_step [of s] 3(2) cb_next by metis
  moreover have "\<forall>k. k \<noteq> 0 \<longrightarrow> kpc (set_changed_next s) k = KIdle"
    using 3(3) by (simp add: set_changed_next_def split: waker_pc.split)
  ultimately show ?case using 3 by simp
qed simp

lemma run_two_append: "run_two (turns @ turns') s = run_two turns' (run_two turns s)"
  by (induction turns s rule: run_two.induct) simp_all

lemma wait_after_wakeup:
  assumes "cb_reachable s" and "\<forall>k. k \<noteq> 0 \<longrightarrow> kpc s k = KIdle"
    and "kpc s 0 = KWoke \<or> kpc s 0 = KSkipped"
  shows "wpc (wait_next (wait_next s)) = WDone"
proof -
  note inv = cb_reachable_inv [OF assms(1)]
  have changed: "\<not> blocked (block s)" by (rule cb_reachable_changed [OF assms(1), of 0]) (use assms(3) in auto)
  have "kpc s k \<noteq> KUnpark" for k using assms(2,3) by (cases "k = 0") auto
  then have "wpc s = WPark \<Longrightarrow> token s" using cb_invE_changed [OF inv changed] by metis
  with changed show ?thesis by (cases "wpc s") (simp_all add: wait_next_def)
qed

lemma set_changed_twice:
  "kpc (set_changed_next (set_changed_next s)) 0 \<in> {KWoke, KSkipped}"
  by (cases "kpc s 0") (simp_all add: set_changed_next_def)

lemma wakeup_terminates: "wait_threaded_wakeup t stale (turns @ [False, False, True, True])"
proof -
  let ?s = "run_two turns (cb_init t stale)"
  let ?s' = "set_changed_next (set_changed_next ?s)"
  have eq: "?s' = run_two (turns @ [False, False]) (cb_init t stale)" by (simp add: run_two_append)
  have "\<forall>k. k \<noteq> 0 \<longrightarrow> kpc (cb_init t stale) k = KIdle" by (simp add: cb_init_def)
  from run_two_inv [OF cb_start this, of "turns @ [False, False]"]
  have "wpc (wait_next (wait_next ?s')) = WDone"
    unfolding eq [symmetric] using set_changed_twice [of ?s] by (intro wait_after_wakeup) auto
  then show ?thesis by (simp add: wait_threaded_wakeup_def run_two_append)
qed

text \<open>
  The tests of \<^verbatim>\<open>ControlBlock\<close>: \<^verbatim>\<open>wait\<close> on a new block never returns, whatever stale token the
  thread has; after one call of \<^verbatim>\<open>set_changed\<close> or several it returns at once; and with \<^verbatim>\<open>wait\<close> and
  \<^verbatim>\<open>set_changed\<close> in two threads, however their first steps interleave, \<^verbatim>\<open>wait\<close> has returned once the
  caller of \<^verbatim>\<open>set_changed\<close> has had two more turns and then the waiter two.
\<close>

theorem control_block_tests_pass:
  "test_blocked n t tks \<and> wait_after_change (Suc n) t tks \<and>
   wait_after_multiple_changes (Suc n) t tks \<and>
   wait_threaded_wakeup t stale (turns @ [False, False, True, True])"
proof (intro conjI)
  show "test_blocked n t tks"
    by (simp add: test_blocked_def wait_blocked ControlBlock_new_def)
  show "wait_after_change (Suc n) t tks" and "wait_after_multiple_changes (Suc n) t tks"
    by (simp_all add: wait_after_change_def wait_after_multiple_changes_def
        ControlBlock_set_changed_def ControlBlock_new_def)
qed (rule wakeup_terminates)

subsection \<open>\<^verbatim>\<open>lib.rs\<close>\<close>

text \<open>\<^verbatim>\<open>threaded\<close>: thread 1 blocks until the variable is not 0, thread 2 writes 42.\<close>

definition threaded_reader :: "TVar \<Rightarrow> prog" where
  "threaded_reader var = ReadVar var (\<lambda>x. Done (if x = VInt 0 then retry else Inr x))"

definition threaded_writer :: "TVar \<Rightarrow> prog" where
  "threaded_writer var = WriteVar var (VInt 42) (Done (Inr VUnit))"

text \<open>
  \<^verbatim>\<open>read_write_interfere\<close>: thread 1 adds 10 to the variable, thread 2 writes 32 in between.
\<close>

fun plus_ten :: "val \<Rightarrow> val" where
  "plus_ten (VInt n) = VInt (n + 10)"
| "plus_ten v = v"

definition interfere_adder :: "TVar \<Rightarrow> prog" where
  "interfere_adder var = ReadVar var (\<lambda>x. WriteVar var (plus_ten x) (Done (Inr VUnit)))"

definition interfere_writer :: "TVar \<Rightarrow> prog" where
  "interfere_writer var = WriteVar var (VInt 32) (Done (Inr VUnit))"

lemma threaded_specs:
  "spec (threaded_reader v) \<sigma> =
    (if \<sigma> (control_block v) = VInt 0 then (Inl Retry, \<sigma>) else (Inr (\<sigma> (control_block v)), \<sigma>))"
  "spec (threaded_writer v) \<sigma> = (Inr VUnit, \<sigma>(control_block v := VInt 42))"
  "spec (interfere_adder v) \<sigma> =
    (Inr VUnit, \<sigma>(control_block v := plus_ten (\<sigma> (control_block v))))"
  "spec (interfere_writer v) \<sigma> = (Inr VUnit, \<sigma>(control_block v := VInt 32))"
  by (simp_all add: threaded_reader_def threaded_writer_def interfere_adder_def interfere_writer_def
      spec_defs)

lemma threaded_free:
  "or_free (threaded_reader v)" "or_free (threaded_writer v)"
  "or_free (interfere_adder v)" "or_free (interfere_writer v)"
  by (simp_all add: threaded_reader_def threaded_writer_def interfere_adder_def interfere_writer_def)

definition threaded_label :: "TVar \<Rightarrow> label \<Rightarrow> bool" where
  "threaded_label v l \<longleftrightarrow> l = Tau \<or> (\<exists>x. l = Commits 1 (threaded_reader v) x) \<or>
     (\<exists>x. l = Commits 2 (threaded_writer v) x)"

abbreviation spec_exec :: semantics where
  "spec_exec \<equiv> \<lambda>p \<sigma> v \<sigma>'. spec p \<sigma> = (Inr v, \<sigma>')"

lemma resting_stores_nothing: "resting s t \<Longrightarrow> to_store (pc_of s t) = []"
  by (auto simp: resting_def)

text \<open>At rest everything committed has been stored, so the variables hold the store of the serial run.\<close>

lemma rest_contents:
  assumes "rwlock_live may_read may_write" and "initial \<Gamma> L s"
    and "mrun may_read may_write \<Gamma> L s ls s'" and "\<And>t p v. Commits t p v \<in> set ls \<Longrightarrow> or_free p"
    and "\<And>t. \<not> can_step may_read may_write s' t"
  shows "serial spec_exec (contents (shared s)) ls (contents (shared s'))" and "resting s' t"
proof -
  have rw: "rwlock may_read may_write" using assms(1) by (simp add: rwlock_live_def)
  from rwlock.simulation [OF rw assms(3,2)] rwlock.handles_ok_run [OF rw assms(3,2)]
  have ok: "sys_ok \<Gamma> L s'" "handles_ok s'" by blast+
  have rest: "resting s' t" for t
    using rwlock_live.somebody_can_step [OF assms(1) ok] assms(5) by blast
  then show "resting s' t" .
  obtain \<sigma> where "serial spec_exec (contents (shared s)) ls \<sigma>"
    and "(\<forall>t. to_store (pc_of s' t) = []) \<longrightarrow> contents (shared s') = \<sigma>"
    by (rule or_free_simulation [OF rw assms(2,3)]) (rule assms(4))
  with resting_stores_nothing [OF rest]
  show "serial spec_exec (contents (shared s)) ls (contents (shared s'))" by simp
qed

text \<open>
  What \<^verbatim>\<open>threaded\<close> and \<^verbatim>\<open>threaded_visibility\<close> share: thread 1 retries as long as the variable shows 0, and
  thread 2 writes \<open>y\<close>. What a value shows is the value itself, or what the \<^verbatim>\<open>Arc\<close> points to.
\<close>

locale handshake =
  fixes reader :: prog and writer :: prog and x :: vcb_ref and shown :: "val \<Rightarrow> val" and y :: val
  assumes reader_spec: "spec reader \<sigma> =
      (if shown (\<sigma> x) = VInt 0 then (Inl Retry, \<sigma>) else (Inr (shown (\<sigma> x)), \<sigma>))"
    and writer_spec: "spec writer \<sigma> = (Inr VUnit, \<sigma>(x := y))"
    and free: "or_free reader" "or_free writer"
    and signal: "shown y \<noteq> VInt 0"
begin

definition expected :: "label \<Rightarrow> bool" where
  "expected l \<longleftrightarrow> l = Tau \<or> (\<exists>v. l = Commits 1 reader v) \<or> (\<exists>v. l = Commits 2 writer v)"

lemma expected_free: "expected (Commits t p v) \<Longrightarrow> or_free p"
  using free by (auto simp: expected_def)

lemma serial_outcome:
  assumes "serial spec_exec \<sigma>0 ls \<sigma>" and "shown (\<sigma>0 x) = VInt 0" and "\<And>l. l \<in> set ls \<Longrightarrow> expected l"
  shows "\<sigma> x = (if \<exists>v. Commits 2 writer v \<in> set ls then y else \<sigma>0 x) \<and>
    (\<forall>v. Commits 1 reader v \<in> set ls \<longrightarrow> v = shown y)"
  using assms
proof (induction rule: serial.induct)
  case (serial_snoc s ls s' l s'')
  have IH: "s' x = (if \<exists>v. Commits 2 writer v \<in> set ls then y else s x)"
    "\<forall>v. Commits 1 reader v \<in> set ls \<longrightarrow> v = shown y"
    using serial_snoc.IH [OF serial_snoc.prems(1)] serial_snoc.prems(2) by auto
  have "expected l" using serial_snoc.prems(2) by simp
  then consider "l = Tau" | v where "l = Commits 1 reader v" | v where "l = Commits 2 writer v"
    unfolding expected_def by blast
  then show ?case
    using serial_snoc.hyps(2) serial_snoc.prems(1) IH
    by cases (auto simp: serial_step_simps reader_spec writer_spec split: if_splits)
qed simp

lemma outcome:
  assumes "rwlock_live may_read may_write" and "initial \<Gamma> L s"
    and "shown (contents (shared s) x) = VInt 0"
    and "mrun may_read may_write \<Gamma> L s ls s'" and "\<And>l. l \<in> set ls \<Longrightarrow> expected l"
  shows "(\<forall>v. Commits 1 reader v \<in> set ls \<longrightarrow> v = shown y) \<and>
    ((\<exists>v. Commits 2 writer v \<in> set ls) \<and>
     (\<forall>t. \<not> can_step may_read may_write s' t) \<and> closure (thr s' 1) = reader \<longrightarrow>
       pc_of s' 1 = Idle \<and> contents (shared s') x = y)"
proof (intro conjI impI; (elim conjE)?)
  have rw: "rwlock may_read may_write" using assms(1) by (simp add: rwlock_live_def)
  have or_free: "or_free p" if "Commits t p v \<in> set ls" for t p v
    using assms(5) [OF that] by (rule expected_free)
  obtain \<sigma> where "serial spec_exec (contents (shared s)) ls \<sigma>"
    by (rule or_free_simulation [OF rw assms(2,4)]) (rule or_free)
  from serial_outcome [OF this assms(3,5)]
  show "\<forall>v. Commits 1 reader v \<in> set ls \<longrightarrow> v = shown y" by blast
  assume w: "\<exists>v. Commits 2 writer v \<in> set ls"
    and stuck: "\<forall>t. \<not> can_step may_read may_write s' t" and closure: "closure (thr s' 1) = reader"
  have "serial spec_exec (contents (shared s)) ls (contents (shared s'))"
    by (rule rest_contents(1) [OF assms(1,2,4)]) (use or_free stuck in blast)+
  from serial_outcome [OF this assms(3,5)] w
  show final: "contents (shared s') x = y" by simp
  show "pc_of s' 1 = Idle"
  proof (rule ccontr)
    assume "pc_of s' 1 \<noteq> Idle"
    moreover have "resting s' 1"
      by (rule rest_contents(2) [OF assms(1,2,4)]) (use or_free stuck in blast)+
    ultimately obtain c reads where asleep: "pc_of s' 1 = Parking c reads"
      unfolding resting_def by blast
    have "Writes z u \<notin> set ls" for z u using assms(5) by (fastforce simp: expected_def)
    note sleeper = rest_sleepers_retry [OF assms(1,2,4) this stuck [rule_format] asleep, unfolded closure]
    have "fst (spec reader (contents (shared s'))) = Inl Retry"
      by (rule sleeper) (rule free(1))
    with final signal show False by (simp add: reader_spec)
  qed
qed

end

interpretation threaded: handshake "threaded_reader v" "threaded_writer v" "control_block v" "\<lambda>x. x" "VInt 42"
  for v
  by unfold_locales (simp_all add: threaded_specs threaded_free)

lemma threaded_label_expected: "threaded_label v l \<Longrightarrow> threaded.expected v l"
  by (simp add: threaded_label_def threaded.expected_def)

text \<open>
  \<^verbatim>\<open>threaded\<close>, for every interleaving and every lock: with the variable initially 0 and the
  reader on thread 1, the writer on thread 2, the reader only ever returns 42; and when the
  writer has committed and no thread can step any more, the reader is not asleep, it has returned.
\<close>

theorem threaded_passes:
  assumes "rwlock_live may_read may_write" and "initial \<Gamma> L s" and "var_ok \<Gamma> L v"
    and "contents (shared s) (control_block v) = VInt 0"
    and "mrun may_read may_write \<Gamma> L s ls s'" and "\<And>l. l \<in> set ls \<Longrightarrow> threaded_label v l"
  shows "(\<forall>x. Commits 1 (threaded_reader v) x \<in> set ls \<longrightarrow> x = VInt 42) \<and>
    ((\<exists>x. Commits 2 (threaded_writer v) x \<in> set ls) \<and>
     (\<forall>t. \<not> can_step may_read may_write s' t) \<and> closure (thr s' 1) = threaded_reader v \<longrightarrow>
       pc_of s' 1 = Idle \<and> contents (shared s') (control_block v) = VInt 42)"
  by (rule threaded.outcome [OF assms(1,2,4,5)]) (rule threaded_label_expected [OF assms(6)])

text \<open>
  \<^verbatim>\<open>read_write_interfere\<close>, for every interleaving: when both have committed and stored, the
  variable holds 42 if the write of 32 came before the commit of the addition, however early the
  addition had read the variable, and 32 otherwise. No update is lost.
\<close>

theorem read_write_interfere_passes:
  assumes "rwlock may_read may_write" and "initial \<Gamma> L s"
    and "contents (shared s) (control_block v) = VInt 0"
    and "mrun may_read may_write \<Gamma> L s ls s'" and "\<And>t. to_store (pc_of s' t) = []"
  shows "(visible ls = [Commits 2 (interfere_writer v) x, Commits 1 (interfere_adder v) y] \<longrightarrow>
      contents (shared s') (control_block v) = VInt 42) \<and>
    (visible ls = [Commits 1 (interfere_adder v) y, Commits 2 (interfere_writer v) x] \<longrightarrow>
      contents (shared s') (control_block v) = VInt 32)"
proof -
  have "contents (shared s') (control_block v) =
      (if hd (visible ls) = Commits 2 (interfere_writer v) x then VInt 42 else VInt 32)"
    if two: "visible ls \<in> {[Commits 2 (interfere_writer v) x, Commits 1 (interfere_adder v) y],
      [Commits 1 (interfere_adder v) y, Commits 2 (interfere_writer v) x]}"
  proof -
    have "or_free p" if "Commits t p z \<in> set ls" for t p z
    proof -
      have "Commits t p z \<in> set (visible ls)" using that by (simp add: visible_filter)
      with two threaded_free show ?thesis by auto
    qed
    then obtain \<sigma> where "serial spec_exec (contents (shared s)) ls \<sigma>"
      and "(\<forall>t. to_store (pc_of s' t) = []) \<longrightarrow> contents (shared s') = \<sigma>"
      by (rule or_free_simulation [OF assms(1,2,4)])
    with assms(5) have "serial spec_exec (contents (shared s)) (visible ls) (contents (shared s'))"
      by (simp add: serial_visible)
    with two assms(3) show ?thesis by (auto simp: serial_step_simps threaded_specs)
  qed
  then show ?thesis by auto
qed

subsection \<open>Concrete interleavings\<close>

lemma demo_commits_started:
  assumes "run_schedule ts evs demo_sys = Some (ls, s)" and "Commits t p v \<in> set ls"
  shows "Start t p \<in> set evs"
  using schedule_commits [OF assms] by (auto simp: demo_sys_def)

text \<open>\<^verbatim>\<open>threaded\<close>: the reader sleeps, the writer commits and wakes it, the reader returns 42.\<close>

definition threaded_events :: "event list" where
  "threaded_events = Start 1 (threaded_reader demo_y) # gos 1 6 @
     Start 2 (threaded_writer demo_y) # gos 2 13 @ gos 1 12"

lemma threaded_run:
  "map_option (\<lambda>(ls, s). (map committed (visible ls), is_idle (pc_of s 1), is_idle (pc_of s 2)))
     (run_schedule [1, 2] threaded_events demo_sys) =
   Some ([Some (2, VUnit), Some (1, VInt 42)], True, True)"
  by code_simp

lemma demo_y_ok:
  "var_ok demo_types {VCB 16, VCB 64} demo_y" "control_block demo_y = VCB 64"
  by (simp_all add: var_ok_def demo_y_def demo_types_def)

lemma tests_ok:
  "prog_ok demo_types {VCB 16, VCB 64} (threaded_reader demo_y)"
  "prog_ok demo_types {VCB 16, VCB 64} (threaded_writer demo_y)"
  "prog_ok demo_types {VCB 16, VCB 64} (interfere_adder demo_y)"
  "prog_ok demo_types {VCB 16, VCB 64} (interfere_writer demo_y)"
proof -
  have "type_id (plus_ten x) = TyInt" if "type_id x = TyInt" for x
    using that by (cases x) simp_all
  then show "prog_ok demo_types {VCB 16, VCB 64} (threaded_reader demo_y)"
    "prog_ok demo_types {VCB 16, VCB 64} (threaded_writer demo_y)"
    "prog_ok demo_types {VCB 16, VCB 64} (interfere_adder demo_y)"
    "prog_ok demo_types {VCB 16, VCB 64} (interfere_writer demo_y)"
    by (simp_all add: threaded_reader_def threaded_writer_def interfere_adder_def
        interfere_writer_def var_ok_def demo_y_def demo_types_def)
qed

lemma two_idle:
  assumes "idle_but [1, 2] s" and "is_idle (pc_of s 1)" and "is_idle (pc_of s 2)"
  shows "pc_of s t = Idle"
  using assms by (cases "t \<in> {1, 2}") (auto simp: idle_but_def is_idle_iff)

theorem threaded_passes_witness:
  "\<exists>ls s. mrun eager_read writer_first_write demo_types {VCB 16, VCB 64} demo_sys ls s \<and>
    (\<exists>x. Commits 1 (threaded_reader demo_y) x \<in> set ls \<and> x = VInt 42) \<and> pc_of s 1 = Idle"
proof -
  from threaded_run obtain ls s where r: "run_schedule [1, 2] threaded_events demo_sys = Some (ls, s)"
    and c: "map committed (visible ls) = [Some (2, VUnit), Some (1, VInt 42)]"
    and s: "is_idle (pc_of s 1)" "is_idle (pc_of s 2)" by auto
  have ok: "list_all (event_ok demo_types {VCB 16, VCB 64}) threaded_events"
    using tests_ok by (simp add: threaded_events_def gos_def list_all_iff)
  note m = schedule_mrun [OF r demo_idle ok]
  then have run: "mrun eager_read writer_first_write demo_types {VCB 16, VCB 64} demo_sys ls s"
    and idle: "\<And>t. pc_of s t = Idle" using two_idle s by blast+
  have vis: "set (visible ls) = {l \<in> set ls. l \<noteq> Tau}" by (auto simp: visible_filter)
  from c obtain p q where v: "visible ls = [Commits 2 q VUnit, Commits 1 p (VInt 42)]"
    by (auto simp: map_eq_Cons_conv committed_iff)
  then have mem: "Commits 2 q VUnit \<in> set ls" "Commits 1 p (VInt 42) \<in> set ls"
    using vis by auto
  have p: "p = threaded_reader demo_y" and q: "q = threaded_writer demo_y"
    using demo_commits_started [OF r mem(1)] demo_commits_started [OF r mem(2)] by (auto simp: threaded_events_def gos_def)
  have "threaded_label demo_y l" if "l \<in> set ls" for l
    using that vis v p q unfolding threaded_label_def by auto
  moreover have "contents (shared demo_sys) (control_block demo_y) = VInt 0"
    by (simp add: demo_sys_def demo_y_ok contents_eq)
  ultimately have "\<forall>x. Commits 1 (threaded_reader demo_y) x \<in> set ls \<longrightarrow> x = VInt 42"
    using threaded_passes [OF eager_lock.rwlock_live_axioms demo_initial demo_y_ok(1) _ run] by blast
  with run mem(2) p idle [of 1] show ?thesis by blast
qed

text \<open>
  \<^verbatim>\<open>read_write_interfere\<close>: the adder has read 0 when 32 is written; its commit fails and it adds to
  32.
\<close>

definition interfere_events :: "event list" where
  "interfere_events = Start 1 (interfere_adder demo_y) # gos 1 1 @
     Start 2 (interfere_writer demo_y) # gos 2 9 @ gos 1 15"

lemma interfere_run:
  "map_option (\<lambda>(ls, s). (map committed (visible ls), is_idle (pc_of s 1), is_idle (pc_of s 2)))
     (run_schedule [1, 2] interfere_events demo_sys) =
   Some ([Some (2, VUnit), Some (1, VUnit)], True, True)"
  by code_simp

theorem read_write_interfere_passes_witness:
  "\<exists>ls s. mrun eager_read writer_first_write demo_types {VCB 16, VCB 64} demo_sys ls s \<and>
    visible ls = [Commits 2 (interfere_writer demo_y) VUnit, Commits 1 (interfere_adder demo_y) VUnit] \<and>
    contents (shared s) (control_block demo_y) = VInt 42"
proof -
  from interfere_run obtain ls s where r: "run_schedule [1, 2] interfere_events demo_sys = Some (ls, s)"
    and c: "map committed (visible ls) = [Some (2, VUnit), Some (1, VUnit)]"
    and s: "is_idle (pc_of s 1)" "is_idle (pc_of s 2)" by auto
  have ok: "list_all (event_ok demo_types {VCB 16, VCB 64}) interfere_events"
    using tests_ok by (simp add: interfere_events_def gos_def list_all_iff)
  note m = schedule_mrun [OF r demo_idle ok]
  then have run: "mrun eager_read writer_first_write demo_types {VCB 16, VCB 64} demo_sys ls s"
    and idle: "\<And>t. pc_of s t = Idle" using two_idle s by blast+
  from c obtain p q where v: "visible ls = [Commits 2 q VUnit, Commits 1 p VUnit]"
    by (auto simp: map_eq_Cons_conv committed_iff)
  then have mem: "Commits 2 q VUnit \<in> set ls" "Commits 1 p VUnit \<in> set ls"
    by (metis filter_is_subset list.set_intros subsetD visible_filter)+
  have p: "p = interfere_adder demo_y" and q: "q = interfere_writer demo_y"
    using demo_commits_started [OF r mem(1)] demo_commits_started [OF r mem(2)] by (auto simp: interfere_events_def gos_def)
  have "contents (shared demo_sys) (control_block demo_y) = VInt 0"
    by (simp add: demo_sys_def demo_y_ok contents_eq)
  from read_write_interfere_passes [OF eager_lock.rwlock_axioms demo_initial this run] idle v p q
  have "contents (shared s) (control_block demo_y) = VInt 42" by simp
  with run v p q show ?thesis by blast
qed

end
