(* ===== verification/Tests_Shared.thy ===== *)
theory Tests_Shared
  imports Tests_Threads Tests_Arc Boxes
begin

text \<open>
  The tests whose threads share \<^verbatim>\<open>Arc\<close>s, for every interleaving: \<^verbatim>\<open>threaded_visibility\<close> of \<^verbatim>\<open>tarc.rs\<close> and
  \<^verbatim>\<open>concurrent_overwrite_drops_all_old_values\<close> of \<^verbatim>\<open>test.rs\<close>.
\<close>

subsection \<open>\<^verbatim>\<open>threaded_visibility\<close>\<close>

text \<open>
  The reader dereferences, inside the closure, the \<^verbatim>\<open>Arc\<close> it has read. The boxes behind the \<^verbatim>\<open>Arc\<close>s never
  change and are not freed while somebody holds them, so the closure is given the memory they are in.
  The \<^verbatim>\<open>Arc\<close> that \<^verbatim>\<open>write_val\<close> makes for 77 is made before the threads start, instead of in each attempt of the
  writer.
\<close>

fun pointee :: "arena \<Rightarrow> val \<Rightarrow> val" where
  "pointee h (VArc T a) = deref h a"
| "pointee h v = v"

definition visibility_init :: "vcb_ref \<Rightarrow> world \<Rightarrow> TArc \<times> TArc \<times> world" where
  "visibility_init addr w =
     (let (v, w1) = TArc_new addr (VInt 0) w;
          vc = TArc_clone v
      in (v, vc, w1))"

definition visibility_payload :: "world \<Rightarrow> arc \<times> world" where
  "visibility_payload w = alloc_arc (VInt 77) w"

definition visibility_reader :: "arena \<Rightarrow> TArc \<Rightarrow> prog" where
  "visibility_reader h vc =
     ReadVar (TArc.inner vc) (\<lambda>r. let x = pointee h r in Done (if x = VInt 0 then retry else Inr x))"

definition visibility_writer :: "TArc \<Rightarrow> arc \<Rightarrow> prog" where
  "visibility_writer v a = WriteVar (TArc.inner v) (VArc TyInt a) (Done (Inr VUnit))"

lemma visibility_handshake:
  assumes "deref h a = VInt 77" and "TArc.inner vc = TArc.inner v"
  shows "handshake (visibility_reader h vc) (visibility_writer v a) (control_block (TArc.inner v)) (pointee h)
    (VArc TyInt a)"
  by unfold_locales
    (simp_all add: visibility_reader_def visibility_writer_def spec_defs Let_def assms)

lemma visibility_init_ok:
  assumes "visibility_init addr w = (v, vc, w1)" and "visibility_payload w1 = (a, w')"
  shows "deref (heap w') a = VInt 77" and "allocated (heap w') a" and "TArc.inner vc = TArc.inner v"
    and "pointee (heap w') (contents w' (control_block (TArc.inner v))) = VInt 0"
  using assms
  by (auto simp: visibility_init_def visibility_payload_def TArc_new_def TArc_clone_def TVar_new_def VarControlBlock_new_def
      contents_eq deref_Arc_new allocated_def alloc_arc_def Arc_new_def deref_def Let_def split: prod.splits)

definition visibility_label :: "arena \<Rightarrow> TArc \<Rightarrow> TArc \<Rightarrow> arc \<Rightarrow> label \<Rightarrow> bool" where
  "visibility_label h v vc a l \<longleftrightarrow> l = Tau \<or> (\<exists>x. l = Commits 1 (visibility_reader h vc) x) \<or>
     (\<exists>x. l = Commits 2 (visibility_writer v a) x)"

text \<open>
  C34. \<^verbatim>\<open>threaded_visibility\<close>, for every interleaving and every lock: from its initial state, with the closure that
  dereferences and retries on thread 1 and \<^verbatim>\<open>write_val(77)\<close> on thread 2, the reader only ever returns 77; and
  when the writer has committed and no thread can step any more, the reader is not asleep, it has
  returned, and the variable holds an \<^verbatim>\<open>Arc\<close> to 77.
\<close>

theorem threaded_visibility_passes:
  assumes "rwlock_live may_read may_write" and "initial \<Gamma> L s"
    and "visibility_init addr w = (v, vc, w1)" and "visibility_payload w1 = (a, shared s)"
    and "mrun may_read may_write \<Gamma> L s ls s'"
    and "\<And>l. l \<in> set ls \<Longrightarrow> visibility_label (heap (shared s)) v vc a l"
  shows "(\<forall>x. Commits 1 (visibility_reader (heap (shared s)) vc) x \<in> set ls \<longrightarrow> x = VInt 77) \<and>
    ((\<exists>x. Commits 2 (visibility_writer v a) x \<in> set ls) \<and>
     (\<forall>t. \<not> can_step may_read may_write s' t) \<and>
     closure (thr s' 1) = visibility_reader (heap (shared s)) vc \<longrightarrow>
       pc_of s' 1 = Idle \<and>
       pointee (heap (shared s')) (contents (shared s') (control_block (TArc.inner v))) = VInt 77)"
proof -
  note bed = visibility_init_ok [OF assms(3,4)]
  note hand = visibility_handshake [OF bed(1,3)]
  have rw: "rwlock may_read may_write" using assms(1) by (simp add: rwlock_live_def)
  have "extends (heap (shared s)) (heap (shared s'))"
    using rwlock.boxes_run [OF rw assms(5) initial_sys_ok [OF assms(2)] initial_boxes(1) [OF assms(2)]]
    by blast
  then have "deref (heap (shared s')) a = VInt 77"
    using extends_deref [OF _ bed(2)] bed(1) by simp
  moreover have "handshake.expected (visibility_reader (heap (shared s)) vc) (visibility_writer v a) l"
    if "l \<in> set ls" for l
    using assms(6) [OF that] by (simp add: handshake.expected_def [OF hand] visibility_label_def)
  note out = handshake.outcome [OF hand assms(1,2) bed(4) assms(5) this]
  ultimately show ?thesis using out by (auto simp: bed(1))
qed

text \<open>The reader sleeps, the writer commits and wakes it, the reader returns 77.\<close>

definition visible_tarc :: TArc where
  "visible_tarc = \<lparr>TArc.inner = \<lparr>control_block = VCB 32, marker = TyArc TyInt\<rparr>\<rparr>"

definition visibility_sys :: sys where
  "visibility_sys =
     \<lparr>shared = snd (visibility_payload (snd (snd (visibility_init (VCB 32) empty_world)))),
      thr = (\<lambda>_. \<lparr>closure = Done retry, pc = Idle\<rparr>)\<rparr>"

definition visibility_events :: "event list" where
  "visibility_events =
     Start 1 (visibility_reader (heap (shared visibility_sys)) visible_tarc) # gos 1 6 @
     Start 2 (visibility_writer visible_tarc 2) # gos 2 13 @ gos 1 12"

lemma visibility_run:
  "map_option (\<lambda>(ls, s). (map committed (visible ls), is_idle (pc_of s 1), is_idle (pc_of s 2)))
     (run_schedule [1, 2] visibility_events visibility_sys) =
   Some ([Some (2, VUnit), Some (1, VInt 77)], True, True)"
  by code_simp

lemma visibility_start:
  "visibility_init (VCB 32) empty_world = (visible_tarc, visible_tarc, snd (snd (visibility_init (VCB 32) empty_world)))"
  "visibility_payload (snd (snd (visibility_init (VCB 32) empty_world))) = (2, shared visibility_sys)"
  "initial (\<lambda>_. TyArc TyInt) {VCB 32} visibility_sys"
proof -
  note defs = visibility_sys_def visibility_init_def visibility_payload_def visible_tarc_def TArc_new_def TArc_clone_def TVar_new_def
    VarControlBlock_new_def empty_world_def empty_arena_def alloc_arc_def Arc_new_def Let_def
  show "visibility_init (VCB 32) empty_world =
      (visible_tarc, visible_tarc, snd (snd (visibility_init (VCB 32) empty_world)))"
    and "visibility_payload (snd (snd (visibility_init (VCB 32) empty_world))) = (2, shared visibility_sys)"
    by (simp_all add: defs)
  show "initial (\<lambda>_. TyArc TyInt) {VCB 32} visibility_sys"
    by (auto simp: initial_def defs world_ok_def arc_typed_def allocated_def deref_def)
qed

theorem threaded_visibility_passes_witness:
  "\<exists>ls s. mrun eager_read writer_first_write (\<lambda>_. TyArc TyInt) {VCB 32} visibility_sys ls s \<and>
    (\<exists>x. Commits 1 (visibility_reader (heap (shared visibility_sys)) visible_tarc) x \<in> set ls \<and>
      x = VInt 77) \<and> pc_of s 1 = Idle"
proof -
  let ?reader = "visibility_reader (heap (shared visibility_sys)) visible_tarc"
  let ?writer = "visibility_writer visible_tarc 2"
  from visibility_run obtain ls s where r: "run_schedule [1, 2] visibility_events visibility_sys = Some (ls, s)"
    and c: "map committed (visible ls) = [Some (2, VUnit), Some (1, VInt 77)]"
    and s: "is_idle (pc_of s 1)" "is_idle (pc_of s 2)" by auto
  have ok: "list_all (event_ok (\<lambda>_. TyArc TyInt) {VCB 32}) visibility_events"
    by (auto simp: visibility_events_def gos_def list_all_iff visibility_reader_def visibility_writer_def
        visible_tarc_def var_ok_def Let_def)
  have none: "idle_but [1, 2] visibility_sys" by (simp add: idle_but_def visibility_sys_def)
  note m = schedule_mrun [OF r none ok]
  then have run: "mrun eager_read writer_first_write (\<lambda>_. TyArc TyInt) {VCB 32} visibility_sys ls s"
    and idle: "\<And>t. pc_of s t = Idle" using two_idle s by blast+
  have vis: "set (visible ls) = {l \<in> set ls. l \<noteq> Tau}" by (auto simp: visible_filter)
  from c obtain p q where v: "visible ls = [Commits 2 q VUnit, Commits 1 p (VInt 77)]"
    by (auto simp: map_eq_Cons_conv committed_iff)
  then have mem: "Commits 2 q VUnit \<in> set ls" "Commits 1 p (VInt 77) \<in> set ls"
    using vis by auto
  have p: "p = ?reader" and q: "q = ?writer"
    using schedule_commits [OF r mem(1)] schedule_commits [OF r mem(2)]
    by (auto simp: visibility_events_def gos_def visibility_sys_def)
  have "visibility_label (heap (shared visibility_sys)) visible_tarc visible_tarc 2 l" if "l \<in> set ls" for l
    using that vis v p q unfolding visibility_label_def by auto
  from threaded_visibility_passes [OF eager_lock.rwlock_live_axioms visibility_start(3,1,2) run this]
  have "\<forall>x. Commits 1 ?reader x \<in> set ls \<longrightarrow> x = VInt 77" by blast
  with run mem(2) p idle [of 1] show ?thesis by blast
qed

subsection \<open>\<^verbatim>\<open>concurrent_overwrite_drops_all_old_values\<close>\<close>

text \<open>
  Any number of threads overwrite a variable, each time with a payload made in the closure, again in
  each attempt. \<^verbatim>\<open>write_val\<close> makes an \<^verbatim>\<open>Arc\<close> of the payload and moves it into the box that \<^verbatim>\<open>write\<close> makes; nobody in
  the test reads or clones that \<^verbatim>\<open>Arc\<close>, so payload and box are dropped together and the model has one box for
  both, a value \<open>payload n\<close>.
\<close>

definition payload :: "int \<Rightarrow> val" where
  "payload n = VUser ''Counted'' [VInt n]"

definition overwrite_writer :: "TArc \<Rightarrow> int \<Rightarrow> prog" where
  "overwrite_writer var n = WriteVar (TArc.inner var) (payload n) (Done (Inr VUnit))"

fun is_payload :: "val \<Rightarrow> bool" where
  "is_payload (VUser c [VInt i]) = (c = ''Counted'')"
| "is_payload _ = False"

lemma is_payload_payload [simp]: "is_payload (payload i)"
  by (simp add: payload_def)

text \<open>The payloads made in a run, and those of them and of the initial one that nobody holds any more.\<close>

definition payloads_made :: "sys \<Rightarrow> sys \<Rightarrow> arc set" where
  "payloads_made s s' = {a. allocated (heap (shared s')) a \<and> \<not> allocated (heap (shared s)) a \<and>
     is_payload (deref (heap (shared s')) a)}"

definition payloads_dropped :: "sys \<Rightarrow> sys \<Rightarrow> arc set" where
  "payloads_dropped s s' =
     (payloads_made s s' \<union> {a \<in> held_boxes s. is_payload (deref (heap (shared s)) a)}) - held_boxes s'"

text \<open>\<^verbatim>\<open>drop(var)\<close>, the last handle.\<close>

definition drop_var :: "TArc \<Rightarrow> sys \<Rightarrow> sys" where
  "drop_var var s = s\<lparr>shared := drop_last_handle (TArc.inner var) (shared s)\<rparr>"

text \<open>The commits of a run, in their order: which thread stored the payload with which id.\<close>

definition overwrites :: "TArc \<Rightarrow> (tid \<times> int) list \<Rightarrow> label list" where
  "overwrites var ws = map (\<lambda>(t, i). Commits t (overwrite_writer var i) VUnit) ws"

lemma overwrites_serial:
  "serial spec_exec \<sigma> (overwrites var ws) \<sigma>' \<Longrightarrow> \<sigma> (control_block (TArc.inner var)) = payload p \<Longrightarrow>
    \<sigma>' (control_block (TArc.inner var)) = payload (last (p # map snd ws))"
  by (induction ws arbitrary: \<sigma> p)
    (auto simp: overwrites_def overwrite_writer_def serial_step_simps spec_defs split: if_splits)

subsubsection \<open>There are at least as many payloads as commits\<close>

text \<open>
  Before it commits, a writer has made a payload for the commit: it is past its write. The threads that
  are past their write account for payloads not yet committed.
\<close>

fun past_write :: "pc \<Rightarrow> bool" where
  "past_write (Run (Done r) tx fs) = True"
| "past_write (Locking dn todo rs ws wr v) = True"
| "past_write _ = False"

fun writer_pc :: "prog \<Rightarrow> pc \<Rightarrow> bool" where
  "writer_pc p0 (Run p tx fs) = (fs = [] \<and> (p = p0 \<or> p = Done (Inr VUnit)))"
| "writer_pc p0 _ = True"

definition overwriting :: "TArc \<Rightarrow> prog \<Rightarrow> bool" where
  "overwriting var p \<longleftrightarrow> (\<exists>i. p = overwrite_writer var i)"

lemma writer_step:
  assumes "local_step t (overwrite_writer var i) R W w u l w' u'" and "writer_pc (overwrite_writer var i) u"
  shows "writer_pc (overwrite_writer var i) u'"
    and "past_write u' \<Longrightarrow> past_write u \<or>
      allocated (heap w') (next_arc (heap w)) \<and> is_payload (deref (heap w') (next_arc (heap w)))"
    and "l = Commits t' p v \<Longrightarrow> past_write u \<and> \<not> past_write u'"
  using assms
  by (cases rule: local_step.cases;
      auto dest!: write_world simp: overwrite_writer_def allocated_def deref_Arc_new split: if_splits)+

definition writers_past :: "TArc \<Rightarrow> sys \<Rightarrow> tid set" where
  "writers_past var s = {t. overwriting var (closure (thr s t)) \<and> past_write (pc_of s t)}"

fun is_overwrite :: "TArc \<Rightarrow> label \<Rightarrow> bool" where
  "is_overwrite var (Commits t p v) = overwriting var p"
| "is_overwrite var _ = False"

definition writers_ok :: "TArc \<Rightarrow> sys \<Rightarrow> bool" where
  "writers_ok var s \<longleftrightarrow> finite {t. pc_of s t \<noteq> Idle} \<and>
     (\<forall>t. overwriting var (closure (thr s t)) \<longrightarrow> writer_pc (closure (thr s t)) (pc_of s t))"

lemma mstep_one_thread:
  assumes "mstep may_read may_write \<Gamma> L s l s'"
  shows "\<exists>t. \<forall>u. u \<noteq> t \<longrightarrow> thr s' u = thr s u"
  using assms
proof cases
  case (m_local t w' u')
  show ?thesis by (intro exI [of _ t]) (simp add: m_local(1))
next
  case (m_start t p w')
  show ?thesis by (intro exI [of _ t]) (simp add: m_start(2))
next
  case (m_write t v y)
  show ?thesis by (intro exI [of _ t]) (simp add: m_write(2))
next
  case (m_panic t p tx fs)
  show ?thesis by (intro exI [of _ t]) (simp add: m_panic(2))
next
  case (m_spurious t c reads)
  show ?thesis by (intro exI [of _ t]) (simp add: m_spurious(2))
qed

lemma writers_ok_step:
  assumes m: "mstep may_read may_write \<Gamma> L s l s'" and ok: "writers_ok var s"
  shows "writers_ok var s'"
proof -
  from mstep_one_thread [OF m] obtain t where t: "\<forall>u. u \<noteq> t \<longrightarrow> thr s' u = thr s u" by blast
  have "{u. pc_of s' u \<noteq> Idle} \<subseteq> insert t {u. pc_of s u \<noteq> Idle}" using t by auto
  moreover have "finite {u. pc_of s u \<noteq> Idle}" using ok by (simp add: writers_ok_def)
  ultimately have fin: "finite {u. pc_of s' u \<noteq> Idle}" by (metis finite_insert finite_subset)
  have old: "overwriting var (closure (thr s u)) \<Longrightarrow> writer_pc (closure (thr s u)) (pc_of s u)" for u
    using ok by (simp add: writers_ok_def)
  from m have "writer_pc (closure (thr s' u)) (pc_of s' u)" if "overwriting var (closure (thr s' u))" for u
  proof cases
    case (m_local t w' u')
    show ?thesis
    proof (cases "u = t")
      case True
      with that m_local(1) obtain i where i: "closure (thr s t) = overwrite_writer var i"
        by (auto simp: overwriting_def)
      have "writer_pc (overwrite_writer var i) (pc_of s t)"
        using old [of t] by (simp add: i overwriting_def) blast
      from writer_step(1) [OF m_local(2) [unfolded i] this] show ?thesis by (simp add: m_local(1) True i)
    qed (use that old [of u] m_local(1) in simp)
  qed (use that old [of u] in \<open>auto split: if_splits\<close>)
  with fin show ?thesis by (simp add: writers_ok_def)
qed

lemma finite_made: "finite (payloads_made s s')"
  by (rule finite_subset [of _ "{..< next_arc (heap (shared s'))}"]) (auto simp: payloads_made_def allocated_def)

lemma made_mono:
  assumes "extends (heap (shared s1)) (heap (shared s2))"
  shows "payloads_made s s1 \<subseteq> payloads_made s s2"
  using extends_allocated [OF assms] extends_deref [OF assms] by (auto simp: payloads_made_def)

text \<open>A step that commits takes its thread's payload, and a thread gets past its write with a new one.\<close>

lemma made_step:
  assumes m: "mstep may_read may_write \<Gamma> L s1 l s2" and ok: "writers_ok var s1"
    and ext: "extends (heap (shared s)) (heap (shared s1))"
  shows "(if is_overwrite var l then 1 else 0) + card (writers_past var s2) + card (payloads_made s s1) \<le>
    card (writers_past var s1) + card (payloads_made s s2)"
proof -
  have made: "card (payloads_made s s1) \<le> card (payloads_made s s2)"
    by (rule card_mono [OF finite_made made_mono [OF mstep_extends(1) [OF m]]])
  have fin: "finite (writers_past var s1)"
    by (rule finite_subset [of _ "{t. pc_of s1 t \<noteq> Idle}"])
      (use ok in \<open>auto simp: writers_past_def writers_ok_def\<close>)
  have fewer: ?thesis if "\<not> is_overwrite var l" and "writers_past var s2 \<subseteq> writers_past var s1"
    using card_mono [OF fin that(2)] made that(1) by simp
  show ?thesis
    using m
  proof cases
    case (m_local t w' u')
    let ?p = "closure (thr s1 t)" and ?n = "next_arc (heap (shared s1))"
    have past: "writers_past var s2 = (if overwriting var ?p \<and> past_write u' then insert t (writers_past var s1)
        else writers_past var s1 - {t})"
      by (auto simp: writers_past_def m_local(1))
    have label: "is_overwrite var l \<Longrightarrow> (\<exists>v. l = Commits t ?p v) \<and> overwriting var ?p"
      using m_local(2) by cases auto
    show ?thesis
    proof (cases "overwriting var ?p")
      case False
      with label past fewer show ?thesis by auto
    next
      case True
      then obtain i where p: "?p = overwrite_writer var i" unfolding overwriting_def by blast
      have w: "writer_pc (overwrite_writer var i) (pc_of s1 t)"
        using ok True p by (metis writers_ok_def)
      note st = writer_step [OF m_local(2) [unfolded p] w]
      show ?thesis
      proof (cases "is_overwrite var l")
        case com: True
        with label obtain v where "l = Commits t ?p v" by blast
        from st(3) [OF this] have "past_write (pc_of s1 t)" "\<not> past_write u'" by blast+
        then have "t \<in> writers_past var s1" and "writers_past var s2 = writers_past var s1 - {t}"
          using True past by (simp_all add: writers_past_def)
        then have "Suc (card (writers_past var s2)) = card (writers_past var s1)"
          using card_Suc_Diff1 [OF fin] by simp
        with made com show ?thesis by simp
      next
        case False
        show ?thesis
        proof (cases "past_write u' \<and> t \<notin> writers_past var s1")
          case new: True
          then have "\<not> past_write (pc_of s1 t)" using True by (simp add: writers_past_def)
          with st(2) new m_local(1) have n: "allocated (heap (shared s2)) ?n" "is_payload (deref (heap (shared s2)) ?n)"
            by simp_all
          have "?n \<in> payloads_made s s2" and "?n \<notin> payloads_made s s1"
            using n ext by (auto simp: payloads_made_def allocated_def extends_def)
          with made_mono [OF mstep_extends(1) [OF m], of s]
          have "insert ?n (payloads_made s s1) \<subseteq> payloads_made s s2" and
            "card (insert ?n (payloads_made s s1)) = Suc (card (payloads_made s s1))"
            using finite_made by auto
          with card_mono [OF finite_made] have "Suc (card (payloads_made s s1)) \<le> card (payloads_made s s2)"
            by metis
          with past True new fin False show ?thesis by simp
        next
          case old: False
          with past True have "writers_past var s2 \<subseteq> writers_past var s1" by auto
          with False fewer show ?thesis by blast
        qed
      qed
    qed
  next
    case (m_start t p w')
    then have "writers_past var s2 \<subseteq> writers_past var s1"
      by (auto simp: writers_past_def overwriting_def overwrite_writer_def split: if_splits)
    with m_start(1) fewer show ?thesis by simp
  next
    case (m_write t v y)
    then have "writers_past var s2 \<subseteq> writers_past var s1"
      by (auto simp: writers_past_def split: if_splits)
    with m_write(1) fewer show ?thesis by simp
  next
    case (m_panic t p tx fs)
    then have "writers_past var s2 \<subseteq> writers_past var s1"
      by (auto simp: writers_past_def split: if_splits)
    with m_panic(1) fewer show ?thesis by simp
  next
    case (m_spurious t c reads)
    then have "writers_past var s2 \<subseteq> writers_past var s1"
      by (auto simp: writers_past_def split: if_splits)
    with m_spurious(1) fewer show ?thesis by simp
  qed
qed

lemma overwrites_made:
  assumes "mrun may_read may_write \<Gamma> L s ls s'" and "\<And>t. pc_of s t = Idle"
  shows "writers_ok var s' \<and> extends (heap (shared s)) (heap (shared s')) \<and>
    length (filter (is_overwrite var) ls) + card (writers_past var s') \<le> card (payloads_made s s')"
  using assms
proof induction
  case (mrun_nil s)
  then show ?case by (simp add: writers_ok_def writers_past_def)
next
  case (mrun_snoc s ls s1 l s2)
  then have IH: "writers_ok var s1" "extends (heap (shared s)) (heap (shared s1))"
    "length (filter (is_overwrite var) ls) + card (writers_past var s1) \<le> card (payloads_made s s1)" by blast+
  note step = mrun_snoc.hyps(2)
  from made_step [OF step IH(1,2)] IH(3)
  have "length (filter (is_overwrite var) (ls @ [l])) + card (writers_past var s2) \<le> card (payloads_made s s2)"
    by (simp split: if_splits)
  with writers_ok_step [OF step IH(1)] extends_trans [OF IH(2) mstep_extends(1) [OF step]] show ?case by blast
qed

subsubsection \<open>The test\<close>

text \<open>The live variable, its current box, and what is left when the last handle is dropped.\<close>

lemma held_when_idle:
  assumes "sys_ok \<Gamma> L s" and "\<And>t. pc_of s t = Idle"
  shows "held_boxes s = value_arc (shared s) ` L"
  using sys_okD(2) [OF assms(1)] assms(2) by (simp add: held_boxes_def)

lemma held_after_drop:
  assumes "sys_ok \<Gamma> {control_block (TArc.inner var)} s" and "\<And>t. pc_of s t = Idle"
  shows "held_boxes (drop_var var s) = {}"
  using sys_okD(2) [OF assms(1)] assms(2) by (auto simp: held_boxes_def drop_var_def drop_last_handle_def)

text \<open>
  C35. \<^verbatim>\<open>concurrent_overwrite_drops_all_old_values\<close>, for any number of threads, writes, retries and panics and every
  interleaving: start with a payload in the variable, let threads run, of which each commit stores a
  payload made in its attempt, and let all of them be done. Then the box of the variable, with the payload of
  the last commit, is the only one held, at least as many payloads as there were commits have been
  dropped, and after \<^verbatim>\<open>drop(var)\<close> at least one more: the assertion of the test. A commit has a payload of its own: all dropped
  payloads are different boxes.
\<close>

theorem overwrites_drop_old_payloads:
  assumes "rwlock may_read may_write" and "initial \<Gamma> {control_block (TArc.inner var)} s"
    and "contents (shared s) (control_block (TArc.inner var)) = payload p"
    and "mrun may_read may_write \<Gamma> {control_block (TArc.inner var)} s ls s'"
    and "visible ls = overwrites var ws" and "\<And>t. pc_of s' t = Idle"
  shows "held_boxes s' = {value_arc (shared s') (control_block (TArc.inner var))} \<and>
    contents (shared s') (control_block (TArc.inner var)) = payload (last (p # map snd ws)) \<and>
    finite (payloads_dropped s s') \<and> length ws \<le> card (payloads_dropped s s') \<and>
    payloads_dropped s s' \<subseteq> payloads_dropped s (drop_var var s') \<and>
    Suc (length ws) \<le> card (payloads_dropped s (drop_var var s'))"
proof -
  let ?x = "control_block (TArc.inner var)"
  let ?old = "value_arc (shared s) ?x" and ?new = "value_arc (shared s') ?x"
  have ok0: "sys_ok \<Gamma> {?x} s" by (rule initial_sys_ok [OF assms(2)])
  from rwlock.simulation [OF assms(1,4,2)] have ok: "sys_ok \<Gamma> {?x} s'" by blast
  have idle: "\<And>t. pc_of s t = Idle" using assms(2) by (simp add: initial_def)
  have free: "or_free q" if "Commits t q v \<in> set ls" for t q v
  proof -
    have "Commits t q v \<in> set (visible ls)" using that by (simp add: visible_filter)
    then show ?thesis by (auto simp: assms(5) overwrites_def overwrite_writer_def)
  qed
  obtain \<sigma> where run: "serial spec_exec (contents (shared s)) ls \<sigma>"
    and "(\<forall>t. to_store (pc_of s' t) = []) \<longrightarrow> contents (shared s') = \<sigma>"
    by (rule or_free_simulation [OF assms(1,2,4)]) (rule free)
  with assms(6) have "serial spec_exec (contents (shared s)) (visible ls) (contents (shared s'))"
    by (simp add: serial_visible)
  from overwrites_serial [OF this [unfolded assms(5)] assms(3)]
  have final: "contents (shared s') ?x = payload (last (p # map snd ws))" .
  have held: "held_boxes s' = {?new}" and held0: "held_boxes s = {?old}"
    using held_when_idle [OF ok assms(6)] held_when_idle [OF ok0 idle] by simp_all
  have old: "allocated (heap (shared s)) ?old" "is_payload (deref (heap (shared s)) ?old)"
    using ok0 assms(3) sys_okD(1,2) [OF ok0] by (auto simp: world_ok_def arc_typed_def contents_eq)
  have "length ws = length (filter (is_overwrite var) (visible ls))"
    by (subst filter_True) (auto simp: assms(5) overwrites_def overwriting_def)
  also have "\<dots> = length (filter (is_overwrite var) ls)"
    by (simp add: visible_filter) (metis is_overwrite.simps(2))
  finally have "length ws \<le> card (payloads_made s s')"
    using overwrites_made [OF assms(4) idle, of var] by simp
  moreover have "?old \<notin> payloads_made s s'" using old by (simp add: payloads_made_def)
  ultimately have all: "Suc (length ws) \<le> card (insert ?old (payloads_made s s'))"
    using finite_made by simp
  have dropped: "payloads_dropped s s' = insert ?old (payloads_made s s') - {?new}"
    using old by (auto simp: payloads_dropped_def held held0)
  have "payloads_made s (drop_var var s') = payloads_made s s'"
    by (simp add: payloads_made_def drop_var_def drop_last_handle_def)
  then have later: "payloads_dropped s (drop_var var s') = insert ?old (payloads_made s s')"
    using old held_after_drop [OF ok assms(6)] by (auto simp: payloads_dropped_def held0)
  have "length ws \<le> card (payloads_dropped s s')"
    using all diff_card_le_card_Diff [of "{?new}" "insert ?old (payloads_made s s')"] by (simp add: dropped)
  with held final all show ?thesis by (auto simp: dropped later finite_made)
qed

text \<open>Two threads overwrite the payload of the variable at once.\<close>

definition counted_tarc :: TArc where
  "counted_tarc = \<lparr>TArc.inner = \<lparr>control_block = VCB 32, marker = TyUser ''Counted''\<rparr>\<rparr>"

definition overwrite_sys :: sys where
  "overwrite_sys =
     \<lparr>shared = snd (TVar_new (VCB 32) (payload 0) empty_world), thr = (\<lambda>_. \<lparr>closure = Done retry, pc = Idle\<rparr>)\<rparr>"

definition overwrite_events :: "event list" where
  "overwrite_events =
     [Start 1 (overwrite_writer counted_tarc 1), Start 2 (overwrite_writer counted_tarc 2)] @
     gos 1 2 @ gos 2 9 @ gos 1 7"

lemma overwrite_run:
  "map_option (\<lambda>(ls, s). (map committed (visible ls), is_idle (pc_of s 1), is_idle (pc_of s 2)))
     (run_schedule [1, 2] overwrite_events overwrite_sys) =
   Some ([Some (2, VUnit), Some (1, VUnit)], True, True)"
  by code_simp

lemma overwrite_start:
  "initial (\<lambda>_. TyUser ''Counted'') {control_block (TArc.inner counted_tarc)} overwrite_sys"
  "contents (shared overwrite_sys) (control_block (TArc.inner counted_tarc)) = payload 0"
proof -
  note defs = overwrite_sys_def counted_tarc_def TVar_new_def VarControlBlock_new_def empty_world_def
    empty_arena_def alloc_arc_def Arc_new_def payload_def Let_def
  show "initial (\<lambda>_. TyUser ''Counted'') {control_block (TArc.inner counted_tarc)} overwrite_sys"
    by (auto simp: initial_def defs world_ok_def arc_typed_def allocated_def deref_def)
  show "contents (shared overwrite_sys) (control_block (TArc.inner counted_tarc)) = payload 0"
    by (simp add: contents_eq defs deref_def)
qed

theorem overwrites_drop_old_payloads_witness:
  "\<exists>ls s. mrun eager_read writer_first_write (\<lambda>_. TyUser ''Counted'')
      {control_block (TArc.inner counted_tarc)} overwrite_sys ls s \<and>
    visible ls = overwrites counted_tarc [(2, 2), (1, 1)] \<and>
    contents (shared s) (VCB 32) = payload 1 \<and>
    2 \<le> card (payloads_dropped overwrite_sys s) \<and>
    3 \<le> card (payloads_dropped overwrite_sys (drop_var counted_tarc s))"
proof -
  from overwrite_run obtain ls s where r: "run_schedule [1, 2] overwrite_events overwrite_sys = Some (ls, s)"
    and c: "map committed (visible ls) = [Some (2, VUnit), Some (1, VUnit)]"
    and s: "is_idle (pc_of s 1)" "is_idle (pc_of s 2)" by auto
  have ok: "list_all (event_ok (\<lambda>_. TyUser ''Counted'') {control_block (TArc.inner counted_tarc)}) overwrite_events"
    by (auto simp: overwrite_events_def gos_def list_all_iff overwrite_writer_def counted_tarc_def var_ok_def
        payload_def)
  have none: "idle_but [1, 2] overwrite_sys" by (simp add: idle_but_def overwrite_sys_def)
  note m = schedule_mrun [OF r none ok]
  then have run: "mrun eager_read writer_first_write (\<lambda>_. TyUser ''Counted'')
      {control_block (TArc.inner counted_tarc)} overwrite_sys ls s"
    and idle: "\<And>t. pc_of s t = Idle" using two_idle s by blast+
  from c obtain p q where v: "visible ls = [Commits 2 q VUnit, Commits 1 p VUnit]"
    by (auto simp: map_eq_Cons_conv committed_iff)
  then have mem: "Commits 2 q VUnit \<in> set ls" "Commits 1 p VUnit \<in> set ls"
    by (metis filter_is_subset list.set_intros subsetD visible_filter)+
  have "p = overwrite_writer counted_tarc 1" and "q = overwrite_writer counted_tarc 2"
    using schedule_commits [OF r mem(1)] schedule_commits [OF r mem(2)]
    by (auto simp: overwrite_events_def gos_def overwrite_sys_def)
  with v have w: "visible ls = overwrites counted_tarc [(2, 2), (1, 1)]"
    by (simp add: overwrites_def)
  have "control_block (TArc.inner counted_tarc) = VCB 32" by (simp add: counted_tarc_def)
  with overwrites_drop_old_payloads [OF eager_lock.rwlock_axioms overwrite_start run w idle]
  have "contents (shared s) (VCB 32) = payload 1" and "2 \<le> card (payloads_dropped overwrite_sys s)"
    and "3 \<le> card (payloads_dropped overwrite_sys (drop_var counted_tarc s))"
    by simp_all
  with run w show ?thesis by blast
qed

end
