(* ===== verification/Tests_Drops.thy ===== *)
theory Tests_Drops
  imports Tests_Arc
begin

text \<open>
  The drop-safety tests at the end of \<^verbatim>\<open>test.rs\<close>, those of a single thread. The destructor of a payload
  runs when its last strong reference goes, so the counter of a test is the number of payloads made
  during the test that have no strong reference left.
\<close>

definition counted :: val where
  "counted = VUser ''Counted'' []"

definition drops :: "testbed \<Rightarrow> world \<Rightarrow> nat" where
  "drops b w = length (filter (\<lambda>a. deref (heap w) a = counted \<and> strong_count [] (w, Transaction_new) a = 0)
     [next_arc (heap (start b)) ..< next_arc (heap w)])"

text \<open>An alternative that writes a new payload and retries, and one that reads.\<close>

definition tentative_write :: "testbed \<Rightarrow> TArc \<Rightarrow> world \<Rightarrow> world" where
  "tentative_write b var w =
     snd (atomically (steps b) alone (me b)
       (Transaction_or
          (bind_action (TArc_write_val var counted) (\<lambda>_. return_action (retry :: val StmResult)))
          (TArc_read var)) w)"

definition or_retry_drops_tentative_writes :: "testbed \<Rightarrow> bool" where
  "or_retry_drops_tentative_writes b =
     (let (var, w) = TArc_new (at1 b) counted (start b);
          drops_before = drops b w;
          w = (tentative_write b var ^^ 100) w
      in drops b w - drops_before = 100)"

text \<open>An alternative that upgrades the \<^verbatim>\<open>Weak\<close> and retries, and one that does nothing.\<close>

definition tentative_upgrade :: "testbed \<Rightarrow> TWeak \<Rightarrow> world \<Rightarrow> world" where
  "tentative_upgrade b weak w =
     snd (atomically (steps b) alone (me b)
       (Transaction_or
          (bind_action (TWeak_upgrade [] weak) (\<lambda>_. return_action retry))
          (return_action (Inr ()))) w)"

definition upgrade_in_retried_branch_releases_arc :: "testbed \<Rightarrow> bool" where
  "upgrade_in_retried_branch_releases_arc b =
     (let (strong, w) = TArc_new (at1 b) counted (start b)
      in case atomically (steps b) alone (me b) (TWeak_downgrade (at2 b) strong) w of
           (Finished weak, w) \<Rightarrow>
             (let w = (tentative_upgrade b weak ^^ 20) w
              in drops b w = 0 \<and>
                 drops b (drop_last_handle (TWeak.inner weak) (drop_last_handle (TArc.inner strong) w)) = 1)
         | _ \<Rightarrow> False)"

subsection \<open>One iteration\<close>

text \<open>
  What holds between the transactions of a test: the thread is in none, and the variables hold boxes that
  refer to allocated boxes.
\<close>

definition between :: "testbed \<Rightarrow> world \<Rightarrow> bool" where
  "between b w \<longleftrightarrow>
     \<not> running w (me b) \<and> next_arc (heap (start b)) \<le> next_arc (heap w) \<and>
     (\<forall>x \<in> set (vcb_live w). allocated (heap w) (value_arc w x) \<and>
        val_ok (heap w) (deref (heap w) (value_arc w x)))"

lemma betweenD:
  assumes "between b w"
  shows "\<not> running w (me b)" and "next_arc (heap (start b)) \<le> next_arc (heap w)"
    and "x \<in> set (vcb_live w) \<Longrightarrow> allocated (heap w) (value_arc w x)"
    and "x \<in> set (vcb_live w) \<Longrightarrow> val_ok (heap w) (deref (heap w) (value_arc w x))"
  using assms by (auto simp: between_def)

text \<open>The variables are as they were; boxes may have been made.\<close>

definition same_values :: "world \<Rightarrow> world \<Rightarrow> bool" where
  "same_values w w' \<longleftrightarrow>
     vcbs w' = vcbs w \<and> vcb_live w' = vcb_live w \<and> extends (heap w) (heap w')"

lemma same_values_between:
  assumes "between b w" and "same_values w w'" and "\<not> running w' (me b)"
  shows "between b w'"
  unfolding between_def
proof (intro conjI ballI)
  have w: "vcbs w' = vcbs w" "vcb_live w' = vcb_live w" and ext: "extends (heap w) (heap w')"
    using assms(2) by (simp_all add: same_values_def)
  show "next_arc (heap (start b)) \<le> next_arc (heap w')"
    using betweenD(2) [OF assms(1)] ext by (simp add: extends_def)
  fix x assume "x \<in> set (vcb_live w')"
  then have x: "x \<in> set (vcb_live w)" by (simp add: w)
  note old = betweenD(3,4) [OF assms(1) x]
  show "allocated (heap w') (value_arc w' x)" unfolding w by (rule extends_allocated [OF ext old(1)])
  show "val_ok (heap w') (deref (heap w') (value_arc w' x))"
    unfolding w extends_deref [OF ext old(1)] by (rule val_ok_mono [OF old(2) ext])
qed (rule assms(3))

lemma same_values_counts:
  assumes "between b w" and "same_values w w'"
  shows "strong_count held (w', Transaction_new) = strong_count held (w, Transaction_new)"
proof -
  have "live_boxes (w', Transaction_new) = live_boxes (w, Transaction_new)"
    using assms(2) by (simp add: live_boxes_def same_values_def)
  moreover have "deref (heap w') a = deref (heap w) a" if "a \<in> set (live_boxes (w, Transaction_new))" for a
    using that betweenD(3) [OF assms(1)] assms(2)
    by (auto simp: set_live_boxes Transaction_new_def same_values_def extends_deref)
  ultimately show ?thesis
    by (simp add: strong_count_def fun_eq_iff cong: filter_cong)
qed

text \<open>A box made since is referred to by no variable.\<close>

lemma fresh_uncounted:
  assumes "between b w" and "next_arc (heap w) \<le> a"
  shows "strong_count [] (w, Transaction_new) a = 0"
proof -
  have "\<not> holds_arc (deref (heap w) (value_arc w x)) a" if "x \<in> set (vcb_live w)" for x
    using betweenD(4) [OF assms(1) that] assms(2)
    by (cases "deref (heap w) (value_arc w x)") (auto simp: val_ok_def allocated_def)
  then show ?thesis by (auto simp: strong_count_zero set_live_boxes Transaction_new_def)
qed

lemma drops_old:
  assumes "between b w" and "same_values w w'"
  shows "length (filter (\<lambda>a. deref (heap w') a = counted \<and> strong_count [] (w', Transaction_new) a = 0)
      [next_arc (heap (start b)) ..< next_arc (heap w)]) = drops b w"
proof -
  have "deref (heap w') a = deref (heap w) a" if "a < next_arc (heap w)" for a
    using assms(2) that by (simp add: same_values_def extends_def allocated_def)
  then show ?thesis
    unfolding drops_def same_values_counts [OF assms]
    by (intro arg_cong [where f = length] filter_cong) auto
qed

lemma drops_same:
  "between b w \<Longrightarrow> same_values w w' \<Longrightarrow> next_arc (heap w') = next_arc (heap w) \<Longrightarrow> drops b w' = drops b w"
  using drops_old [of b w w'] by (simp add: drops_def)

lemma drops_two_boxes:
  assumes "between b w" and "same_values w w'"
    and "heap w' = snd (Arc_new (VArc T a) (snd (Arc_new counted (heap w))))"
  shows "drops b w' = Suc (drops b w)"
proof -
  let ?n = "next_arc (heap w)"
  have upt: "[next_arc (heap (start b)) ..< next_arc (heap w')] =
      [next_arc (heap (start b)) ..< ?n] @ [?n, Suc ?n]"
    using betweenD(2) [OF assms(1)] by (simp add: assms(3))
  have "deref (heap w') ?n = counted" and "deref (heap w') (Suc ?n) \<noteq> counted"
    by (simp_all add: assms(3) deref_Arc_new counted_def)
  moreover have "strong_count [] (w', Transaction_new) ?n = 0"
    unfolding same_values_counts [OF assms(1,2)] by (rule fresh_uncounted [OF assms(1)]) simp
  ultimately show ?thesis
    using drops_old [OF assms(1,2)] unfolding drops_def [of b w'] upt by simp
qed

text \<open>A variable that holds a payload, or a reference to one.\<close>

definition holds_type :: "TVar \<Rightarrow> tyid \<Rightarrow> world \<Rightarrow> bool" where
  "holds_type v T w \<longleftrightarrow> control_block v \<in> set (vcb_live w) \<and> marker v = T \<and>
     type_id (deref (heap w) (value_arc w (control_block v))) = T"

lemma same_values_holds:
  assumes "between b w" and "same_values w w'" and "holds_type v T w"
  shows "holds_type v T w'"
proof -
  have x: "control_block v \<in> set (vcb_live w)" using assms(3) unfolding holds_type_def by blast
  have w: "vcbs w' = vcbs w" "vcb_live w' = vcb_live w" and ext: "extends (heap w) (heap w')"
    using assms(2) unfolding same_values_def by blast+
  show ?thesis
    using assms(3) unfolding holds_type_def w extends_deref [OF ext betweenD(3) [OF assms(1) x]] .
qed

abbreviation counted_arc :: tyid where
  "counted_arc \<equiv> TyArc (TyUser ''Counted'')"

lemma tentative_write_effect:
  assumes "\<not> running w (me b)" and "marker (TArc.inner var) = counted_arc"
    and "type_id (deref (heap w) (value_arc w (control_block (TArc.inner var)))) = counted_arc"
    and "allocated (heap w) (value_arc w (control_block (TArc.inner var)))"
  shows "heap (tentative_write b var w) =
      snd (Arc_new (VArc (TyUser ''Counted'') (next_arc (heap w))) (snd (Arc_new counted (heap w))))"
    and "vcbs (tentative_write b var w) = vcbs w" and "vcb_live (tentative_write b var w) = vcb_live w"
    and "\<not> running (tentative_write b var w) (me b)"
  using assms
  by (auto simp: tentative_write_def arc_run_simps counted_def allocated_def)

lemma tentative_write_run:
  assumes "between b w" and "holds_type (TArc.inner var) counted_arc w"
  shows "same_values w (tentative_write b var w)" and "\<not> running (tentative_write b var w) (me b)"
    and "heap (tentative_write b var w) =
      snd (Arc_new (VArc (TyUser ''Counted'') (next_arc (heap w))) (snd (Arc_new counted (heap w))))"
proof -
  have w: "\<not> running w (me b)" "allocated (heap w) (value_arc w (control_block (TArc.inner var)))"
    using betweenD(1,3) [OF assms(1)] assms(2) by (simp_all add: holds_type_def)
  note eff = tentative_write_effect [OF w(1) _ _ w(2)]
  show heap: "heap (tentative_write b var w) =
      snd (Arc_new (VArc (TyUser ''Counted'') (next_arc (heap w))) (snd (Arc_new counted (heap w))))"
    and "\<not> running (tentative_write b var w) (me b)"
    by (rule eff; use assms(2) in \<open>simp add: holds_type_def\<close>)+
  have "vcbs (tentative_write b var w) = vcbs w" and "vcb_live (tentative_write b var w) = vcb_live w"
    by (rule eff; use assms(2) in \<open>simp add: holds_type_def\<close>)+
  then show "same_values w (tentative_write b var w)"
    unfolding same_values_def heap using extends_trans [OF extends_Arc_new extends_Arc_new] by blast
qed

lemma tentative_writes_run:
  assumes "between b w" and "holds_type (TArc.inner var) counted_arc w"
  shows "drops b ((tentative_write b var ^^ n) w) = drops b w + n \<and>
    between b ((tentative_write b var ^^ n) w) \<and>
    holds_type (TArc.inner var) counted_arc ((tentative_write b var ^^ n) w)"
proof (induction n)
  case (Suc n)
  let ?w = "(tentative_write b var ^^ n) w"
  from Suc have ok: "between b ?w" and v: "holds_type (TArc.inner var) counted_arc ?w"
    and d: "drops b ?w = drops b w + n" by blast+
  note run = tentative_write_run [OF ok v]
  show ?case
    using drops_two_boxes [OF ok run(1,3)] same_values_between [OF ok run(1,2)]
      same_values_holds [OF ok run(1) v] d by simp
qed (use assms in simp)

lemma tentative_upgrade_run:
  assumes "between b w" and "holds_type (TWeak.inner weak) (TyWeak T) w"
  shows "same_values w (tentative_upgrade b weak w)" and "\<not> running (tentative_upgrade b weak w) (me b)"
    and "heap (tentative_upgrade b weak w) = heap w"
proof -
  note w = betweenD(1) [OF assms(1)]
  show heap: "heap (tentative_upgrade b weak w) = heap w" and "\<not> running (tentative_upgrade b weak w) (me b)"
    using assms(2) w
    by (auto simp: tentative_upgrade_def arc_run_simps TWeak_upgrade_def TWeak_read_def holds_type_def
        obsolete_def btm_or_insert_def)
  have "vcbs (tentative_upgrade b weak w) = vcbs w" and "vcb_live (tentative_upgrade b weak w) = vcb_live w"
    using assms(2) w
    by (auto simp: tentative_upgrade_def arc_run_simps TWeak_upgrade_def TWeak_read_def holds_type_def
        obsolete_def btm_or_insert_def)
  then show "same_values w (tentative_upgrade b weak w)"
    unfolding same_values_def heap by simp
qed

lemma tentative_upgrades_run:
  assumes "between b w" and "holds_type (TWeak.inner weak) (TyWeak T) w"
  shows "same_values w ((tentative_upgrade b weak ^^ n) w) \<and>
    heap ((tentative_upgrade b weak ^^ n) w) = heap w \<and> between b ((tentative_upgrade b weak ^^ n) w) \<and>
    holds_type (TWeak.inner weak) (TyWeak T) ((tentative_upgrade b weak ^^ n) w)"
proof (induction n)
  case (Suc n)
  let ?w = "(tentative_upgrade b weak ^^ n) w"
  from Suc have ok: "between b ?w" and v: "holds_type (TWeak.inner weak) (TyWeak T) ?w"
    and s: "same_values w ?w" and h: "heap ?w = heap w" by blast+
  note run = tentative_upgrade_run [OF ok v]
  have "same_values w (tentative_upgrade b weak ?w)"
    using s run(1,3) h unfolding same_values_def by simp
  with same_values_between [OF ok run(1,2)] same_values_holds [OF ok run(1) v] run(3) h show ?case by simp
qed (use assms in \<open>simp add: same_values_def\<close>)

subsection \<open>The tests\<close>

text \<open>After the variable is made, and after the \<^verbatim>\<open>TWeak\<close> is.\<close>

lemma counted_new:
  assumes "arc_bed_ok b" and "TArc_new (at1 b) counted (start b) = (var, w)"
  shows "heap w = snd (Arc_new (VArc (TyUser ''Counted'') (next_arc (heap (start b))))
      (snd (Arc_new counted (heap (start b)))))"
    and "vcb_live w = at1 b # vcb_live (start b)" and "running w = running (start b)"
    and "value_arc w x = (if x = at1 b then Suc (next_arc (heap (start b))) else value_arc (start b) x)"
    and "TArc.inner var = \<lparr>control_block = at1 b, marker = counted_arc\<rparr>"
  using assms(2) by (auto simp: TArc_new_def TVar_new_eq alloc_arc_eq counted_def Let_def)

text \<open>The state of both tests is one like this, with or without the \<^verbatim>\<open>TWeak\<close>.\<close>

lemma betweenI:
  assumes "arc_bed_ok b" and "arena_ok (heap w)" and "running w (me b) = running (start b) (me b)"
    and "next_arc (heap (start b)) \<le> next_arc (heap w)"
    and "\<And>x. x \<in> set (vcb_live w) \<Longrightarrow> allocated (heap w) (value_arc w x)"
  shows "between b w"
  using assms(3-5) arena_okD [OF assms(2)] bed_okD(1) [OF arc_bed_okD(1) [OF assms(1)]]
  by (auto simp: between_def)

lemma counted_start:
  assumes "arc_bed_ok b" and "TArc_new (at1 b) counted (start b) = (var, w)"
  shows "arena_ok (heap w)" and "between b w" and "holds_type (TArc.inner var) counted_arc w"
    and "drops b w = 0"
proof -
  let ?n = "next_arc (heap (start b))"
  note w = counted_new [OF assms]
  have "arena_ok (heap (start b))" using assms(1) by (simp add: arc_bed_ok_def)
  then show ar: "arena_ok (heap w)"
    unfolding w(1) by (intro arena_ok_Arc_new) (simp_all add: val_ok_def counted_def)
  show "between b w"
    by (rule betweenI [OF assms(1) ar])
      (use arc_bed_okD(2) [OF assms(1)] in \<open>auto simp: w allocated_def less_Suc_eq\<close>)
  show "holds_type (TArc.inner var) counted_arc w"
    by (simp add: holds_type_def w deref_Arc_new)
  have d: "deref (heap w) ?n = counted" "deref (heap w) (Suc ?n) = VArc (TyUser ''Counted'') ?n"
    by (simp_all add: w(1) deref_Arc_new)
  have "0 < strong_count [] (w, Transaction_new) ?n"
    unfolding strong_count_pos set_live_boxes
    by (intro disjI2 bexI [of _ "Suc ?n"]) (use w(2,4) d(2) in \<open>auto intro!: image_eqI [of _ _ "at1 b"]\<close>)
  moreover have "[?n ..< next_arc (heap w)] = [?n, Suc ?n]" by (simp add: w(1))
  ultimately show "drops b w = 0" by (simp add: drops_def d counted_def)
qed

lemma counted_downgrade:
  assumes "arc_bed_ok b" and "TArc_new (at1 b) counted (start b) = (var, w)"
  obtains weak w' where "atomically (steps b) alone (me b) (TWeak_downgrade (at2 b) var) w = (Finished weak, w')"
    and "TWeak.inner weak = \<lparr>control_block = at2 b, marker = TyWeak (TyUser ''Counted'')\<rparr>"
    and "heap w' = snd (Arc_new (VWeak (TyUser ''Counted'') (Some (next_arc (heap (start b))))) (heap w))"
    and "vcb_live w' = at2 b # vcb_live w" and "\<not> running w' (me b)"
    and "\<And>x. value_arc w' x = (if x = at2 b then next_arc (heap w) else value_arc w x)"
proof -
  note w = counted_new [OF assms] and ok = bed_okD [OF arc_bed_okD(1) [OF assms(1)]]
  show thesis
  proof (cases "atomically (steps b) alone (me b) (TWeak_downgrade (at2 b) var) w")
    case (Pair r w')
    then show thesis
      using ok by (intro that [of _ w']) (auto simp: weak_run_simps w)
  qed
qed

lemma or_retry_test_runs:
  assumes "arc_bed_ok b"
  shows "or_retry_drops_tentative_writes b"
proof -
  obtain var w where new: "TArc_new (at1 b) counted (start b) = (var, w)" by fastforce
  from tentative_writes_run [OF counted_start(2,3) [OF assms new], of 100]
  show ?thesis unfolding or_retry_drops_tentative_writes_def new by simp
qed


lemma upgrade_test_runs:
  assumes "arc_bed_ok b"
  shows "upgrade_in_retried_branch_releases_arc b"
proof -
  let ?n = "next_arc (heap (start b))"
  obtain var w where new: "TArc_new (at1 b) counted (start b) = (var, w)" by fastforce
  note w = counted_new [OF assms new] and ok = bed_okD [OF arc_bed_okD(1) [OF assms]]
  from counted_downgrade [OF assms new] obtain weak w'
    where down: "atomically (steps b) alone (me b) (TWeak_downgrade (at2 b) var) w = (Finished weak, w')"
      and weak: "TWeak.inner weak = \<lparr>control_block = at2 b, marker = TyWeak (TyUser ''Counted'')\<rparr>"
      and w': "heap w' = snd (Arc_new (VWeak (TyUser ''Counted'') (Some ?n)) (heap w))"
        "vcb_live w' = at2 b # vcb_live w" "\<not> running w' (me b)"
        "\<And>x. value_arc w' x = (if x = at2 b then next_arc (heap w) else value_arc w x)" by blast
  have ar: "arena_ok (heap w')"
    unfolding w'(1) by (rule arena_ok_Arc_new [OF counted_start(1) [OF assms new]]) (simp add: val_ok_def)
  have btw: "between b w'"
    by (rule betweenI [OF assms ar])
      (use ok w'(3) arc_bed_okD(2) [OF assms] in \<open>auto simp: w'(1,2,4) w allocated_def less_Suc_eq\<close>)
  have "holds_type (TWeak.inner weak) (TyWeak (TyUser ''Counted'')) w'"
    by (simp add: holds_type_def weak w' deref_Arc_new)
  from tentative_upgrades_run [OF btw this, of 20] obtain w''
    where w'': "(tentative_upgrade b weak ^^ 20) w' = w''" "heap w'' = heap w'"
      and same: "vcbs w'' = vcbs w'" "vcb_live w'' = vcb_live w'" unfolding same_values_def by blast
  have d: "deref (heap w') ?n = counted" "deref (heap w') (Suc ?n) = VArc (TyUser ''Counted'') ?n"
      "deref (heap w') (Suc (Suc ?n)) = VWeak (TyUser ''Counted'') (Some ?n)"
    by (simp_all add: w'(1) w(1) deref_Arc_new)
  have boxes: "[?n ..< next_arc (heap w')] = [?n, Suc ?n, Suc (Suc ?n)]" by (simp add: w'(1) w(1))
  have "0 < strong_count [] (w'', Transaction_new) ?n"
    unfolding strong_count_pos set_live_boxes
    by (intro disjI2 bexI [of _ "Suc ?n"])
      (use ok d(2) in \<open>auto simp: w''(2) same w' w intro!: image_eqI [of _ _ "at1 b"]\<close>)
  then have before: "drops b w'' = 0" by (simp add: drops_def w''(2) boxes d) (simp add: counted_def)
  let ?w3 = "drop_last_handle (TWeak.inner weak) (drop_last_handle (TArc.inner var) w'')"
  have live: "set (vcb_live ?w3) = set (vcb_live (start b))" and heap: "heap ?w3 = heap w'"
    and vals: "vcbs ?w3 = vcbs w'"
    using ok by (auto simp: drop_last_handle_def weak w w' same w''(2))
  have "\<not> holds_arc (deref (heap w') (value_arc w' x)) ?n" if "x \<in> set (vcb_live (start b))" for x
  proof -
    have "x \<noteq> at1 b" and "x \<noteq> at2 b" using ok that by auto
    then have "deref (heap w') (value_arc w' x) = deref (heap (start b)) (value_arc (start b) x)"
      using arc_bed_okD(2) [OF assms that] by (simp add: w' w deref_Arc_new)
    then show ?thesis using arc_bed_okD(3) [OF assms that, of ?n] by simp
  qed
  then have "strong_count [] (?w3, Transaction_new) ?n = 0"
    by (auto simp: strong_count_zero set_live_boxes live heap vals Transaction_new_def)
  then have "drops b ?w3 = 1" by (simp add: drops_def heap boxes d) (simp add: counted_def)
  with before show ?thesis
    unfolding upgrade_in_retried_branch_releases_arc_def new by (simp add: down w''(1) Let_def)
qed

text \<open>
  No leak and no early drop, the two drop-safety tests of one thread: of 100 payloads written in an
  alternative that is abandoned, each one is dropped, and not the one in the variable; upgrading a
  \<^verbatim>\<open>Weak\<close> in an abandoned alternative keeps nothing alive, so the payload is there as long as the
  \<^verbatim>\<open>TArc\<close> is, and dropped with it.
\<close>

theorem drop_safety_tests_pass:
  assumes "arc_bed_ok b"
  shows "or_retry_drops_tentative_writes b \<and> upgrade_in_retried_branch_releases_arc b"
  using or_retry_test_runs [OF assms] upgrade_test_runs [OF assms] by blast

theorem drop_safety_tests_pass_witness:
  "or_retry_drops_tentative_writes demo_bed"
  using drop_safety_tests_pass [OF demo_arc_bed_ok] by blast

end
