(* ===== verification/Formatting.thy ===== *)
theory Formatting
  imports TWeak
begin

text \<open>
  The \<^verbatim>\<open>Debug\<close> implementations of \<^verbatim>\<open>TVar\<close>, \<^verbatim>\<open>TArc\<close> and \<^verbatim>\<open>TWeak\<close>, as the strings that \<^verbatim>\<open>{:?}\<close> gives. How a
  value of type \<^verbatim>\<open>T\<close> prints is the argument \<open>dbg\<close>, its own \<^verbatim>\<open>Debug\<close> implementation. The number of
  weak references to a box is an argument of \<open>TWeak_fmt\<close>.
\<close>

subsection \<open>\<^verbatim>\<open>debug_struct\<close> of the standard library\<close>

fun debug_fields :: "(string \<times> string) list \<Rightarrow> string" where
  "debug_fields [] = ''''"
| "debug_fields [(n, v)] = n @ '': '' @ v"
| "debug_fields ((n, v) # fs) = n @ '': '' @ v @ '', '' @ debug_fields fs"

definition debug_struct :: "string \<Rightarrow> (string \<times> string) list \<Rightarrow> string" where
  "debug_struct name fs = (if fs = [] then name else name @ '' { '' @ debug_fields fs @ '' }'')"

definition debug_bool :: "bool \<Rightarrow> string" where
  "debug_bool b = (if b then ''true'' else ''false'')"

definition digit :: "nat \<Rightarrow> char" where
  "digit n = ''0123456789'' ! n"

fun debug_nat :: "nat \<Rightarrow> string" where
  "debug_nat n = (if n < 10 then [digit n] else debug_nat (n div 10) @ [digit (n mod 10)])"

declare debug_nat.simps [simp del]

subsection \<open>The implementations\<close>

definition TVar_fmt :: "(val \<Rightarrow> string) \<Rightarrow> TVar \<Rightarrow> world \<Rightarrow> string may_panic" where
  "TVar_fmt dbg self w =
     (case read_atomic self w of
        Return x \<Rightarrow> Return (debug_struct ''TVar'' [(''value'', dbg x)])
      | Panic m \<Rightarrow> Panic m)"

definition TArc_fmt :: "(val \<Rightarrow> string) \<Rightarrow> TArc \<Rightarrow> world \<Rightarrow> string may_panic" where
  "TArc_fmt dbg self w =
     (case TArc_read_atomic self w of
        Return (VArc T a) \<Rightarrow> Return (debug_struct ''TArc'' [(''value'', dbg (deref (heap w) a))])
      | Return _ \<Rightarrow> Panic ''wrong type in Var<T>''
      | Panic m \<Rightarrow> Panic m)"

fun Weak_strong_count :: "arc list \<Rightarrow> ctx \<Rightarrow> val \<Rightarrow> nat" where
  "Weak_strong_count held c (VWeak T (Some a)) = strong_count held c a"
| "Weak_strong_count held c _ = 0"

definition TWeak_fmt :: "arc list \<Rightarrow> (val \<Rightarrow> nat) \<Rightarrow> TWeak \<Rightarrow> ctx \<Rightarrow> string may_panic" where
  "TWeak_fmt held weak_count self c =
     (case TWeak_read_atomic self (fst c) of
        Return w \<Rightarrow> Return (debug_struct ''TWeak''
          [(''alive'', debug_bool (0 < Weak_strong_count held c w)),
           (''strong_count'', debug_nat (Weak_strong_count held c w)),
           (''weak_count'', debug_nat (weak_count w))])
      | Panic m \<Rightarrow> Panic m)"

subsection \<open>What the output shows\<close>

lemma ctx_ok_handle:
  assumes "ctx_ok \<Gamma> L (w, tx)" and "var_ok \<Gamma> L v"
  shows "world_ok \<Gamma> w" and "handle_ok \<Gamma> w v"
  using ctx_okD(1,2) [OF assms(1)] assms(2) by (simp_all add: handle_ok_def var_ok_def)

lemma TVar_fmt_eq:
  assumes "ctx_ok \<Gamma> L (w, tx)" and "var_ok \<Gamma> L v"
  shows "TVar_fmt dbg v w =
    Return (''TVar { value: '' @ dbg (contents w (control_block v)) @ '' }'')"
proof -
  have "control_block v \<in> set (vcb_live w)"
    using ctx_ok_handle(2) [OF assms] by (simp add: handle_ok_def)
  then show ?thesis
    by (simp add: TVar_fmt_def read_atomic_typed [OF ctx_ok_handle [OF assms]] debug_struct_def
        contents_def view_def seen_arc_def)
qed

lemma TArc_fmt_eq:
  assumes "ctx_ok \<Gamma> L (w, tx)" and "var_ok \<Gamma> L (TArc.inner self)"
    and "contents w (control_block (TArc.inner self)) = VArc T a"
  shows "TArc_fmt dbg self w = Return (''TArc { value: '' @ dbg (deref (heap w) a) @ '' }'')"
proof -
  have "control_block (TArc.inner self) \<in> set (vcb_live w)"
    using ctx_ok_handle(2) [OF assms(1,2)] by (simp add: handle_ok_def)
  with assms(3) show ?thesis
    by (simp add: TArc_fmt_def TArc_read_atomic_def read_atomic_typed [OF ctx_ok_handle [OF assms(1,2)]]
        debug_struct_def contents_def view_def seen_arc_def)
qed

lemma TWeak_fmt_eq:
  assumes "ctx_ok \<Gamma> L (w, tx)" and "var_ok \<Gamma> L (inner self)"
    and "contents w (control_block (inner self)) = x"
  shows "TWeak_fmt held weak_count self (w, tx') = Return (
    ''TWeak { alive: '' @ debug_bool (0 < Weak_strong_count held (w, tx') x) @
    '', strong_count: '' @ debug_nat (Weak_strong_count held (w, tx') x) @
    '', weak_count: '' @ debug_nat (weak_count x) @ '' }'')"
proof -
  have "control_block (inner self) \<in> set (vcb_live w)"
    using ctx_ok_handle(2) [OF assms(1,2)] by (simp add: handle_ok_def)
  with assms(3) show ?thesis
    by (simp add: TWeak_fmt_def TWeak_read_atomic_def
        read_atomic_typed [OF ctx_ok_handle [OF assms(1,2)]]
        debug_struct_def contents_def view_def seen_arc_def)
qed

text \<open>Whether a \<^verbatim>\<open>Weak\<close> is shown as alive is whether upgrading it succeeds.\<close>

lemma alive_iff_upgrade:
  "0 < Weak_strong_count held c x \<longleftrightarrow> Weak_upgrade held c x \<noteq> None"
  by (cases "(held, c, x)" rule: Weak_strong_count.cases) simp_all

text \<open>
  C39. \<^verbatim>\<open>Debug\<close> output is taken outside the running transaction: printing a variable never panics,
  not even inside a transaction, and shows the committed value; after a write in the same
  transaction, which its own reads see, the output is still the same. A \<^verbatim>\<open>TArc\<close> prints the value
  behind its \<^verbatim>\<open>Arc\<close>, and a \<^verbatim>\<open>TWeak\<close> is printed as alive exactly if upgrading its value would succeed.
\<close>

theorem debug_shows_committed_value:
  assumes "ctx_ok \<Gamma> L (w, tx)" and "var_ok \<Gamma> L v" and "type_id y = marker v"
  shows "TVar_fmt dbg v w =
      Return (''TVar { value: '' @ dbg (contents w (control_block v)) @ '' }'') \<and>
    (\<exists>w' tx' tx''. Transaction_write v y (w, tx) = (Return (Inr ()), w', tx') \<and>
       Transaction_read v (w', tx') = (Return (Inr y), w', tx'') \<and>
       TVar_fmt dbg v w' = TVar_fmt dbg v w) \<and>
    (\<forall>arc T a. var_ok \<Gamma> L (TArc.inner arc) \<and> contents w (control_block (TArc.inner arc)) = VArc T a \<longrightarrow>
       TArc_fmt dbg arc w = Return (''TArc { value: '' @ dbg (deref (heap w) a) @ '' }'')) \<and>
    (\<forall>weak x. var_ok \<Gamma> L (inner weak) \<and> contents w (control_block (inner weak)) = x \<longrightarrow>
       (\<exists>rest. TWeak_fmt held weak_count weak (w, tx) = Return (''TWeak { alive: '' @
          (if Weak_upgrade held (w, tx) x \<noteq> None then ''true'' else ''false'') @ rest)))"
proof (intro conjI allI impI; (elim conjE)?)
  show "TVar_fmt dbg v w =
      Return (''TVar { value: '' @ dbg (contents w (control_block v)) @ '' }'')"
    by (rule TVar_fmt_eq [OF assms(1,2)])
  from refinesE [OF refines_write [OF assms(2,3)] assms(1)] obtain r w' tx'
    where W: "Transaction_write v y (w, tx) = (Return r, w', tx')"
      and ok: "ctx_ok \<Gamma> L (w', tx')" and al: "only_allocates w w'"
      and S: "spec_write (control_block v) y (view w (vars tx)) = (r, view w' (vars tx'))" by blast
  from S have r: "r = Inr ()" and upd: "view w' (vars tx') = (view w (vars tx))(control_block v := y)"
    by (simp_all add: spec_write_def)
  from upd have seen: "view w' (vars tx') (control_block v) = y" by simp
  from Transaction_read_typed [OF ok assms(2)] obtain tx''
    where "Transaction_read v (w', tx') = (Return (Inr y), w', tx'')" by (metis seen)
  moreover have "contents w' (control_block v) = contents w (control_block v)"
    using view_only_allocates [OF ctx_ok_new [OF ctx_okD(1) [OF assms(1)]] al] by simp
  ultimately show "\<exists>w' tx' tx''. Transaction_write v y (w, tx) = (Return (Inr ()), w', tx') \<and>
       Transaction_read v (w', tx') = (Return (Inr y), w', tx'') \<and>
       TVar_fmt dbg v w' = TVar_fmt dbg v w"
    using W r TVar_fmt_eq [OF assms(1,2)] TVar_fmt_eq [OF ok assms(2)] by auto
next
  fix arc :: TArc and T a
  assume "var_ok \<Gamma> L (TArc.inner arc)" and "contents w (control_block (TArc.inner arc)) = VArc T a"
  then show "TArc_fmt dbg arc w = Return (''TArc { value: '' @ dbg (deref (heap w) a) @ '' }'')"
    by (rule TArc_fmt_eq [OF assms(1)])
next
  fix weak :: TWeak and x
  assume "var_ok \<Gamma> L (inner weak)" and "contents w (control_block (inner weak)) = x"
  from TWeak_fmt_eq [OF assms(1) this]
  show "\<exists>rest. TWeak_fmt held weak_count weak (w, tx) = Return (''TWeak { alive: '' @
      (if Weak_upgrade held (w, tx) x \<noteq> None then ''true'' else ''false'') @ rest)"
    by (simp add: alive_iff_upgrade debug_bool_def)
qed

text \<open>A variable that holds 42, printed in a transaction that has written 7 to it.\<close>

fun debug_val :: "val \<Rightarrow> string" where
  "debug_val (VInt n) = (if n < 0 then ''-'' @ debug_nat (nat (- n)) else debug_nat (nat n))"
| "debug_val v = ''_''"

lemma debug_42: "debug_val (VInt 42) = ''42''"
  by (simp add: debug_nat.simps digit_def)

theorem debug_shows_committed_value_witness:
  "TVar_fmt debug_val demo_x demo_world = Return ''TVar { value: 42 }'' \<and>
    (\<exists>w' tx' tx''. Transaction_write demo_x (VInt 7) (demo_world, Transaction_new) =
         (Return (Inr ()), w', tx') \<and>
       Transaction_read demo_x (w', tx') = (Return (Inr (VInt 7)), w', tx'') \<and>
       TVar_fmt debug_val demo_x w' = Return ''TVar { value: 42 }'')"
proof -
  have ok: "ctx_ok demo_types {VCB 64, VCB 16} (demo_world, Transaction_new)"
    using ctx_ok_new [OF demo_world_ok] by simp
  have v: "var_ok demo_types {VCB 64, VCB 16} demo_x" and t: "type_id (VInt 7) = marker demo_x"
    by (simp_all add: var_ok_def demo_x_def demo_types_def)
  have "contents demo_world (control_block demo_x) = VInt 42"
    by (simp add: contents_def view_def seen_arc_def demo_x_def)
  with debug_shows_committed_value [OF ok v t, of debug_val "[]" "\<lambda>_. 0"] debug_42 show ?thesis
    by auto
qed

end
