(* ===== verification/Spec2Isabelle.thy ===== *)
theory Spec2Isabelle
  imports Anomalies TWeak Termination Progress Alone Livelock Panics Typing Sleepers Garbage
    Reclamation Tests_Lib Tests_Arc Tests_Docs Tests_Threads Tests_Shared Tests_Drops Formatting
begin

text \<open>
  A verification library for rust-stm, a software transactional memory for Rust
  (\<^verbatim>\<open>src/stm-core\<close>; \<^verbatim>\<open>src/src/lib.rs\<close> re-exports it and \<^verbatim>\<open>src/benches\<close> measures it).

  \<^bold>\<open>The program.\<close> A \<^verbatim>\<open>TVar<T>\<close> is a shared pointer to a \<^verbatim>\<open>VarControlBlock\<close>: a list of waiting
  transactions behind a mutex, a counter of dead ones, and the current value, an
  \<^verbatim>\<open>Arc<dyn Any>\<close>, behind a read-write lock. A closure passed to \<^verbatim>\<open>atomically\<close> works on a
  \<^verbatim>\<open>Transaction\<close>, a log that maps the variables it touched, ordered by address, to one of five
  states (\<^verbatim>\<open>LogVar\<close>). \<^verbatim>\<open>with_control\<close> runs the closure, then \<^verbatim>\<open>commit\<close>: lock every variable of the
  log in address order, check by pointer equality that what was read is still there, write back,
  wake the waiting transactions. A closure that calls \<^verbatim>\<open>retry\<close> waits in \<^verbatim>\<open>wait_for_change\<close>:
  register a \<^verbatim>\<open>ControlBlock\<close> with every variable read, compare, park. \<^verbatim>\<open>or\<close> runs a second alternative
  when the first one retries, and merges the logs. \<^verbatim>\<open>TArc\<close> and \<^verbatim>\<open>TWeak\<close> are variables of \<^verbatim>\<open>Arc\<close> and
  \<^verbatim>\<open>Weak\<close> values.

  \<^bold>\<open>The theories, in the order of the code's dependencies.\<close>

  \<^item> \<open>Prelude\<close>: machine integers, values of computations that may panic, shared list lemmas.
  \<^item> \<open>Result\<close> (\<^verbatim>\<open>result.rs\<close> and the helpers of \<^verbatim>\<open>lib.rs\<close>): errors, results as sums, \<^verbatim>\<open>retry\<close>, \<^verbatim>\<open>guard\<close>,
    \<^verbatim>\<open>unwrap_or_retry\<close>.
  \<^item> \<open>BTree\<close>: the operations of \<^verbatim>\<open>BTreeMap\<close> the source calls, on sorted association lists, and their
    contract, the locale \<open>ordered_map\<close>.
  \<^item> \<open>Any_Arc\<close>: dynamically typed values, boxes in an arena, addresses and their order.
  \<^item> \<open>Log_Var\<close> (\<^verbatim>\<open>transaction/log_var.rs\<close>): the five states and their transitions; the locale
    \<open>log_entry\<close> says what an entry promises.
  \<^item> \<open>Control_Block\<close> (\<^verbatim>\<open>transaction/control_block.rs\<close>): the flag, and the protocol of \<^verbatim>\<open>wait\<close> and
    \<^verbatim>\<open>set_changed\<close> as interleaved steps with \<^verbatim>\<open>park\<close> tokens and spurious wake-ups.
  \<^item> \<open>Var_Block\<close> (\<^verbatim>\<open>VarControlBlock\<close> in \<^verbatim>\<open>tvar.rs\<close>): the record \<open>world\<close> of all shared memory;
    \<^verbatim>\<open>wake_all\<close>, \<^verbatim>\<open>wait\<close>, \<^verbatim>\<open>set_dead\<close>.
  \<^item> \<open>TVar\<close> (\<^verbatim>\<open>TVar\<close> in \<^verbatim>\<open>tvar.rs\<close>, outside transactions): typed worlds and the atomic accessors.
  \<^item> \<open>Transaction\<close> (\<^verbatim>\<open>transaction/mod.rs\<close>): the log and \<^verbatim>\<open>read\<close>, \<^verbatim>\<open>write\<close>, \<^verbatim>\<open>or\<close>, \<^verbatim>\<open>combine\<close>, \<^verbatim>\<open>commit\<close>,
    \<^verbatim>\<open>wait_for_change\<close> as functions of the world and the log.
  \<^item> \<open>Closure\<close>, \<open>Refinement\<close>: closures as programs over these operations (\<open>prog\<close>, run by
    \<open>interp\<close>), the reference semantics \<open>spec\<close> on stores, and the proof that \<open>interp\<close>
    refines \<open>spec\<close> as long as nobody interferes (the contract \<open>refines\<close>).
  \<^item> \<open>Runtime\<close>, \<open>Waiting\<close>, \<open>Isolation\<close> (\<^verbatim>\<open>with_control\<close>, \<^verbatim>\<open>with\<close>, \<^verbatim>\<open>atomically\<close>, the nesting guard, the
    benchmark entry points): the retry loop with an environment that acts between its phases; what
    waiting does; atomicity in isolation; panics and nesting.
  \<^item> \<open>TVar_Ops\<close> (\<^verbatim>\<open>TVar\<close> inside transactions, \<^verbatim>\<open>optionally\<close>): \<^verbatim>\<open>modify\<close>, \<^verbatim>\<open>replace\<close> and the combinators over
    the locale \<open>store_cell\<close>.
  \<^item> \<open>Machine\<close>: any number of threads running transactions. Each access to shared memory of
    \<^verbatim>\<open>with_control\<close>, \<^verbatim>\<open>commit\<close>, \<^verbatim>\<open>wait_for_change\<close>, \<^verbatim>\<open>wake_all\<close>, \<^verbatim>\<open>set_changed\<close>, \<^verbatim>\<open>ControlBlock::wait\<close>,
    \<^verbatim>\<open>set_dead\<close> and \<^verbatim>\<open>write_atomic\<close> is a step; steps interleave freely (\<open>local_step\<close>, \<open>mstep\<close>, \<open>mrun\<close>).
  \<^item> \<open>Schedule\<close>, \<open>Sequential\<close>: the next step as a function, schedules that compute concrete runs,
    and the proof that the functions of \<open>Transaction\<close> are the machine without interleaving.
  \<^item> \<open>Serial\<close>, \<open>Machine_Inv\<close>, \<open>Serializability\<close>, \<open>Concurrency\<close>: the invariant of a thread at each
    program counter, the simulation of concurrent runs by serial ones, and its theorems.
  \<^item> \<open>Handles\<close>: who holds the strong references to the control blocks, and the \<^verbatim>\<open>park\<close> tokens.
    \<open>Deadlock\<close>, \<open>Wakeup\<close>: some thread can always step unless all rest; no wake-up is lost.
  \<^item> \<open>Anomalies\<close>: two concrete runs in which \<^verbatim>\<open>or\<close> departs from its meaning, and one in which a closure
    sees a state that never was.
  \<^item> \<open>TArc\<close>, \<open>TWeak\<close> (\<^verbatim>\<open>tarc.rs\<close>, \<^verbatim>\<open>tweak.rs\<close>): all operations, with strong counts computed from the
    live boxes. \<open>Formatting\<close>: what the \<^verbatim>\<open>Debug\<close> instances of the three handles print.
  \<^item> \<open>Termination\<close>, \<open>Progress\<close>, \<open>Alone\<close>: every attempt of a transaction ends; a commit fails only because
    another one succeeded; a thread left alone finishes. \<open>Livelock\<close>: runs in which nobody starts anything
    come to rest. \<open>Panics\<close>: the nesting flag, and panics anywhere in a closure. \<open>Typing\<close>: reachable states are typed. \<open>Sleepers\<close>: what a sleeping
    transaction knows of its closure. \<open>Garbage\<close>: the bound on waiting lists.
  \<^item> \<open>Boxes\<close>, \<open>Reclamation\<close>: who holds the boxes of values in a concurrent run; pointer comparisons when
    addresses are used again; the memory of released boxes.
  \<^item> \<open>Tests_Lib\<close>, \<open>Tests_Arc\<close>, \<open>Tests_Drops\<close>, \<open>Tests_Threads\<close>, \<open>Tests_Shared\<close>: the tests of the
    repository as definitions; \<open>Tests_Docs\<close>: the examples of its documentation comments. The sequential ones are functions of a \<open>testbed\<close> (a world whose first two variables are the ones the
    test creates, at addresses the allocator chooses); the threaded ones are runs of the machine, proved
    for every schedule. The locale \<open>handshake\<close> is what two of them share.

  \<^bold>\<open>How state corresponds.\<close> The record \<open>world\<close> holds the arena of boxes (\<open>heap\<close>; an \<^verbatim>\<open>Arc\<close> is an
  address, \<^verbatim>\<open>ptr_eq\<close> is equality, boxes are neither freed nor addresses reused while the model runs, which
  \<open>Boxes\<close> and \<open>Reclamation\<close> justify), the control blocks
  of variables by their 64-bit address (\<open>vcbs\<close>, \<open>vcb_live\<close>), those of waiting transactions
  with their strong counts (\<open>cbs\<close>, \<open>cb_strong\<close>), the \<^verbatim>\<open>park\<close> tokens and the thread-local flags
  \<^verbatim>\<open>TRANSACTION_RUNNING\<close> (\<open>running\<close>). The set of live variables is fixed during a run of the machine: threads
  neither make variables nor drop the last handle of one; where a test does, it does so before its threads
  start or after they are done (\<open>drop_last_handle\<close> stands for the code the compiler makes for dropping
  the last handle). The dead counter is a 64-bit word. An address of a new
  block is an argument, the allocator's choice.

  \<^bold>\<open>Parameters.\<close> The locks of \<^verbatim>\<open>parking_lot\<close> are not in the repository: who holds a guard and who waits
  is read off the program counters, which request is granted is a parameter, and its laws are the
  locales \<open>rwlock\<close> (guards exclude) and \<open>rwlock_live\<close> (a free lock is granted to some waiter),
  interpreted by two policies. The environment of the retry loop in \<open>Runtime\<close> and the references
  to a box held elsewhere in \<open>TArc\<close> are arguments, unconstrained.

  \<^bold>\<open>Fuel.\<close> A transaction may retry for ever, so \<open>with_control_loop\<close> takes fuel, one unit per iteration,
  and running out is an outcome of its own. The theorems on isolation give any fuel from one on and
  prove that the loop finishes or parks in its first iteration. The machine needs no fuel: a run is
  a finite sequence of steps.

  \<^bold>\<open>What the theorems show.\<close> Concurrent runs are strictly serializable, and for closures without \<^verbatim>\<open>or\<close>
  against the reference semantics; guards exclude, no downcast fails; commits cannot deadlock; a
  transaction waiting on changed reads is about to be woken, if all writes of the run are transactional, and one
  that is parked although it was notified has a token or is about to get one; the strong count of
  a control block is the number of threads that wait on it or are notifying it;
  \<^verbatim>\<open>write_atomic\<close> wakes nobody. With \<^verbatim>\<open>or\<close>, serializability holds for a weaker meaning (\<open>may\<close>: the
  second alternative may run whenever the first one can retry), and \<open>Anomalies\<close> proves that it is
  really weaker and that \<^verbatim>\<open>combine\<close> can lose a read to wait for, and with it a wake-up. In isolation a transaction is one
  atomic step of its specification. Each component's operations have their functional
  specification on every branch.

  Under any interference the steps of an attempt are well-founded, so a closure that terminates is
  committed, abandoned or parked after finitely many steps of its thread (\<open>Termination\<close>), and an
  attempt's commit fails only if another thread has installed a value meanwhile, so that failures of
  some are successes of others (\<open>Progress\<close>). A thread left alone returns or parks (\<open>Alone\<close>, \<open>Livelock\<close>).
  Finitely many threads whose closures do not fail can not keep each other busy for ever: a run in which
  nobody starts anything new and \<^verbatim>\<open>park\<close> returns only with a token ends, with everybody returned or
  parked, and if \<^verbatim>\<open>park\<close> may return for no reason, only infinitely many such returns make a run infinite
  (\<open>Livelock\<close>). A closure may panic at any
  point: nothing of it is committed, nobody else notices, the flag is cleared (\<open>Panics\<close>).
  When nothing can move after a run without \<^verbatim>\<open>write_atomic\<close>, every parked closure without \<^verbatim>\<open>or\<close> would retry again on
  the current values (\<open>Sleepers\<close>). Reachable states are typed: every box, log entry and
  variable holds the type its handle declares (\<open>Typing\<close>). A waiting list holds at most 64 entries,
  the threshold of \<^verbatim>\<open>set_dead\<close>, beyond three for each thread (\<open>Garbage\<close>). A box
  nobody holds stays released, so its memory can be freed and its address used again: no comparison of
  \<^verbatim>\<open>commit\<close> or \<^verbatim>\<open>wait_for_change\<close> is deceived (no ABA), and no thread looks into freed memory (\<open>Boxes\<close>,
  \<open>Reclamation\<close>). The tests pass (\<open>Tests_Lib\<close>, \<open>Tests_Arc\<close>, \<open>Tests_Drops\<close>, \<open>Tests_Threads\<close>,
  \<open>Tests_Shared\<close>), the examples of the documentation run as it says (\<open>Tests_Docs\<close>), and \<^verbatim>\<open>Debug\<close> shows the committed value (\<open>Formatting\<close>).

  \<^bold>\<open>What is not modelled.\<close> The benchmarks, the timing
  harness of \<^verbatim>\<open>test.rs\<close>, and its test \<^verbatim>\<open>modify_cow_no_double_drop\<close>, which counts references nested in
  vectors; the destructors themselves: what is proved is which boxes nobody holds any more, not the
  code that frees them. The closures of the machine are given the payloads of \<^verbatim>\<open>Arc\<close>s they dereference,
  and do not make new \<^verbatim>\<open>Arc\<close>s; a payload that only the stored \<^verbatim>\<open>Arc\<close> refers to is one box with it
  (\<open>Tests_Shared\<close>). User code, and with it the \<^verbatim>\<open>clone\<close> of a payload, is not run: a test that its
  \<^verbatim>\<open>clone\<close> would fail checks that no box is made. A \<^verbatim>\<open>with_control\<close> of \<open>Runtime\<close> that parks with nobody to wake
  it ends in the outcome \<open>Parked\<close>; waking up later is in the machine. Capacities of vectors; weak memory: the steps are sequentially consistent.
  In the machine a critical section of the mutex of a waiting list is one step, the references that
  \<^verbatim>\<open>retain\<close> upgrades and drops inside it included; and reading the value under a lock and copying its
  \<^verbatim>\<open>Arc\<close> is one step. Nothing else of the library is left out; single transactions under fair
  schedules would need assumptions on the scheduler that the code does not make.
\<close>

end
